theory Spec2Isabelle
  imports Complex_Main "HOL-Library.Word" "HOL-Library.Sublist"
begin

section \<open>Data model of the folder view (llfolderviewitem.cpp, llfolderview.cpp)\<close>

text \<open>
  The widget is a tree of \<open>LLFolderViewFolder\<close> objects, each owning an ordered list of
  sub-folders (\<open>mFolders\<close>) and an ordered list of leaf items (\<open>mItems\<close>).  The tree is
  the store: a node is addressed by the list of sub-folder indices leading to it from the
  root (\<open>FolderRef\<close>), a leaf item by the address of its folder and its index in
  \<open>mItems\<close> (\<open>ItemRef\<close>).  \<open>mParentFolder\<close> is the address with its last index removed.
  Generations and pixel sizes are \<open>S32\<close> in the source; no operation here comes near the
  range limit, so they are \<open>int\<close>.  The animated heights are \<open>F32\<close> in the source and are
  taken as reals.
\<close>

type_synonym uuid = "128 word"

definition isNull :: "uuid \<Rightarrow> bool" where
  "isNull u = (u = 0)"

datatype ref = FolderRef "nat list" | ItemRef "nat list" nat

abbreviation Root :: ref where
  "Root \<equiv> FolderRef []"

record rect =
  mLeft :: int
  mTop :: int
  mRight :: int
  mBottom :: int

definition getHeight :: "rect \<Rightarrow> int" where
  "getHeight r = mTop r - mBottom r"

definition getWidth :: "rect \<Rightarrow> int" where
  "getWidth r = mRight r - mLeft r"

text \<open>The answers of the \<open>LLFolderViewEventListener\<close> that this code consumes.\<close>

record listener =
  getUUID :: uuid
  isItemRemovable :: bool

text \<open>What can go wrong in a method: a member is read through a pointer to no object (a node
  without listener has \<open>mListener == NULL\<close>), or the first element of an empty array is
  read.\<close>

datatype fault = NullPointerRead | EmptyArrayRead

text \<open>Fields of \<open>LLFolderViewItem\<close> (and of the \<open>LLView\<close> it derives from) used below.
  \<open>getItemHeight\<close> depends on the icon and the font only and is a field here.\<close>

record item_state =
  mName :: string
  mListener :: "listener option"
  mIsSelected :: bool
  mIsCurSelection :: bool
  mVisible :: bool
  mPassedFilter :: bool
  mLastFilterGeneration :: int
  mHasVisibleChildren :: bool
  mIndentation :: int
  mLabelWidth :: int
  getItemHeight :: int
  mRect :: rect

text \<open>Fields added by \<open>LLFolderViewFolder\<close>.\<close>

record folder_state =
  mNumDescendantsSelected :: int
  mIsOpen :: bool
  mCurHeight :: real
  mTargetHeight :: real
  mLastArrangeGeneration :: int
  mLastCalculatedWidth :: int
  mCompletedFilterGeneration :: int
  mMostFilteredDescendantGeneration :: int

datatype folder =
  Folder (self: item_state) (fstate: folder_state) (mFolders: "folder list") (mItems: "item_state list")

datatype EFolderShow = SHOW_ALL_FOLDERS | SHOW_NON_EMPTY_FOLDERS | SHOW_NO_FOLDERS

text \<open>The state of the \<open>LLInventoryFilter\<close> read and written by this code.  \<open>checked\<close> records,
  most recent first, the nodes handed to \<open>LLInventoryFilter::check\<close>.\<close>

record inventory_filter =
  getCurrentGeneration :: int
  getMinRequiredGeneration :: int
  getMustPassGeneration :: int
  getFilterCount :: int
  getShowFolderState :: EFolderShow
  isNotDefault :: bool
  checked :: "ref list"

text \<open>Fields of the root \<open>LLFolderView\<close> beyond those of the folder it is.  \<open>infoLog\<close> holds
  the lines written to \<open>llinfos\<close> and \<open>listenerCalls\<close> the removals asked of the listeners, both
  in the order of the calls.\<close>

datatype listener_call = RemoveItem uuid | RemoveBatch "uuid list"

record folder_view =
  root :: folder
  mSelectedItems :: "ref list"
  mItemMap :: "uuid \<rightharpoonup> ref"
  mFilter :: inventory_filter
  mDebugFilters :: bool
  mArrangeGeneration :: int
  mNeedsAutoSelect :: bool
  mAllowMultiSelect :: bool
  mRenameItem :: "ref option"
  mMinWidth :: int
  viewEnabled :: bool
  mNeedsScroll :: bool
  infoLog :: "string list"
  listenerCalls :: "listener_call list"

text \<open>The constructors \<open>LLFolderViewItem::LLFolderViewItem\<close> and
  \<open>LLFolderViewFolder::LLFolderViewFolder\<close>: the initial values of the fields.  A new
  \<open>LLView\<close> is visible and has the empty rectangle.\<close>

definition new_item :: "string \<Rightarrow> listener option \<Rightarrow> int \<Rightarrow> item_state" where
  "new_item nm l h =
     \<lparr>mName = nm, mListener = l, mIsSelected = False, mIsCurSelection = False,
      mVisible = True, mPassedFilter = False, mLastFilterGeneration = - 1,
      mHasVisibleChildren = False, mIndentation = 0, mLabelWidth = 0, getItemHeight = h,
      mRect = \<lparr>mLeft = 0, mTop = 0, mRight = 0, mBottom = 0\<rparr>\<rparr>"

definition new_folder_state :: folder_state where
  "new_folder_state =
     \<lparr>mNumDescendantsSelected = 0, mIsOpen = False, mCurHeight = 0, mTargetHeight = 0,
      mLastArrangeGeneration = - 1, mLastCalculatedWidth = 0,
      mCompletedFilterGeneration = - 1, mMostFilteredDescendantGeneration = - 1\<rparr>"

definition new_filter :: inventory_filter where
  "new_filter =
     \<lparr>getCurrentGeneration = 0, getMinRequiredGeneration = 0, getMustPassGeneration = 0,
      getFilterCount = 0, getShowFolderState = SHOW_NON_EMPTY_FOLDERS, isNotDefault = False,
      checked = []\<rparr>"

text \<open>The constructor \<open>LLFolderView::LLFolderView\<close>: the root has no listener, is always
  open, multi-selection is allowed and nothing is selected.\<close>

definition new_view :: "string \<Rightarrow> int \<Rightarrow> folder_view" where
  "new_view nm h =
     \<lparr>root = Folder (new_item nm None h) (new_folder_state\<lparr>mIsOpen := True\<rparr>) [] [],
      mSelectedItems = [], mItemMap = Map.empty, mFilter = new_filter, mDebugFilters = False,
      mArrangeGeneration = 0, mNeedsAutoSelect = False, mAllowMultiSelect = True,
      mRenameItem = None, mMinWidth = 0, viewEnabled = True, mNeedsScroll = False,
      infoLog = [], listenerCalls = []\<rparr>"

section \<open>Lookup by id\<close>

text \<open>\<open>LLFolderView::getItemByID\<close>: \<open>this\<close> for the null id, else the entry of \<open>mItemMap\<close>,
  else \<open>NULL\<close> (\<open>None\<close>).\<close>

definition getItemByID :: "folder_view \<Rightarrow> uuid \<Rightarrow> ref option" where
  "getItemByID v u =
     (if isNull u then Some Root
      else (case mItemMap v u of Some r \<Rightarrow> Some r | None \<Rightarrow> None))"

text \<open>\<open>LLFolderView::addItemID\<close> and \<open>removeItemID\<close>.\<close>

definition addItemID :: "uuid \<Rightarrow> ref \<Rightarrow> folder_view \<Rightarrow> folder_view" where
  "addItemID u r v = v\<lparr>mItemMap := (mItemMap v)(u \<mapsto> r)\<rparr>"

definition removeItemID :: "uuid \<Rightarrow> folder_view \<Rightarrow> folder_view" where
  "removeItemID u v = v\<lparr>mItemMap := (mItemMap v)(u := None)\<rparr>"

section \<open>Filtering (llfolderviewitem.cpp, \<open>filter\<close> and its helpers)\<close>

text \<open>\<open>LLFolderViewItem::getFiltered(S32)\<close>, the argument-free \<open>getFiltered()\<close> (which reads the
  root filter's minimum required generation) and \<open>LLFolderViewFolder::hasFilteredDescendants(S32)\<close>
  (an inline of the header: the most-filtered-descendant generation is at least the argument).\<close>

definition getFiltered_gen :: "item_state \<Rightarrow> int \<Rightarrow> bool" where
  "getFiltered_gen i g = (mPassedFilter i \<and> mLastFilterGeneration i \<ge> g)"

definition getFiltered :: "inventory_filter \<Rightarrow> item_state \<Rightarrow> bool" where
  "getFiltered flt i = (mPassedFilter i \<and> mLastFilterGeneration i \<ge> getMinRequiredGeneration flt)"

definition hasFilteredDescendants :: "folder_state \<Rightarrow> int \<Rightarrow> bool" where
  "hasFilteredDescendants fs g = (mMostFilteredDescendantGeneration fs \<ge> g)"

text \<open>\<open>LLFolderViewItem::setFiltered\<close> and its override \<open>LLFolderViewFolder::setFiltered\<close>, which
  resets the animated height when the folder newly passes.\<close>

definition item_setFiltered :: "bool \<Rightarrow> int \<Rightarrow> item_state \<Rightarrow> item_state" where
  "item_setFiltered filtered g i = i\<lparr>mPassedFilter := filtered, mLastFilterGeneration := g\<rparr>"

definition folder_setFiltered ::
  "bool \<Rightarrow> int \<Rightarrow> item_state \<Rightarrow> folder_state \<Rightarrow> item_state \<times> folder_state" where
  "folder_setFiltered filtered g s fs =
     (item_setFiltered filtered g s,
      if filtered \<and> \<not> mPassedFilter s then fs\<lparr>mCurHeight := 0\<rparr> else fs)"

text \<open>\<open>LLFolderViewFolder::setCompletedFilterGeneration(generation, FALSE)\<close>.\<close>

definition setCompletedFilterGeneration :: "int \<Rightarrow> folder_state \<Rightarrow> folder_state" where
  "setCompletedFilterGeneration g fs =
     fs\<lparr>mMostFilteredDescendantGeneration := min (mMostFilteredDescendantGeneration fs) g,
        mCompletedFilterGeneration := g\<rparr>"

text \<open>The effect of a call of \<open>requestArrange()\<close> on the folder it reaches; the call goes on
  to every ancestor, which the functions below report to their caller by a flag.\<close>

definition requestArrange_here :: "folder_state \<Rightarrow> folder_state" where
  "requestArrange_here fs = fs\<lparr>mLastArrangeGeneration := - 1\<rparr>"

definition requestArrange_if :: "bool \<Rightarrow> folder_state \<Rightarrow> folder_state" where
  "requestArrange_if b fs = (if b then requestArrange_here fs else fs)"

text \<open>
  \<open>LLFolderViewItem::filter\<close> on a leaf item at address \<open>r\<close>.  \<open>chk\<close> is
  \<open>LLInventoryFilter::check\<close>, called only when the item has a listener.  The result is the
  item, the filter (one unit of budget spent) and whether \<open>mParentFolder->requestArrange()\<close>
  was called.  The fields that only feed the renderer (\<open>mStringMatchOffset\<close>, \<open>mStatusText\<close>)
  are left out.
\<close>

definition item_filter ::
  "(item_state \<Rightarrow> bool) \<Rightarrow> ref \<Rightarrow> inventory_filter \<Rightarrow> item_state
     \<Rightarrow> item_state \<times> inventory_filter \<times> bool" where
  "item_filter chk r flt i =
     (let has = (mListener i \<noteq> None);
          filtered = (has \<and> chk i);
          flt1 = (if has then flt\<lparr>checked := r # checked flt\<rparr> else flt);
          req = (mVisible i \<noteq> filtered);
          i' = item_setFiltered filtered (getCurrentGeneration flt) i;
          flt2 = flt1\<lparr>getFilterCount := getFilterCount flt1 - 1\<rparr>
      in (i', flt2, req))"

text \<open>The same method on a folder: \<open>setFiltered\<close> is the folder's override.\<close>

definition folder_item_filter ::
  "(item_state \<Rightarrow> bool) \<Rightarrow> ref \<Rightarrow> inventory_filter \<Rightarrow> item_state \<Rightarrow> folder_state
     \<Rightarrow> item_state \<times> folder_state \<times> inventory_filter \<times> bool" where
  "folder_item_filter chk r flt s fs =
     (let has = (mListener s \<noteq> None);
          filtered = (has \<and> chk s);
          flt1 = (if has then flt\<lparr>checked := r # checked flt\<rparr> else flt);
          req = (mVisible s \<noteq> filtered);
          (s', fs') = folder_setFiltered filtered (getCurrentGeneration flt) s fs;
          flt2 = flt1\<lparr>getFilterCount := getFilterCount flt1 - 1\<rparr>
      in (s', fs', flt2, req))"

text \<open>Lines 1225-1238 of \<open>LLFolderViewFolder::filter\<close>: the folder filters itself, unless it
  failed a generation that is at least the must-pass generation.\<close>

definition filter_self ::
  "(item_state \<Rightarrow> bool) \<Rightarrow> ref \<Rightarrow> inventory_filter \<Rightarrow> item_state \<Rightarrow> folder_state
     \<Rightarrow> item_state \<times> folder_state \<times> inventory_filter \<times> bool" where
  "filter_self chk r flt s fs =
     (if mLastFilterGeneration s < getCurrentGeneration flt then
        (if mLastFilterGeneration s \<ge> getMustPassGeneration flt \<and> \<not> mPassedFilter s
         then (s\<lparr>mLastFilterGeneration := getCurrentGeneration flt\<rparr>, fs, flt, False)
         else folder_item_filter chk r flt s fs)
      else (s, fs, flt, False))"

text \<open>\<open>LLFolderViewFolder::setOpenArrangeRecursively(TRUE)\<close> with the default \<open>RECURSE_NO\<close>, as
  called on a child folder that has something to show: the child opens and, if it was
  closed, requests arrangement (the flag).\<close>

definition setOpenArrange_true :: "folder \<Rightarrow> folder \<times> bool" where
  "setOpenArrange_true c =
     (case c of Folder s fs subs its \<Rightarrow>
        if mIsOpen fs then (c, False)
        else (Folder s (requestArrange_here (fs\<lparr>mIsOpen := True\<rparr>)) subs its, True))"

text \<open>\<open>mMostFilteredDescendantGeneration = filter_generation\<close> and, under auto-select, the
  opening of the child: the body of both \<open>if\<close>s of the folder loop.\<close>

definition track_passed ::
  "bool \<Rightarrow> int \<Rightarrow> folder \<Rightarrow> folder_state \<Rightarrow> folder \<times> folder_state \<times> bool" where
  "track_passed needsAutoSelect g c fs =
     (let fs1 = fs\<lparr>mMostFilteredDescendantGeneration := g\<rparr> in
      if needsAutoSelect
      then (let (c', rq) = setOpenArrange_true c in (c', requestArrange_if rq fs1, rq))
      else (c, fs1, False))"

text \<open>Lines 1325-1348: the body of the item loop after the budget test.\<close>

definition filter_item_step ::
  "(item_state \<Rightarrow> bool) \<Rightarrow> ref \<Rightarrow> inventory_filter \<Rightarrow> folder_state \<Rightarrow> item_state
     \<Rightarrow> item_state \<times> inventory_filter \<times> folder_state \<times> bool" where
  "filter_item_step chk r flt fs i =
     (let g = getCurrentGeneration flt in
      if mLastFilterGeneration i \<ge> g then
        (i, flt, if getFiltered flt i then fs\<lparr>mMostFilteredDescendantGeneration := g\<rparr> else fs, False)
      else if mLastFilterGeneration i \<ge> getMustPassGeneration flt
              \<and> \<not> getFiltered_gen i (getMustPassGeneration flt) then
        (item_setFiltered False g i, flt, fs, False)
      else
        (let (i', flt', rq) = item_filter chk r flt i;
             fs1 = requestArrange_if rq fs;
             fs2 = (if getFiltered_gen i' (getMinRequiredGeneration flt')
                    then fs1\<lparr>mMostFilteredDescendantGeneration := g\<rparr> else fs1)
         in (i', flt', fs2, rq)))"

text \<open>The item loop: it stops (\<open>break\<close>) as soon as the budget is negative.  \<open>j\<close> is the index
  of the first item of the list in \<open>mItems\<close>.\<close>

fun filter_items ::
  "(item_state \<Rightarrow> bool) \<Rightarrow> nat list \<Rightarrow> nat \<Rightarrow> inventory_filter \<Rightarrow> folder_state
     \<Rightarrow> item_state list \<Rightarrow> item_state list \<times> inventory_filter \<times> folder_state \<times> bool" where
  "filter_items chk p j flt fs [] = ([], flt, fs, False)"
| "filter_items chk p j flt fs (i # is) =
     (if getFilterCount flt < 0 then (i # is, flt, fs, False)
      else
        (let (i', flt1, fs1, rq1) = filter_item_step chk (ItemRef p j) flt fs i;
             (is', flt2, fs2, rq2) = filter_items chk p (Suc j) flt1 fs1 is
         in (i' # is', flt2, fs2, rq1 \<or> rq2)))"

text \<open>
  \<open>LLFolderViewFolder::filter\<close> on the folder at address \<open>p\<close>, with the loop over
  \<open>mFolders\<close> (\<open>filter_subfolders\<close>, where \<open>k\<close> is the index of the head of the list).  The
  result is the folder, the filter and whether \<open>requestArrange()\<close> was called on the parent.
  The start of a background fetch for a passing folder acts on the inventory model only and
  is left out.
\<close>

fun filter_folder ::
  "(item_state \<Rightarrow> bool) \<Rightarrow> bool \<Rightarrow> nat list \<Rightarrow> inventory_filter \<Rightarrow> folder
     \<Rightarrow> folder \<times> inventory_filter \<times> bool"
and filter_subfolders ::
  "(item_state \<Rightarrow> bool) \<Rightarrow> bool \<Rightarrow> nat list \<Rightarrow> nat \<Rightarrow> inventory_filter \<Rightarrow> folder_state
     \<Rightarrow> folder list \<Rightarrow> folder list \<times> inventory_filter \<times> folder_state \<times> bool" where
  "filter_folder chk nas p flt (Folder s fs subs its) =
     (if mCompletedFilterGeneration fs \<ge> getCurrentGeneration flt
      then (Folder s fs subs its, flt, False)
      else
        (let (s1, fs1, flt1, rq1) = filter_self chk (FolderRef p) flt s fs in
         if mCompletedFilterGeneration fs1 \<ge> getMustPassGeneration flt1
            \<and> \<not> hasFilteredDescendants fs1 (getMustPassGeneration flt1)
         then (Folder s1 fs1 subs its, flt1, rq1)
         else if getFilterCount flt1 < 0
         then (Folder s1 fs1 subs its, flt1, rq1)
         else
           (let (subs', flt2, fs2, rq2) = filter_subfolders chk nas p 0 flt1 fs1 subs;
                (its', flt3, fs3, rq3) = filter_items chk p 0 flt2 fs2 its;
                fs4 = (if getFilterCount flt3 > 0
                       then setCompletedFilterGeneration (getCurrentGeneration flt3) fs3
                       else fs3)
            in (Folder s1 fs4 subs' its', flt3, rq1 \<or> rq2 \<or> rq3))))"
| "filter_subfolders chk nas p k flt fs [] = ([], flt, fs, False)"
| "filter_subfolders chk nas p k flt fs (c # cs) =
     (if getFilterCount flt < 0 then (c # cs, flt, fs, False)
      else if mCompletedFilterGeneration (fstate c) \<ge> getCurrentGeneration flt then
        (let (c1, fs1, rq1) =
               (if getFiltered flt (self c)
                   \<or> hasFilteredDescendants (fstate c) (getMinRequiredGeneration flt)
                then track_passed nas (getCurrentGeneration flt) c fs
                else (c, fs, False));
             (cs', flt2, fs2, rq2) = filter_subfolders chk nas p (Suc k) flt fs1 cs
         in (c1 # cs', flt2, fs2, rq1 \<or> rq2))
      else
        (let (c0, flt1, rq0) = filter_folder chk nas (p @ [k]) flt c;
             fs0 = requestArrange_if rq0 fs;
             (c1, fs1, rq1) =
               (if getFiltered flt1 (self c0)
                   \<or> hasFilteredDescendants (fstate c0) (getCurrentGeneration flt1)
                then track_passed nas (getCurrentGeneration flt1) c0 fs0
                else (c0, fs0, False));
             (cs', flt2, fs2, rq2) = filter_subfolders chk nas p (Suc k) flt1 fs1 cs
         in (c1 # cs', flt2, fs2, rq0 \<or> rq1 \<or> rq2)))"

text \<open>\<open>LLFolderView::filter\<close>: the budget of the frame is the setting \<open>FilterItemsPerFrame\<close>
  clamped to 1..5000; the root is filtered only while its completed generation is behind.\<close>

definition llclamp :: "int \<Rightarrow> int \<Rightarrow> int \<Rightarrow> int" where
  "llclamp a lo hi = (if a < lo then lo else if a > hi then hi else a)"

definition view_filter :: "(item_state \<Rightarrow> bool) \<Rightarrow> int \<Rightarrow> folder_view \<Rightarrow> folder_view" where
  "view_filter chk itemsPerFrame v =
     (let flt = (mFilter v)\<lparr>getFilterCount := llclamp itemsPerFrame 1 5000\<rparr> in
      case root v of Folder s fs subs its \<Rightarrow>
        if mCompletedFilterGeneration fs < getCurrentGeneration flt then
          (let (r', flt', rq) =
                 filter_folder chk (mNeedsAutoSelect v) [] flt
                   (Folder (s\<lparr>mPassedFilter := False\<rparr>) fs subs its)
           in v\<lparr>root := r', mFilter := flt'\<rparr>)
        else v\<lparr>root := Folder (s\<lparr>mPassedFilter := True\<rparr>) fs subs its, mFilter := flt\<rparr>)"

section \<open>Vocabulary for the properties of filtering\<close>

text \<open>One filter state follows another in a pass: the generations are the same, the budget
  has not grown and the record of checked nodes has only been extended.\<close>

definition filter_le :: "inventory_filter \<Rightarrow> inventory_filter \<Rightarrow> bool" where
  "filter_le a b \<longleftrightarrow>
     getCurrentGeneration b = getCurrentGeneration a \<and>
     getMustPassGeneration b = getMustPassGeneration a \<and>
     getMinRequiredGeneration b = getMinRequiredGeneration a \<and>
     getFilterCount b \<le> getFilterCount a \<and>
     (\<exists>new. checked b = new @ checked a)"

text \<open>The nodes handed to \<open>check\<close> between two filter states.\<close>

definition new_checks :: "inventory_filter \<Rightarrow> inventory_filter \<Rightarrow> ref list" where
  "new_checks flt flt' = take (length (checked flt') - length (checked flt)) (checked flt')"

text \<open>A cached verdict "failed", computed at a generation that is at least the must-pass
  generation and older than the current one.\<close>

definition failed_since :: "inventory_filter \<Rightarrow> item_state \<Rightarrow> bool" where
  "failed_since flt i \<longleftrightarrow>
     \<not> mPassedFilter i \<and> getMustPassGeneration flt \<le> mLastFilterGeneration i \<and>
     mLastFilterGeneration i < getCurrentGeneration flt"


text \<open>What a visit with budget to spare leaves of a sub-folder: it is complete for the
  current generation, or its own verdict is current and it took the early exit.\<close>

definition folder_settled :: "inventory_filter \<Rightarrow> folder \<Rightarrow> bool" where
  "folder_settled flt c \<longleftrightarrow>
     mCompletedFilterGeneration (fstate c) \<ge> getCurrentGeneration flt \<or>
     (mLastFilterGeneration (self c) \<ge> getCurrentGeneration flt \<and>
      mCompletedFilterGeneration (fstate c) \<ge> getMustPassGeneration flt \<and>
      \<not> hasFilteredDescendants (fstate c) (getMustPassGeneration flt))"

fun ref_path :: "ref \<Rightarrow> nat list" where
  "ref_path (FolderRef q) = q"
| "ref_path (ItemRef q j) = q"

text \<open>A filter at generation 2 whose must-pass generation is 1, a node that failed
  generation 1, and a folder of such nodes.\<close>

definition ex_filter :: "int \<Rightarrow> inventory_filter" where
  "ex_filter budget =
     new_filter\<lparr>getCurrentGeneration := 2, getMinRequiredGeneration := 1,
       getMustPassGeneration := 1, getFilterCount := budget\<rparr>"

definition ex_failed :: "string \<Rightarrow> item_state" where
  "ex_failed nm = (new_item nm None 20)\<lparr>mLastFilterGeneration := 1\<rparr>"

definition ex_failed_folder :: folder where
  "ex_failed_folder = Folder (ex_failed ''f'') new_folder_state [] [ex_failed ''x'']"


section \<open>Arrangement (\<open>arrange\<close> in llfolderviewitem.cpp and llfolderview.cpp)\<close>

text \<open>
  The constants of llfolderviewitem.h and the values of
  \<open>LLCriticalDamp::getInterpolant(FOLDER_OPEN_TIME_CONSTANT)\<close> and
  \<open>getInterpolant(FOLDER_CLOSE_TIME_CONSTANT)\<close> for the frame are not in these two files:
  they are parameters.  With them travel the settings that \<open>arrange\<close> reads from the root:
  \<open>getDebugFilters()\<close>, the filter's \<open>getShowFolderState()\<close> and \<open>getArrangeGeneration()\<close>.
\<close>

record arrange_env =
  debugFilters :: bool
  showFolderState :: EFolderShow
  arrangeGeneration :: int
  LEFT_INDENTATION :: int
  MAX_FOLDER_ITEM_OVERLAP :: int
  ICON_PAD :: int
  LEFT_PAD :: int
  interpolantOpen :: real
  interpolantClose :: real

text \<open>The helpers of llmath.h (\<open>llround\<close>, \<open>lerp\<close>) and of \<open>LLRect\<close>/\<open>LLView\<close> (\<open>setOrigin\<close>,
  \<open>reshape\<close> of the view's own rectangle, \<open>translate\<close>), which these files call.  A child view
  that follows the top edge is moved by the change of its parent's height.\<close>

definition llround :: "real \<Rightarrow> int" where
  "llround x = \<lfloor>x + 1 / 2\<rfloor>"

definition lerp :: "real \<Rightarrow> real \<Rightarrow> real \<Rightarrow> real" where
  "lerp a b u = a + (b - a) * u"

definition setOrigin :: "int \<Rightarrow> int \<Rightarrow> rect \<Rightarrow> rect" where
  "setOrigin x y r = \<lparr>mLeft = x, mTop = y + getHeight r, mRight = x + getWidth r, mBottom = y\<rparr>"

definition reshape_rect :: "int \<Rightarrow> int \<Rightarrow> rect \<Rightarrow> rect" where
  "reshape_rect w h r = r\<lparr>mRight := mLeft r + w, mTop := mBottom r + h\<rparr>"

definition translate :: "int \<Rightarrow> int \<Rightarrow> rect \<Rightarrow> rect" where
  "translate dx dy r =
     \<lparr>mLeft = mLeft r + dx, mTop = mTop r + dy, mRight = mRight r + dx, mBottom = mBottom r + dy\<rparr>"

definition setVisible :: "bool \<Rightarrow> item_state \<Rightarrow> item_state" where
  "setVisible b i = i\<lparr>mVisible := b\<rparr>"

definition folder_setVisible :: "bool \<Rightarrow> folder \<Rightarrow> folder" where
  "folder_setVisible b c = (case c of Folder s fs subs its \<Rightarrow> Folder (setVisible b s) fs subs its)"

definition folder_setRect :: "rect \<Rightarrow> folder \<Rightarrow> folder" where
  "folder_setRect r c = (case c of Folder s fs subs its \<Rightarrow> Folder (s\<lparr>mRect := r\<rparr>) fs subs its)"

text \<open>\<open>LLFolderViewFolder::needsArrange\<close>.\<close>

definition needsArrange :: "arrange_env \<Rightarrow> folder_state \<Rightarrow> bool" where
  "needsArrange env fs = (mLastArrangeGeneration fs < arrangeGeneration env)"

text \<open>\<open>LLFolderViewItem::arrange\<close>: the indentation (from the parent's, if there is a parent),
  the width and the height of the single row.  The result is the item, \<open>*width\<close> and
  \<open>*height\<close>, the latter being also the value returned.\<close>

definition item_arrange ::
  "arrange_env \<Rightarrow> int option \<Rightarrow> int \<Rightarrow> item_state \<Rightarrow> item_state \<times> int \<times> int" where
  "item_arrange env parent_indent width i =
     (let ind = (case parent_indent of Some n \<Rightarrow> n + LEFT_INDENTATION env | None \<Rightarrow> 0)
      in (i\<lparr>mIndentation := ind\<rparr>, max width (mLabelWidth i + ind), getItemHeight i))"

text \<open>The visibility that the loops of \<open>LLFolderViewFolder::arrange\<close> give a child folder
  (lines 1082-1090) and a child item (lines 1109-1116).\<close>

definition child_folder_visible :: "arrange_env \<Rightarrow> int \<Rightarrow> folder \<Rightarrow> bool" where
  "child_folder_visible env g c =
     (if debugFilters env then True
      else (showFolderState env = SHOW_ALL_FOLDERS \<or>
            (getFiltered_gen (self c) g \<or> hasFilteredDescendants (fstate c) g)))"

definition child_item_visible :: "arrange_env \<Rightarrow> int \<Rightarrow> item_state \<Rightarrow> bool" where
  "child_item_visible env g i =
     (if debugFilters env then True else getFiltered_gen i g)"

text \<open>The loop over \<open>mItems\<close> (lines 1105-1132).  The state of the loop is \<open>*width\<close>,
  \<open>running_height\<close> and \<open>target_height\<close>.\<close>

fun arrange_items ::
  "arrange_env \<Rightarrow> int \<Rightarrow> int \<Rightarrow> int \<Rightarrow> int \<Rightarrow> real \<Rightarrow> real \<Rightarrow> item_state list
     \<Rightarrow> item_state list \<times> int \<times> real \<times> real" where
  "arrange_items env g ind parent_item_height width running target [] =
     ([], width, running, target)"
| "arrange_items env g ind parent_item_height width running target (i # is) =
     (let i1 = setVisible (child_item_visible env g i) i in
      if mVisible i1 then
        (let child_top = parent_item_height - llround running;
             (i2, child_width, child_height) = item_arrange env (Some ind) width i1;
             target1 = target + real_of_int child_height;
             i3 = i2\<lparr>mRect := reshape_rect (getWidth (mRect i2)) child_height (mRect i2)\<rparr>;
             running1 = running + real_of_int child_height;
             width1 = max width child_width;
             i4 = i3\<lparr>mRect := setOrigin 0 (child_top - getHeight (mRect i3)) (mRect i3)\<rparr>;
             (is', width2, running2, target2) =
               arrange_items env g ind parent_item_height width1 running1 target1 is
         in (i4 # is', width2, running2, target2))
      else
        (let (is', width2, running2, target2) =
               arrange_items env g ind parent_item_height width running target is
         in (i1 # is', width2, running2, target2)))"

text \<open>Whether the animation step hides a child folder (line 1158) or a child item (line
  1171): the bottom of its label lies beyond the animated height plus the overlap.\<close>

definition folder_beyond :: "arrange_env \<Rightarrow> item_state \<Rightarrow> real \<Rightarrow> folder \<Rightarrow> bool" where
  "folder_beyond env s cur c =
     (getHeight (mRect s) - mTop (mRect (self c)) + getItemHeight (self c)
        > llround cur + MAX_FOLDER_ITEM_OVERLAP env)"

definition item_beyond :: "arrange_env \<Rightarrow> item_state \<Rightarrow> real \<Rightarrow> item_state \<Rightarrow> bool" where
  "item_beyond env s cur i =
     (getHeight (mRect s) - mBottom (mRect i) > llround cur + MAX_FOLDER_ITEM_OVERLAP env)"

text \<open>Lines 1145-1181: the animated height moves towards the target.  While it is more than
  one unit away the folder requests arrangement (the flag reports the call that goes on to
  the parent) and hides the children beyond the new height; else it takes the target.\<close>

definition animate :: "arrange_env \<Rightarrow> folder \<Rightarrow> folder \<times> bool" where
  "animate env F =
     (case F of Folder s fs subs its \<Rightarrow>
        if \<bar>mCurHeight fs - mTargetHeight fs\<bar> > 1 then
          (let cur = lerp (mCurHeight fs) (mTargetHeight fs)
                       (if mIsOpen fs then interpolantOpen env else interpolantClose env);
               fs1 = requestArrange_here (fs\<lparr>mCurHeight := cur\<rparr>);
               subs1 = map (\<lambda>c. if folder_beyond env s cur c then folder_setVisible False c else c) subs;
               its1 = map (\<lambda>i. if item_beyond env s cur i then setVisible False i else i) its
           in (Folder s fs1 subs1 its1, True))
        else (Folder s (fs\<lparr>mCurHeight := mTargetHeight fs\<rparr>) subs its, False))"

text \<open>
  \<open>LLView::reshape\<close> (llui, not in these files) on a folder whose rectangle has first been
  moved up by \<open>dy\<close>: the rectangle takes the new size, and every child view, which follows
  the left, top and right edges, is moved by the change of height and widened by the change
  of width.
\<close>

fun LLView_reshape :: "int \<Rightarrow> int \<Rightarrow> int \<Rightarrow> folder \<Rightarrow> folder" where
  "LLView_reshape dy width height (Folder s fs subs its) =
     (let r = translate 0 dy (mRect s);
          dw = width - getWidth r;
          dh = height - getHeight r
      in if dw \<noteq> 0 \<or> dh \<noteq> 0 then
           Folder (s\<lparr>mRect := reshape_rect width height r\<rparr>) fs
             (map (\<lambda>c. LLView_reshape dh (getWidth (mRect (self c)) + dw)
                         (getHeight (mRect (self c))) c) subs)
             (map (\<lambda>i. i\<lparr>mRect := reshape_rect (getWidth (mRect i) + dw) (getHeight (mRect i))
                                    (translate 0 dh (mRect i))\<rparr>) its)
         else Folder (s\<lparr>mRect := r\<rparr>) fs subs its)"

text \<open>Lines 1183-1189: the folder takes the rounded animated height; the result carries
  \<open>*height\<close> and the value returned, the rounded target height.\<close>

definition arrange_finish :: "folder \<Rightarrow> folder \<times> int \<times> int" where
  "arrange_finish F =
     (let h = llround (mCurHeight (fstate F))
      in (LLView_reshape 0 (getWidth (mRect (self F))) h F, h, llround (mTargetHeight (fstate F))))"

text \<open>
  \<open>LLFolderViewFolder::arrange\<close> with its loop over \<open>mFolders\<close> (lines 1079-1104).  The
  arguments are the indentation of the parent folder (none for a folder without parent) and
  \<open>*width\<close>; the result is the folder, \<open>*width\<close>, \<open>*height\<close>, the value returned and whether
  \<open>requestArrange()\<close> reached the parent.
\<close>

fun arrange_folder ::
  "arrange_env \<Rightarrow> int \<Rightarrow> int option \<Rightarrow> int \<Rightarrow> folder \<Rightarrow> folder \<times> int \<times> int \<times> int \<times> bool"
and arrange_subfolders ::
  "arrange_env \<Rightarrow> int \<Rightarrow> int \<Rightarrow> int \<Rightarrow> int \<Rightarrow> real \<Rightarrow> real \<Rightarrow> folder list
     \<Rightarrow> folder list \<times> int \<times> real \<times> real \<times> bool" where
  "arrange_folder env g parent_indent width (Folder s fs subs its) =
     (let s1 = s\<lparr>mHasVisibleChildren := hasFilteredDescendants fs g\<rparr>;
          (s2, width1, height) = item_arrange env parent_indent width s1;
          fs1 = fs\<lparr>mCurHeight := max (real_of_int height) (mCurHeight fs)\<rparr>;
          running = real_of_int (getItemHeight s2);
          target = real_of_int (getItemHeight s2);
          (F1, width3, rq1) =
            (if needsArrange env fs1 then
               (let fs2 = fs1\<lparr>mLastArrangeGeneration := arrangeGeneration env\<rparr> in
                if mIsOpen fs2 then
                  (let parent_item_height = getHeight (mRect s2);
                       (subs', w1, run1, tgt1, rq) =
                         arrange_subfolders env g (mIndentation s2) parent_item_height
                           width1 running target subs;
                       (its', w2, run2, tgt2) =
                         arrange_items env g (mIndentation s2) parent_item_height w1 run1 tgt1 its;
                       fs3 = requestArrange_if rq fs2
                   in (Folder s2 (fs3\<lparr>mTargetHeight := tgt2, mLastCalculatedWidth := w2\<rparr>) subs' its',
                       w2, rq))
                else (Folder s2 (fs2\<lparr>mTargetHeight := target, mLastCalculatedWidth := width1\<rparr>)
                        subs its, width1, False))
             else (Folder s2 fs1 subs its, mLastCalculatedWidth fs1, False));
          (F2, rq2) = animate env F1;
          (F3, height', ret) = arrange_finish F2
      in (F3, width3, height', ret, rq1 \<or> rq2))"
| "arrange_subfolders env g ind parent_item_height width running target [] =
     ([], width, running, target, False)"
| "arrange_subfolders env g ind parent_item_height width running target
       (Folder sc fsc subsc itsc # cs) =
     (let sc1 = setVisible (child_folder_visible env g (Folder sc fsc subsc itsc)) sc in
      if mVisible sc1 then
        (let child_top = parent_item_height - llround running;
             (c2, child_width, child_height, ret, rq1) =
               arrange_folder env g (Some ind) width (Folder sc1 fsc subsc itsc);
             target1 = target + real_of_int ret;
             running1 = running + real_of_int child_height;
             width1 = max width child_width;
             c3 = folder_setRect (setOrigin 0 (child_top - getHeight (mRect (self c2))) (mRect (self c2))) c2;
             (cs', width2, running2, target2, rq2) =
               arrange_subfolders env g ind parent_item_height width1 running1 target1 cs
         in (c3 # cs', width2, running2, target2, rq1 \<or> rq2))
      else
        (let (cs', width2, running2, target2, rq2) =
               arrange_subfolders env g ind parent_item_height width running target cs
         in (Folder sc1 fsc subsc itsc # cs', width2, running2, target2, rq2)))"

text \<open>
  \<open>LLFolderView::arrange\<close>.  The root always arranges, at the filter's minimum required
  generation.  Its loops differ from the folder's: the child's width starts from 0, the
  heights are integers, a leaf item is shown exactly when it passed, and there is no
  animation.  \<open>debug_line_height\<close> is \<open>llceil(sSmallFont->getLineHeight())\<close> and \<open>calc\<close> the
  minimum width that \<open>mScrollContainer->calcVisibleSize\<close> reports for the root as it is.
\<close>

definition view_env :: "arrange_env \<Rightarrow> folder_view \<Rightarrow> arrange_env" where
  "view_env ui v =
     ui\<lparr>debugFilters := mDebugFilters v, showFolderState := getShowFolderState (mFilter v),
        arrangeGeneration := mArrangeGeneration v\<rparr>"

fun view_arrange_folders ::
  "arrange_env \<Rightarrow> int \<Rightarrow> int \<Rightarrow> int \<Rightarrow> int \<Rightarrow> int \<Rightarrow> int \<Rightarrow> int \<Rightarrow> folder list
     \<Rightarrow> folder list \<times> int \<times> int \<times> int \<times> int \<times> bool" where
  "view_arrange_folders env g ind parent_item_height min_w total_w running target [] =
     ([], min_w, total_w, running, target, False)"
| "view_arrange_folders env g ind parent_item_height min_w total_w running target (c # cs) =
     (let c1 = folder_setVisible (child_folder_visible env g c) c in
      if mVisible (self c1) then
        (let child_top = parent_item_height - running;
             (c2, child_width, child_height, ret, rq1) = arrange_folder env g (Some ind) 0 c1;
             target1 = target + ret;
             min_w1 = max min_w child_width;
             total_w1 = max total_w child_width;
             running1 = running + child_height;
             c3 = folder_setRect
                    (setOrigin (ICON_PAD env) (child_top - getHeight (mRect (self c2)))
                       (mRect (self c2))) c2;
             (cs', min_w2, total_w2, running2, target2, rq2) =
               view_arrange_folders env g ind parent_item_height min_w1 total_w1 running1 target1 cs
         in (c3 # cs', min_w2, total_w2, running2, target2, rq1 \<or> rq2))
      else
        (let (cs', min_w2, total_w2, running2, target2, rq2) =
               view_arrange_folders env g ind parent_item_height min_w total_w running target cs
         in (c1 # cs', min_w2, total_w2, running2, target2, rq2)))"

fun view_arrange_items ::
  "arrange_env \<Rightarrow> int \<Rightarrow> int \<Rightarrow> int \<Rightarrow> int \<Rightarrow> int \<Rightarrow> int \<Rightarrow> int \<Rightarrow> item_state list
     \<Rightarrow> item_state list \<times> int \<times> int \<times> int \<times> int" where
  "view_arrange_items env g ind parent_item_height min_w total_w running target [] =
     ([], min_w, total_w, running, target)"
| "view_arrange_items env g ind parent_item_height min_w total_w running target (i # is) =
     (let i1 = setVisible (getFiltered_gen i g) i in
      if mVisible i1 then
        (let child_top = parent_item_height - running;
             (i2, child_width, child_height) = item_arrange env (Some ind) 0 i1;
             target1 = target + child_height;
             i3 = i2\<lparr>mRect := reshape_rect (getWidth (mRect i2)) child_height (mRect i2)\<rparr>;
             min_w1 = max min_w child_width;
             total_w1 = max total_w child_width;
             running1 = running + child_height;
             i4 = i3\<lparr>mRect := setOrigin (ICON_PAD env) (child_top - getHeight (mRect i3)) (mRect i3)\<rparr>;
             (is', min_w2, total_w2, running2, target2) =
               view_arrange_items env g ind parent_item_height min_w1 total_w1 running1 target1 is
         in (i4 # is', min_w2, total_w2, running2, target2))
      else
        (let (is', min_w2, total_w2, running2, target2) =
               view_arrange_items env g ind parent_item_height min_w total_w running target is
         in (i1 # is', min_w2, total_w2, running2, target2)))"

text \<open>\<open>LLFolderView::reshape\<close>: the width asked for is replaced by the larger of \<open>mMinWidth\<close>
  and the scroll container's minimum.\<close>

definition view_reshape :: "(folder \<Rightarrow> int) \<Rightarrow> int \<Rightarrow> int \<Rightarrow> int \<Rightarrow> folder \<Rightarrow> folder" where
  "view_reshape calc min_w width height F = LLView_reshape 0 (max min_w (calc F)) height F"

definition view_arrange ::
  "arrange_env \<Rightarrow> int \<Rightarrow> (folder \<Rightarrow> int) \<Rightarrow> folder_view \<Rightarrow> folder_view \<times> int" where
  "view_arrange ui debug_line_height calc v =
     (case root v of Folder s fs subs its \<Rightarrow>
        (let env = view_env ui v;
             g = getMinRequiredGeneration (mFilter v);
             s1 = s\<lparr>mHasVisibleChildren := hasFilteredDescendants fs g\<rparr>;
             fs1 = fs\<lparr>mLastArrangeGeneration := arrangeGeneration env\<rparr>;
             total_width = LEFT_PAD env;
             running_height = (if mDebugFilters v then debug_line_height else 0);
             target_height = running_height;
             parent_item_height = getHeight (mRect s1);
             (subs', min_w1, total_w1, run1, tgt1, rq) =
               view_arrange_folders env g (mIndentation s1) parent_item_height
                 0 total_width running_height target_height subs;
             (its', min_w2, total_w2, run2, tgt2) =
               view_arrange_items env g (mIndentation s1) parent_item_height
                 min_w1 total_w1 run1 tgt1 its;
             F1 = Folder s1 (requestArrange_if rq fs1) subs' its';
             min_width = calc F1;
             F2 = view_reshape calc min_w2 (max min_width total_w2) run2 F1;
             new_min_width = calc F2;
             F3 = (if new_min_width \<noteq> min_width
                   then view_reshape calc min_w2 (max min_width total_w2) run2 F2 else F2);
             F4 = (case F3 of Folder s3 fs3 subs3 its3 \<Rightarrow>
                     Folder s3 (fs3\<lparr>mTargetHeight := real_of_int tgt2\<rparr>) subs3 its3)
         in (v\<lparr>root := F4, mMinWidth := min_w2\<rparr>, llround (real_of_int tgt2))))"

section \<open>Vocabulary for the properties of arrangement\<close>

text \<open>The animated height is more than one unit from the target (the test of line 1146).\<close>

definition animating :: "folder_state \<Rightarrow> bool" where
  "animating fs \<longleftrightarrow> \<bar>mCurHeight fs - mTargetHeight fs\<bar> > 1"

text \<open>Lines 1053-1143 of \<open>LLFolderViewFolder::arrange\<close>: all of the method before the animation
  step.  The result is the folder, \<open>*width\<close> and whether a child requested arrangement.\<close>

definition arrange_layout ::
  "arrange_env \<Rightarrow> int \<Rightarrow> int option \<Rightarrow> int \<Rightarrow> folder \<Rightarrow> folder \<times> int \<times> bool" where
  "arrange_layout env g parent_indent width F =
     (case F of Folder s fs subs its \<Rightarrow>
     (let s1 = s\<lparr>mHasVisibleChildren := hasFilteredDescendants fs g\<rparr>;
          (s2, width1, height) = item_arrange env parent_indent width s1;
          fs1 = fs\<lparr>mCurHeight := max (real_of_int height) (mCurHeight fs)\<rparr>;
          running = real_of_int (getItemHeight s2);
          target = real_of_int (getItemHeight s2)
      in
            (if needsArrange env fs1 then
               (let fs2 = fs1\<lparr>mLastArrangeGeneration := arrangeGeneration env\<rparr> in
                if mIsOpen fs2 then
                  (let parent_item_height = getHeight (mRect s2);
                       (subs', w1, run1, tgt1, rq) =
                         arrange_subfolders env g (mIndentation s2) parent_item_height
                           width1 running target subs;
                       (its', w2, run2, tgt2) =
                         arrange_items env g (mIndentation s2) parent_item_height w1 run1 tgt1 its;
                       fs3 = requestArrange_if rq fs2
                   in (Folder s2 (fs3\<lparr>mTargetHeight := tgt2, mLastCalculatedWidth := w2\<rparr>) subs' its',
                       w2, rq))
                else (Folder s2 (fs2\<lparr>mTargetHeight := target, mLastCalculatedWidth := width1\<rparr>)
                        subs its, width1, False))
             else (Folder s2 fs1 subs its, mLastCalculatedWidth fs1, False))))"

text \<open>Two folders whose children carry the same visible flags.\<close>

definition same_flags :: "folder \<Rightarrow> folder \<Rightarrow> bool" where
  "same_flags F G \<longleftrightarrow>
     length (mFolders G) = length (mFolders F) \<and> length (mItems G) = length (mItems F) \<and>
     (\<forall>k < length (mFolders F). mVisible (self (mFolders G ! k)) = mVisible (self (mFolders F ! k))) \<and>
     (\<forall>j < length (mItems F). mVisible (mItems G ! j) = mVisible (mItems F ! j))"

text \<open>\<open>n\<close> successive calls of \<open>arrange\<close> on the same folder, nothing else touching it.\<close>

definition arrange_n :: "arrange_env \<Rightarrow> int \<Rightarrow> int option \<Rightarrow> int \<Rightarrow> nat \<Rightarrow> folder \<Rightarrow> folder" where
  "arrange_n env g pind w n F = ((\<lambda>F. fst (arrange_folder env g pind w F)) ^^ n) F"

text \<open>Settings and folders for the examples: no debug mode, arrange generation 0, both
  interpolants one half; a leaf that passed generation 0; an open folder holding such a leaf
  that is flagged invisible; a closed folder drawn taller than its row.\<close>

definition ex_env :: arrange_env where
  "ex_env =
     \<lparr>debugFilters = False, showFolderState = SHOW_NON_EMPTY_FOLDERS, arrangeGeneration = 0,
      LEFT_INDENTATION = 13, MAX_FOLDER_ITEM_OVERLAP = 2, ICON_PAD = 2, LEFT_PAD = 5,
      interpolantOpen = 1 / 2, interpolantClose = 1 / 2\<rparr>"

definition ex_passed :: "string \<Rightarrow> item_state" where
  "ex_passed nm = (new_item nm None 20)\<lparr>mPassedFilter := True, mLastFilterGeneration := 0\<rparr>"

definition ex_open_folder :: "int \<Rightarrow> folder" where
  "ex_open_folder lastArranged =
     Folder (ex_passed ''f'')
       (new_folder_state\<lparr>mIsOpen := True, mLastArrangeGeneration := lastArranged,
          mCurHeight := 20, mTargetHeight := 20\<rparr>)
       [] [(ex_passed ''x'')\<lparr>mVisible := False\<rparr>]"


text \<open>An open folder drawn 100 high that is arranged already and whose height is on its way
  down to 20; its leaf passed generation 0, is visible and lies at the bottom.\<close>

definition ex_shrinking_folder :: folder where
  "ex_shrinking_folder =
     Folder ((ex_passed ''f'')\<lparr>mRect := \<lparr>mLeft = 0, mTop = 100, mRight = 0, mBottom = 0\<rparr>\<rparr>)
       (new_folder_state\<lparr>mIsOpen := True, mLastArrangeGeneration := 0,
          mCurHeight := 100, mTargetHeight := 20\<rparr>)
       [] [(ex_passed ''x'')\<lparr>mRect := \<lparr>mLeft = 0, mTop = 20, mRight = 0, mBottom = 0\<rparr>\<rparr>]"

section \<open>The tree as a store\<close>

text \<open>
  The methods below follow \<open>mParentFolder\<close> upwards and compare node pointers.  For them the
  root folder is the store and a \<open>ref\<close> the address of a node in it: \<open>get_folder\<close> and
  \<open>get_item\<close> dereference an address (\<open>None\<close> for an address of no node), \<open>upd_folder\<close> and
  \<open>upd_item\<close> write through it, and \<open>getParentFolder\<close> is the address of the owning folder
  (\<open>None\<close>, the null pointer, for the root).
\<close>

fun get_folder :: "folder \<Rightarrow> nat list \<Rightarrow> folder option" where
  "get_folder F [] = Some F"
| "get_folder F (k # p) =
     (if k < length (mFolders F) then get_folder (mFolders F ! k) p else None)"

definition get_item :: "folder \<Rightarrow> nat list \<Rightarrow> nat \<Rightarrow> item_state option" where
  "get_item t p j =
     (case get_folder t p of
        None \<Rightarrow> None
      | Some F \<Rightarrow> if j < length (mItems F) then Some (mItems F ! j) else None)"

fun upd_folder :: "(folder \<Rightarrow> folder) \<Rightarrow> nat list \<Rightarrow> folder \<Rightarrow> folder" where
  "upd_folder f [] F = f F"
| "upd_folder f (k # p) (Folder s fs subs its) =
     (if k < length subs then Folder s fs (subs[k := upd_folder f p (subs ! k)]) its
      else Folder s fs subs its)"

definition map_self :: "(item_state \<Rightarrow> item_state) \<Rightarrow> folder \<Rightarrow> folder" where
  "map_self f F = (case F of Folder s fs subs its \<Rightarrow> Folder (f s) fs subs its)"

definition map_fstate :: "(folder_state \<Rightarrow> folder_state) \<Rightarrow> folder \<Rightarrow> folder" where
  "map_fstate f F = (case F of Folder s fs subs its \<Rightarrow> Folder s (f fs) subs its)"

definition map_item :: "(item_state \<Rightarrow> item_state) \<Rightarrow> nat \<Rightarrow> folder \<Rightarrow> folder" where
  "map_item f j F =
     (case F of Folder s fs subs its \<Rightarrow>
        if j < length its then Folder s fs subs (its[j := f (its ! j)]) else F)"

text \<open>The \<open>LLFolderViewItem\<close> part of a node of either kind, and an update of it.\<close>

definition get_node :: "folder \<Rightarrow> ref \<Rightarrow> item_state option" where
  "get_node t r =
     (case r of
        FolderRef p \<Rightarrow> map_option self (get_folder t p)
      | ItemRef p j \<Rightarrow> get_item t p j)"

definition upd_node :: "(item_state \<Rightarrow> item_state) \<Rightarrow> ref \<Rightarrow> folder \<Rightarrow> folder" where
  "upd_node f r t =
     (case r of
        FolderRef p \<Rightarrow> upd_folder (map_self f) p t
      | ItemRef p j \<Rightarrow> upd_folder (map_item f j) p t)"

definition getParentFolder :: "ref \<Rightarrow> nat list option" where
  "getParentFolder r =
     (case r of
        FolderRef p \<Rightarrow> if p = [] then None else Some (butlast p)
      | ItemRef p j \<Rightarrow> Some p)"

text \<open>\<open>getVisible()\<close>, \<open>isSelected()\<close> and \<open>isOpen()\<close> of the node at an address.  A leaf item
  is never open (\<open>LLFolderViewItem::isOpen\<close> of the header returns \<open>FALSE\<close>).\<close>

definition getVisible :: "folder \<Rightarrow> ref \<Rightarrow> bool" where
  "getVisible t r = (case get_node t r of Some i \<Rightarrow> mVisible i | None \<Rightarrow> False)"

definition isSelected :: "folder \<Rightarrow> ref \<Rightarrow> bool" where
  "isSelected t r = (case get_node t r of Some i \<Rightarrow> mIsSelected i | None \<Rightarrow> False)"

definition isOpen :: "folder \<Rightarrow> ref \<Rightarrow> bool" where
  "isOpen t r =
     (case r of
        FolderRef p \<Rightarrow> (case get_folder t p of Some F \<Rightarrow> mIsOpen (fstate F) | None \<Rightarrow> False)
      | ItemRef p j \<Rightarrow> False)"

text \<open>The position of a node among the children of the folder at \<open>p\<close>: what the loops
  \<open>for (; fit != fend; ++fit) if (item == (*fit))\<close> find.\<close>

definition folder_index :: "nat list \<Rightarrow> nat \<Rightarrow> ref \<Rightarrow> nat option" where
  "folder_index p n r =
     (case r of
        FolderRef q \<Rightarrow> if q \<noteq> [] \<and> butlast q = p \<and> last q < n then Some (last q) else None
      | ItemRef q j \<Rightarrow> None)"

definition item_index :: "nat list \<Rightarrow> nat \<Rightarrow> ref \<Rightarrow> nat option" where
  "item_index p n r =
     (case r of
        FolderRef q \<Rightarrow> None
      | ItemRef q j \<Rightarrow> if q = p \<and> j < n then Some j else None)"

section \<open>Navigation (\<open>getNextFromChild\<close>, \<open>getPreviousFromChild\<close>, \<open>getNextOpenNode\<close>,
  \<open>getPreviousOpenNode\<close>)\<close>

text \<open>Where the scan of the siblings starts: in the child folder (downwards traversal), at
  a pair of indices into \<open>mFolders\<close> and \<open>mItems\<close>, or nowhere when the node is not a child
  (\<open>llassert(FALSE); return NULL\<close>).\<close>

datatype start = Descend nat | Scan nat nat | NotAChild

text \<open>Lines 2284-2332 of \<open>getNextFromChild\<close>.  When the node is found among the folders the
  item iterator still stands at the beginning; when it is found among the items the folder
  iterator has reached the end.\<close>

definition next_start :: "nat list \<Rightarrow> folder \<Rightarrow> ref option \<Rightarrow> bool \<Rightarrow> start" where
  "next_start p F item include_children =
     (case item of
        None \<Rightarrow> Scan 0 0
      | Some r \<Rightarrow>
          (case folder_index p (length (mFolders F)) r of
             Some k \<Rightarrow>
               if include_children \<and> mIsOpen (fstate (mFolders F ! k)) then Descend k
               else Scan (Suc k) 0
           | None \<Rightarrow>
               (case item_index p (length (mItems F)) r of
                  Some j \<Rightarrow> Scan (length (mFolders F)) (Suc j)
                | None \<Rightarrow> NotAChild)))"

text \<open>The first visible sub-folder at or after an index, and the first visible item.\<close>

definition next_visible_folder :: "folder \<Rightarrow> nat \<Rightarrow> nat option" where
  "next_visible_folder F fi = find (\<lambda>k. mVisible (self (mFolders F ! k))) [fi..<length (mFolders F)]"

definition next_visible_item :: "folder \<Rightarrow> nat \<Rightarrow> nat option" where
  "next_visible_item F ii = find (\<lambda>j. mVisible (mItems F ! j)) [ii..<length (mItems F)]"

text \<open>\<open>LLFolderViewFolder::getNextFromChild\<close> of the folder at \<open>p\<close>.  \<open>None\<close> is \<open>NULL\<close>.\<close>

function getNextFromChild :: "folder \<Rightarrow> nat list \<Rightarrow> ref option \<Rightarrow> bool \<Rightarrow> ref option" where
  "getNextFromChild t p item include_children =
     (case get_folder t p of
        None \<Rightarrow> None
      | Some F \<Rightarrow>
          (case next_start p F item include_children of
             NotAChild \<Rightarrow> None
           | Descend k \<Rightarrow> getNextFromChild t (p @ [k]) None True
           | Scan fi ii \<Rightarrow>
               (case next_visible_folder F fi of
                  Some k \<Rightarrow> Some (FolderRef (p @ [k]))
                | None \<Rightarrow>
                    (case next_visible_item F ii of
                       Some j \<Rightarrow> Some (ItemRef p j)
                     | None \<Rightarrow>
                         if p \<noteq> [] then getNextFromChild t (butlast p) (Some (FolderRef p)) False
                         else None))))"
  by pat_completeness auto
termination
proof (relation "measures [\<lambda>(t, p, item, inc). if item \<noteq> None \<and> inc then 1 else 0,
                           \<lambda>(t, p, item, inc). length p]")
  show "wf (measures [\<lambda>(t, p, item, inc). if item \<noteq> None \<and> inc then 1 else 0,
                           \<lambda>(t, p, item, inc). length p])"
    by simp
next
  fix t :: folder and p item include_children F k
  assume "next_start p F item include_children = Descend k"
  then have "item \<noteq> None \<and> include_children"
    by (auto simp: next_start_def split: option.splits if_splits)
  then show "((t, p @ [k], None, True), t, p, item, include_children)
       \<in> measures [\<lambda>(t, p, item, inc). if item \<noteq> None \<and> inc then 1 else 0,
                           \<lambda>(t, p, item, inc). length p]"
    by simp
next
  fix t :: folder and p :: "nat list" and item :: "ref option" and include_children :: bool
  assume "p \<noteq> []"
  then show "((t, butlast p, Some (FolderRef p), False), t, p, item, include_children)
       \<in> measures [\<lambda>(t, p, item, inc). if item \<noteq> None \<and> inc then 1 else 0,
                           \<lambda>(t, p, item, inc). length p]"
    by simp
qed

declare getNextFromChild.simps [simp del]

text \<open>Lines 2390-2431 of \<open>getPreviousFromChild\<close>, searching the items first.  The indices are
  the exclusive upper ends of what the reverse iterators still have before them.\<close>

definition prev_start :: "nat list \<Rightarrow> folder \<Rightarrow> ref option \<Rightarrow> start" where
  "prev_start p F item =
     (case item of
        None \<Rightarrow> Scan (length (mFolders F)) (length (mItems F))
      | Some r \<Rightarrow>
          (case item_index p (length (mItems F)) r of
             Some j \<Rightarrow> Scan (length (mFolders F)) j
           | None \<Rightarrow>
               (case folder_index p (length (mFolders F)) r of
                  Some k \<Rightarrow> Scan k 0
                | None \<Rightarrow> NotAChild)))"

definition prev_visible_folder :: "folder \<Rightarrow> nat \<Rightarrow> nat option" where
  "prev_visible_folder F fi = find (\<lambda>k. mVisible (self (mFolders F ! k))) (rev [0..<fi])"

definition prev_visible_item :: "folder \<Rightarrow> nat \<Rightarrow> nat option" where
  "prev_visible_item F ii = find (\<lambda>j. mVisible (mItems F ! j)) (rev [0..<ii])"

lemma get_folder_snoc:
  "get_folder t p = Some F \<Longrightarrow> k < length (mFolders F) \<Longrightarrow>
     get_folder t (p @ [k]) = Some (mFolders F ! k)"
  by (induction p arbitrary: t) (auto split: if_splits)

lemma size_child_less: "k < length (mFolders F) \<Longrightarrow> size (mFolders F ! k) < size F"
proof (cases F)
  case (Folder s fs subs its)
  assume "k < length (mFolders F)"
  with Folder have "subs ! k \<in> set subs" by simp
  then have "size (subs ! k) \<le> size_list size subs"
    by (simp add: size_list_estimation')
  with Folder show ?thesis by simp
qed

lemma prev_visible_folder_less: "prev_visible_folder F fi = Some k \<Longrightarrow> k < fi"
proof -
  assume "prev_visible_folder F fi = Some k"
  then have "k \<in> set (rev [0..<fi])"
    unfolding prev_visible_folder_def find_Some_iff by (metis nth_mem)
  then show ?thesis by simp
qed

lemma prev_start_bounds:
  "prev_start p F item = Scan fi ii \<Longrightarrow> fi \<le> length (mFolders F) \<and> ii \<le> length (mItems F)"
  by (auto simp: prev_start_def folder_index_def item_index_def
      split: option.splits ref.splits if_splits)

text \<open>\<open>LLFolderViewFolder::getPreviousFromChild\<close> of the folder at \<open>p\<close>; its second argument
  is not read.\<close>

function getPreviousFromChild :: "folder \<Rightarrow> nat list \<Rightarrow> ref option \<Rightarrow> bool \<Rightarrow> ref option" where
  "getPreviousFromChild t p item include_children =
     (case get_folder t p of
        None \<Rightarrow> None
      | Some F \<Rightarrow>
          (case prev_start p F item of
             NotAChild \<Rightarrow> None
           | Descend k \<Rightarrow> None
           | Scan fi ii \<Rightarrow>
               (case prev_visible_item F ii of
                  Some j \<Rightarrow> Some (ItemRef p j)
                | None \<Rightarrow>
                    (case prev_visible_folder F fi of
                       Some k \<Rightarrow>
                         if mIsOpen (fstate (mFolders F ! k))
                         then getPreviousFromChild t (p @ [k]) None True
                         else Some (FolderRef (p @ [k]))
                     | None \<Rightarrow> Some (FolderRef p)))))"
  by pat_completeness auto
termination
proof (relation "measure (\<lambda>(t, p, item, inc). case get_folder t p of Some F \<Rightarrow> size F | None \<Rightarrow> 0)")
  show "wf (measure (\<lambda>(t, p, item, inc). case get_folder t p of Some F \<Rightarrow> size F | None \<Rightarrow> 0))"
    by simp
next
  fix t :: folder and p item F fi ii k
  assume F: "get_folder t p = Some F" and st: "prev_start p F item = Scan fi ii"
    and k: "prev_visible_folder F fi = Some k"
  from prev_visible_folder_less [OF k] prev_start_bounds [OF st]
  have kl: "k < length (mFolders F)" by simp
  from get_folder_snoc [OF F kl] size_child_less [OF kl] F
  show "((t, p @ [k], None, True), t, p, item, include_children)
       \<in> measure (\<lambda>(t, p, item, inc). case get_folder t p of Some F \<Rightarrow> size F | None \<Rightarrow> 0)"
    for include_children :: bool
    by simp
qed

declare getPreviousFromChild.simps [simp del]


text \<open>What the scans find.\<close>


lemma find_upt_Some:
  "find P [i..<n] = Some k \<longleftrightarrow> i \<le> k \<and> k < n \<and> P k \<and> (\<forall>k'. i \<le> k' \<and> k' < k \<longrightarrow> \<not> P k')"
proof
  assume "find P [i..<n] = Some k"
  then obtain m where m: "m < length [i..<n]" "P ([i..<n] ! m)" "k = [i..<n] ! m"
    "\<forall>j<m. \<not> P ([i..<n] ! j)"
    unfolding find_Some_iff by blast
  then have k: "k = i + m" "m < n - i" by simp_all
  have "\<not> P k'" if "i \<le> k'" "k' < k" for k'
  proof -
    from that k have "k' - i < m" by simp
    with m(4) have "\<not> P ([i..<n] ! (k' - i))" by blast
    moreover have "[i..<n] ! (k' - i) = k'" using that k by simp
    ultimately show ?thesis by simp
  qed
  with m k show "i \<le> k \<and> k < n \<and> P k \<and> (\<forall>k'. i \<le> k' \<and> k' < k \<longrightarrow> \<not> P k')"
    by auto
next
  assume a: "i \<le> k \<and> k < n \<and> P k \<and> (\<forall>k'. i \<le> k' \<and> k' < k \<longrightarrow> \<not> P k')"
  then have "k - i < length [i..<n]" "[i..<n] ! (k - i) = k" by auto
  moreover have "\<forall>j<k - i. \<not> P ([i..<n] ! j)" using a by auto
  ultimately show "find P [i..<n] = Some k"
    unfolding find_Some_iff using a by (metis)
qed

lemma find_upt_None: "find P [i..<n] = None \<longleftrightarrow> (\<forall>k. i \<le> k \<and> k < n \<longrightarrow> \<not> P k)"
  by (auto simp: find_None_iff)

lemma find_rev_upt_Some:
  "find P (rev [0..<n]) = Some k \<longleftrightarrow> k < n \<and> P k \<and> (\<forall>k'. k < k' \<and> k' < n \<longrightarrow> \<not> P k')"
proof
  assume "find P (rev [0..<n]) = Some k"
  then obtain m where m: "m < length (rev [0..<n])" "P (rev [0..<n] ! m)" "k = rev [0..<n] ! m"
    "\<forall>j<m. \<not> P (rev [0..<n] ! j)"
    unfolding find_Some_iff by blast
  then have k: "m < n" "k = n - Suc m" by (simp_all add: rev_nth)
  have "\<not> P k'" if "k < k'" "k' < n" for k'
  proof -
    from that k have "n - Suc k' < m" by simp
    with m(4) have "\<not> P (rev [0..<n] ! (n - Suc k'))" by blast
    moreover have "rev [0..<n] ! (n - Suc k') = k'" using that by (simp add: rev_nth)
    ultimately show ?thesis by simp
  qed
  with m k show "k < n \<and> P k \<and> (\<forall>k'. k < k' \<and> k' < n \<longrightarrow> \<not> P k')" by auto
next
  assume a: "k < n \<and> P k \<and> (\<forall>k'. k < k' \<and> k' < n \<longrightarrow> \<not> P k')"
  then have 1: "n - Suc k < length (rev [0..<n])" "rev [0..<n] ! (n - Suc k) = k"
    by (auto simp: rev_nth)
  have "\<forall>j<n - Suc k. \<not> P (rev [0..<n] ! j)" using a by (auto simp: rev_nth)
  with 1 a show "find P (rev [0..<n]) = Some k"
    unfolding find_Some_iff by metis
qed

lemma find_rev_upt_None: "find P (rev [0..<n]) = None \<longleftrightarrow> (\<forall>k. k < n \<longrightarrow> \<not> P k)"
  by (auto simp: find_None_iff)

lemmas visible_scan_defs = next_visible_folder_def next_visible_item_def
  prev_visible_folder_def prev_visible_item_def

lemma get_node_child_folder:
  "get_folder t p = Some F \<Longrightarrow> k < length (mFolders F) \<Longrightarrow>
     get_node t (FolderRef (p @ [k])) = Some (self (mFolders F ! k))"
  by (simp add: get_node_def get_folder_snoc)

lemma get_node_child_item:
  "get_folder t p = Some F \<Longrightarrow> j < length (mItems F) \<Longrightarrow>
     get_node t (ItemRef p j) = Some (mItems F ! j)"
  by (simp add: get_node_def get_item_def)

lemma getNextFromChild_visible:
  "getNextFromChild t p item inc = Some r \<Longrightarrow> getVisible t r"
proof (induction t p item inc rule: getNextFromChild.induct)
  case (1 t p item inc)
  note eq = "1.prems" [unfolded getNextFromChild.simps [of t p item inc]]
  from eq obtain F where F: "get_folder t p = Some F"
    by (auto split: option.splits)
  show ?case
  proof (cases "next_start p F item inc")
    case NotAChild
    with eq F show ?thesis by simp
  next
    case (Descend k)
    with eq F "1.IH"(1) [OF F Descend] show ?thesis by simp
  next
    case (Scan fi ii)
    show ?thesis
    proof (cases "next_visible_folder F fi")
      case (Some k)
      with eq F Scan have r: "r = FolderRef (p @ [k])" by simp
      from Some have "k < length (mFolders F)" "mVisible (self (mFolders F ! k))"
        by (simp_all add: next_visible_folder_def find_upt_Some)
      with r F show ?thesis by (simp add: getVisible_def get_node_child_folder)
    next
      case nf: None
      show ?thesis
      proof (cases "next_visible_item F ii")
        case (Some j)
        with eq F Scan nf have r: "r = ItemRef p j" by simp
        from Some have "j < length (mItems F)" "mVisible (mItems F ! j)"
          by (simp_all add: next_visible_item_def find_upt_Some)
        with r F show ?thesis by (simp add: getVisible_def get_node_child_item)
      next
        case None
        with eq F Scan nf have "p \<noteq> []" by (auto split: if_splits)
        with eq F Scan nf None "1.IH"(2) [OF F Scan nf None] show ?thesis by simp
      qed
    qed
  qed
qed

lemma getPreviousFromChild_visible:
  "getPreviousFromChild t p item inc = Some r \<Longrightarrow> getVisible t r \<or> r = FolderRef p"
proof (induction t p item inc arbitrary: r rule: getPreviousFromChild.induct)
  case (1 t p item inc)
  note eq = "1.prems" [unfolded getPreviousFromChild.simps [of t p item inc]]
  from eq obtain F where F: "get_folder t p = Some F"
    by (auto split: option.splits)
  show ?case
  proof (cases "prev_start p F item")
    case NotAChild
    with eq F show ?thesis by simp
  next
    case (Descend k)
    with eq F show ?thesis by simp
  next
    case (Scan fi ii)
    note b = prev_start_bounds [OF Scan]
    show ?thesis
    proof (cases "prev_visible_item F ii")
      case (Some j)
      with eq F Scan have r: "r = ItemRef p j" by simp
      from Some b have "j < length (mItems F)" "mVisible (mItems F ! j)"
        by (simp_all add: prev_visible_item_def find_rev_upt_Some)
      with r F show ?thesis by (simp add: getVisible_def get_node_child_item)
    next
      case ni: None
      show ?thesis
      proof (cases "prev_visible_folder F fi")
        case (Some k)
        from Some b have k: "k < length (mFolders F)" "mVisible (self (mFolders F ! k))"
          by (simp_all add: prev_visible_folder_def find_rev_upt_Some)
        then have vk: "getVisible t (FolderRef (p @ [k]))"
          using F by (simp add: getVisible_def get_node_child_folder)
        show ?thesis
        proof (cases "mIsOpen (fstate (mFolders F ! k))")
          case True
          with eq F Scan ni Some
          have "getPreviousFromChild t (p @ [k]) None True = Some r" by simp
          from "1.IH" [OF F Scan ni Some True this] vk show ?thesis by auto
        next
          case False
          with eq F Scan ni Some vk show ?thesis by simp
        qed
      next
        case None
        with eq F Scan ni show ?thesis by simp
      qed
    qed
  qed
qed


text \<open>The caller of these walks gets a node, \<open>NULL\<close>, or the program dereferences the null
  parent of the root.\<close>

datatype outcome = NullDereference | Returns "ref option"

fun ref_depth :: "ref \<Rightarrow> nat" where
  "ref_depth (FolderRef q) = 2 * length q"
| "ref_depth (ItemRef q j) = 2 * length q + 1"

text \<open>The loop of \<open>LLFolderViewItem::getNextOpenNode\<close> (lines 156-167): \<open>itemp\<close> is the
  candidate, \<open>this\<close> the node the walk started from.\<close>

function next_loop :: "folder \<Rightarrow> ref \<Rightarrow> ref option \<Rightarrow> bool \<Rightarrow> outcome" where
  "next_loop t this itemp include_children =
     (case itemp of
        None \<Rightarrow> Returns None
      | Some i \<Rightarrow>
          if getVisible t i then Returns (Some i)
          else
            (case getParentFolder i of
               None \<Rightarrow> NullDereference
             | Some q \<Rightarrow>
                 (let next_itemp = getNextFromChild t q (Some i) include_children in
                  if next_itemp = Some i
                  then Returns (Some (if getVisible t i then i else this))
                  else next_loop t this next_itemp include_children)))"
  by pat_completeness auto
termination
proof (relation "measure (\<lambda>(t, this, itemp, inc).
          case itemp of Some i \<Rightarrow> if getVisible t i then 0 else 1 | None \<Rightarrow> 0)")
  show "wf (measure (\<lambda>(t, this, itemp, inc).
          case itemp of Some i \<Rightarrow> if getVisible t i then 0 else 1 | None \<Rightarrow> 0))"
    by simp
next
  fix t :: folder and this :: ref and itemp :: "ref option" and include_children :: bool
    and i q next_itemp
  assume "itemp = Some i" "\<not> getVisible t i"
    and n: "next_itemp = getNextFromChild t q (Some i) include_children"
  moreover have "(case next_itemp of Some i \<Rightarrow> if getVisible t i then 0 else 1 | None \<Rightarrow> 0) = (0::nat)"
  proof (cases next_itemp)
    case None
    then show ?thesis by simp
  next
    case (Some r)
    with n have "getNextFromChild t q (Some i) include_children = Some r" by simp
    then have "getVisible t r" by (rule getNextFromChild_visible)
    with Some show ?thesis by simp
  qed
  ultimately show "((t, this, next_itemp, include_children), t, this, itemp, include_children)
       \<in> measure (\<lambda>(t, this, itemp, inc).
          case itemp of Some i \<Rightarrow> if getVisible t i then 0 else 1 | None \<Rightarrow> 0)"
    by simp
qed

declare next_loop.simps [simp del]

text \<open>\<open>LLFolderViewItem::getNextOpenNode\<close>.\<close>

definition getNextOpenNode :: "folder \<Rightarrow> ref \<Rightarrow> bool \<Rightarrow> outcome" where
  "getNextOpenNode t this include_children =
     (case getParentFolder this of
        None \<Rightarrow> Returns None
      | Some p \<Rightarrow> next_loop t this (getNextFromChild t p (Some this) include_children) include_children)"

text \<open>The loop of \<open>LLFolderViewItem::getPreviousOpenNode\<close> (lines 180-191).\<close>

function prev_loop :: "folder \<Rightarrow> ref \<Rightarrow> ref option \<Rightarrow> bool \<Rightarrow> outcome" where
  "prev_loop t this itemp include_children =
     (case itemp of
        None \<Rightarrow> Returns None
      | Some i \<Rightarrow>
          if getVisible t i then Returns (Some i)
          else
            (case getParentFolder i of
               None \<Rightarrow> NullDereference
             | Some q \<Rightarrow>
                 (let next_itemp = getPreviousFromChild t q (Some i) include_children in
                  if next_itemp = Some i
                  then Returns (Some (if getVisible t i then i else this))
                  else prev_loop t this next_itemp include_children)))"
  by pat_completeness auto
termination
proof (relation "measure (\<lambda>(t, this, itemp, inc).
          case itemp of Some i \<Rightarrow> if getVisible t i then 0 else Suc (ref_depth i) | None \<Rightarrow> 0)")
  show "wf (measure (\<lambda>(t, this, itemp, inc).
          case itemp of Some i \<Rightarrow> if getVisible t i then 0 else Suc (ref_depth i) | None \<Rightarrow> 0))"
    by simp
next
  fix t :: folder and this :: ref and itemp :: "ref option" and include_children :: bool
    and i q next_itemp
  assume i: "itemp = Some i" "\<not> getVisible t i" and q: "getParentFolder i = Some q"
    and n: "next_itemp = getPreviousFromChild t q (Some i) include_children"
  have dq: "ref_depth (FolderRef q) < ref_depth i"
    using q by (cases i) (auto simp: getParentFolder_def split: if_splits)
  have "(case next_itemp of Some i \<Rightarrow> if getVisible t i then 0 else Suc (ref_depth i) | None \<Rightarrow> 0)
          < Suc (ref_depth i)"
  proof (cases next_itemp)
    case None
    then show ?thesis by simp
  next
    case (Some r)
    with getPreviousFromChild_visible [of t q "Some i" include_children r] n
    have "getVisible t r \<or> r = FolderRef q" by simp
    with Some dq show ?thesis by auto
  qed
  with i show "((t, this, next_itemp, include_children), t, this, itemp, include_children)
       \<in> measure (\<lambda>(t, this, itemp, inc).
          case itemp of Some i \<Rightarrow> if getVisible t i then 0 else Suc (ref_depth i) | None \<Rightarrow> 0)"
    by simp
qed

declare prev_loop.simps [simp del]

text \<open>\<open>LLFolderViewItem::getPreviousOpenNode\<close>.\<close>

definition getPreviousOpenNode :: "folder \<Rightarrow> ref \<Rightarrow> bool \<Rightarrow> outcome" where
  "getPreviousOpenNode t this include_children =
     (case getParentFolder this of
        None \<Rightarrow> Returns None
      | Some p \<Rightarrow> prev_loop t this (getPreviousFromChild t p (Some this) include_children) include_children)"

text \<open>
  The flattened ordering of section 4.4 of the specification: within a folder the visible
  sub-folders come first, each followed by its own contents when it is open, then the
  visible leaf items.  \<open>flat p F\<close> lists the contents of the folder \<open>F\<close> at address \<open>p\<close>;
  \<open>flat_folders p k cs\<close> those of the sub-folders \<open>cs\<close>, the first of which has index \<open>k\<close>.
\<close>

fun flat :: "nat list \<Rightarrow> folder \<Rightarrow> ref list"
and flat_folders :: "nat list \<Rightarrow> nat \<Rightarrow> folder list \<Rightarrow> ref list" where
  "flat p (Folder s fs subs its) =
     flat_folders p 0 subs @ map (ItemRef p) (filter (\<lambda>j. mVisible (its ! j)) [0..<length its])"
| "flat_folders p k [] = []"
| "flat_folders p k (c # cs) =
     (if mVisible (self c)
      then FolderRef (p @ [k]) # (if mIsOpen (fstate c) then flat (p @ [k]) c else [])
      else [])
     @ flat_folders p (Suc k) cs"

definition flattened :: "folder \<Rightarrow> ref list" where
  "flattened t = flat [] t"

text \<open>What the flattened ordering holds after a position in a folder: the sub-folders from
  index \<open>fi\<close> and the items from index \<open>ii\<close>, then what follows the folder itself.\<close>

definition tail_from :: "nat list \<Rightarrow> folder \<Rightarrow> nat \<Rightarrow> nat \<Rightarrow> ref list" where
  "tail_from p F fi ii =
     flat_folders p fi (drop fi (mFolders F))
     @ map (ItemRef p) (filter (\<lambda>j. mVisible (mItems F ! j)) [ii..<length (mItems F)])"

function following :: "folder \<Rightarrow> nat list \<Rightarrow> nat \<Rightarrow> nat \<Rightarrow> ref list" where
  "following t p fi ii =
     (case get_folder t p of
        None \<Rightarrow> []
      | Some F \<Rightarrow>
          tail_from p F fi ii
          @ (if p = [] then [] else following t (butlast p) (Suc (last p)) 0))"
  by pat_completeness auto
termination
  by (relation "measure (\<lambda>(t, p, fi, ii). length p)") auto

declare following.simps [simp del]

subsection \<open>The flattened ordering and the walks: notions for the statements\<close>

text \<open>The first element of a list, if any.\<close>

definition first_of :: "'a list \<Rightarrow> 'a option" where
  "first_of xs = (case xs of [] \<Rightarrow> None | x # _ \<Rightarrow> Some x)"

text \<open>Every folder on the way from the root to the folder at \<open>p\<close>, the root apart, is visible
  and open.\<close>

definition reachable :: "folder \<Rightarrow> nat list \<Rightarrow> bool" where
  "reachable t p \<longleftrightarrow>
     (\<forall>q. prefix q p \<and> q \<noteq> [] \<longrightarrow> getVisible t (FolderRef q) \<and> isOpen t (FolderRef q))"

text \<open>What the flattened ordering holds after the contents of the folder at \<open>p\<close>.\<close>

definition up_from :: "folder \<Rightarrow> nat list \<Rightarrow> ref list" where
  "up_from t p = (if p = [] then [] else following t (butlast p) (Suc (last p)) 0)"

text \<open>What the flattened ordering holds after a node: the contents of the node when it is an
  open folder, then the later siblings, then what follows the parent.\<close>

definition rest_after :: "folder \<Rightarrow> ref \<Rightarrow> ref list" where
  "rest_after t r =
     (case r of
        FolderRef q \<Rightarrow>
          (case get_folder t q of
             Some c \<Rightarrow> (if mIsOpen (fstate c) then flat q c else []) @ up_from t q
           | None \<Rightarrow> [])
      | ItemRef p j \<Rightarrow>
          (case get_folder t p of
             Some F \<Rightarrow> following t p (length (mFolders F)) (Suc j)
           | None \<Rightarrow> []))"

text \<open>The node is a child of the folder at \<open>q\<close>.\<close>

definition child_of :: "folder \<Rightarrow> ref \<Rightarrow> nat list \<Rightarrow> bool" where
  "child_of t r q \<longleftrightarrow>
     (case get_folder t q of
        None \<Rightarrow> False
      | Some F \<Rightarrow>
          (case r of
             FolderRef q' \<Rightarrow> \<exists>k < length (mFolders F). q' = q @ [k]
           | ItemRef q' j \<Rightarrow> q' = q \<and> j < length (mItems F)))"

text \<open>The node occurs in the flattened ordering, followed by \<open>rest_after\<close>.\<close>

definition listed :: "folder \<Rightarrow> ref \<Rightarrow> bool" where
  "listed t r \<longleftrightarrow>
     (\<exists>pre. flattened t = pre @ r # rest_after t r) \<and> getVisible t r \<and>
     (\<exists>q. child_of t r q \<and> reachable t q)"

text \<open>Where the backwards walk lands on a node: on the last descendant of an open folder
  (\<open>getPreviousFromChild(NULL)\<close> of that folder), on the node itself otherwise.\<close>

definition last_in :: "folder \<Rightarrow> ref \<Rightarrow> ref option" where
  "last_in t N =
     (case N of
        FolderRef q \<Rightarrow> if isOpen t N then getPreviousFromChild t q None True else Some N
      | ItemRef q j \<Rightarrow> Some N)"

text \<open>The folder address in a reference.\<close>

fun addr :: "ref \<Rightarrow> nat list" where
  "addr (FolderRef q) = q"
| "addr (ItemRef q j) = q"

text \<open>A tree for the examples: an open root with the open folder \<open>A\<close>, holding one item, and
  three items of its own, the second of them invisible.\<close>

definition ex_nav :: folder where
  "ex_nav =
     Folder (new_item ''root'' None 20) (new_folder_state\<lparr>mIsOpen := True\<rparr>)
       [Folder (new_item ''A'' None 20) (new_folder_state\<lparr>mIsOpen := True\<rparr>) []
          [new_item ''a0'' None 20]]
       [new_item ''x'' None 20, (new_item ''y'' None 20)\<lparr>mVisible := False\<rparr>,
        new_item ''z'' None 20]"

section \<open>Selection in the tree (llfolderviewitem.cpp)\<close>

text \<open>
  \<open>LLFolderViewFolder::recursiveIncrementNumDescendantsSelected\<close>: the \<open>do ... while\<close> loop
  adds the increment to the folder at \<open>p\<close> and then to each of its ancestors, following
  \<open>getParentFolder()\<close> up to the root.
\<close>

definition add_selected :: "int \<Rightarrow> folder_state \<Rightarrow> folder_state" where
  "add_selected inc fs = fs\<lparr>mNumDescendantsSelected := mNumDescendantsSelected fs + inc\<rparr>"

function recursiveIncrementNumDescendantsSelected :: "int \<Rightarrow> nat list \<Rightarrow> folder \<Rightarrow> folder" where
  "recursiveIncrementNumDescendantsSelected inc p t =
     (let t' = upd_folder (map_fstate (add_selected inc)) p t
      in if p = [] then t' else recursiveIncrementNumDescendantsSelected inc (butlast p) t')"
  by pat_completeness auto
termination
  by (relation "measure (\<lambda>(inc, p, t). length p)") auto

declare recursiveIncrementNumDescendantsSelected.simps [simp del]

text \<open>\<open>LLFolderViewItem::selectItem\<close> and \<open>deselectItem\<close>, inherited by the folders: the flag
  of the node, then the counts of its ancestors.  The callers test the flag before
  (\<open>llassert(!mIsSelected)\<close>, \<open>llassert(mIsSelected)\<close>).\<close>

definition selectItem :: "ref \<Rightarrow> folder \<Rightarrow> folder" where
  "selectItem r t =
     (let t' = upd_node (\<lambda>i. i\<lparr>mIsSelected := True\<rparr>) r t
      in case getParentFolder r of
           None \<Rightarrow> t'
         | Some p \<Rightarrow> recursiveIncrementNumDescendantsSelected 1 p t')"

definition deselectItem :: "ref \<Rightarrow> folder \<Rightarrow> folder" where
  "deselectItem r t =
     (let t' = upd_node (\<lambda>i. i\<lparr>mIsSelected := False\<rparr>) r t
      in case getParentFolder r of
           None \<Rightarrow> t'
         | Some p \<Rightarrow> recursiveIncrementNumDescendantsSelected (- 1) p t')"

text \<open>Modelled from the spec: \<open>numSelected()\<close> is an inline of llfolderviewitem.h, which is not
  among the sources.  It is the number of selected nodes of the subtree, the folder itself
  included: the maintained count of the descendants plus one if the folder is selected.\<close>

definition numSelected :: "folder \<Rightarrow> int" where
  "numSelected F = mNumDescendantsSelected (fstate F) + (if mIsSelected (self F) then 1 else 0)"

text \<open>
  The recursive methods below visit every node of a subtree and, on the way, write to the
  ancestors of the nodes they visit.  The subtree keeps its shape while they run, so they
  recurse over the shape, taken when the method is entered, and read and write the nodes
  in the store.
\<close>

datatype shape = Shape (sub_shapes: "shape list") (n_items: nat)

fun shape_of :: "folder \<Rightarrow> shape" where
  "shape_of (Folder s fs subs its) = Shape (map shape_of subs) (length its)"

text \<open>\<open>LLFolderViewFolder::requestArrange()\<close>: the folder and every ancestor is flagged.\<close>

function requestArrange :: "nat list \<Rightarrow> folder \<Rightarrow> folder" where
  "requestArrange p t =
     (let t' = upd_folder (map_fstate requestArrange_here) p t
      in if p = [] then t' else requestArrange (butlast p) t')"
  by pat_completeness auto
termination
  by (relation "measure (\<lambda>(p, t). length p)") auto

declare requestArrange.simps [simp del]

text \<open>\<open>requestArrange(TRUE)\<close> also flags every folder below; the calls that each of them
  makes up the chain write the same value again.\<close>

fun requestArrange_descendants :: "folder \<Rightarrow> folder" where
  "requestArrange_descendants (Folder s fs subs its) =
     Folder s (requestArrange_here fs) (map requestArrange_descendants subs) its"

definition requestArrange_include_descendants :: "nat list \<Rightarrow> folder \<Rightarrow> folder" where
  "requestArrange_include_descendants p t =
     upd_folder requestArrange_descendants p (requestArrange p t)"

text \<open>\<open>LLFolderViewFolder::setCompletedFilterGeneration(generation, TRUE)\<close>: the value goes up
  while it is lower than the parent's.\<close>

definition getCompletedFilterGeneration :: "folder \<Rightarrow> nat list \<Rightarrow> int" where
  "getCompletedFilterGeneration t p =
     (case get_folder t p of Some F \<Rightarrow> mCompletedFilterGeneration (fstate F) | None \<Rightarrow> 0)"

function setCompletedFilterGeneration_up :: "int \<Rightarrow> nat list \<Rightarrow> folder \<Rightarrow> folder" where
  "setCompletedFilterGeneration_up g p t =
     (let t' = upd_folder (map_fstate (setCompletedFilterGeneration g)) p t
      in if p \<noteq> [] \<and> g < getCompletedFilterGeneration t' (butlast p)
         then setCompletedFilterGeneration_up g (butlast p) t'
         else t')"
  by pat_completeness auto
termination
  by (relation "measure (\<lambda>(g, p, t). length p)") auto

declare setCompletedFilterGeneration_up.simps [simp del]

text \<open>\<open>LLFolderViewItem::dirtyFilter\<close> and the override \<open>LLFolderViewFolder::dirtyFilter\<close>.\<close>

definition dirtyFilter :: "ref \<Rightarrow> folder \<Rightarrow> folder" where
  "dirtyFilter r t =
     (let t' = upd_node (\<lambda>i. i\<lparr>mLastFilterGeneration := - 1\<rparr>) r t
      in case getParentFolder r of
           None \<Rightarrow> t'
         | Some p \<Rightarrow> setCompletedFilterGeneration_up (- 1) p t')"

definition folder_dirtyFilter :: "nat list \<Rightarrow> folder \<Rightarrow> folder" where
  "folder_dirtyFilter p t =
     dirtyFilter (FolderRef p) (upd_folder (map_fstate (setCompletedFilterGeneration (- 1))) p t)"

text \<open>\<open>setOpenArrangeRecursively(openitem)\<close> with the default \<open>RECURSE_NO\<close>.  The override of
  \<open>LLFolderView\<close> runs the same code and then keeps the root open.  The notification of the
  listener is left out.\<close>

definition setOpenArrangeRecursively :: "bool \<Rightarrow> nat list \<Rightarrow> folder \<Rightarrow> folder" where
  "setOpenArrangeRecursively openitem p t =
     (let was_open = isOpen t (FolderRef p);
          t1 = upd_folder (map_fstate (\<lambda>fs. fs\<lparr>mIsOpen := openitem\<rparr>)) p t;
          t2 = (if was_open \<noteq> openitem then requestArrange p t1 else t1)
      in if p = [] then upd_folder (map_fstate (\<lambda>fs. fs\<lparr>mIsOpen := True\<rparr>)) p t2 else t2)"

text \<open>\<open>LLFolderViewItem::setSelection\<close> on the leaf item at \<open>r\<close>; the result carries the value
  returned, \<open>mIsSelected\<close>.  An item that is the selection and is selected already takes the
  second branch.  The notifications of the listener are left out here and below.\<close>

definition item_setSelection :: "ref option \<Rightarrow> ref \<Rightarrow> folder \<Rightarrow> folder \<times> bool" where
  "item_setSelection selection r t =
     (let t' = (if selection = Some r \<and> \<not> isSelected t r then selectItem r t
                else if isSelected t r then deselectItem r t
                else t)
      in (t', isSelected t' r))"

text \<open>\<open>LLFolderViewItem::changeSelection\<close> on the leaf item at \<open>r\<close>.\<close>

definition item_changeSelection :: "ref \<Rightarrow> bool \<Rightarrow> ref \<Rightarrow> folder \<Rightarrow> folder \<times> bool" where
  "item_changeSelection selection selected r t =
     (if selection = r \<and> isSelected t r \<noteq> selected
      then (if isSelected t r then deselectItem r t else selectItem r t, True)
      else (t, False))"

text \<open>\<open>LLFolderViewFolder::setSelection\<close> on the folder at \<open>p\<close>: the folder itself, the
  sub-folders, the items, and the opening of the folder when a child took the selection.
  The second component is \<open>rv\<close>; the loops over the sub-folders and over the items carry
  \<open>child_selected\<close>.\<close>

definition items_setSelection ::
  "ref option \<Rightarrow> nat list \<Rightarrow> nat \<Rightarrow> folder \<times> bool \<Rightarrow> folder \<times> bool" where
  "items_setSelection selection p n st =
     fold (\<lambda>j (t, cs). let (t', r) = item_setSelection selection (ItemRef p j) t
                        in (t', cs \<or> r)) [0..<n] st"

fun folder_setSelection ::
  "ref option \<Rightarrow> bool \<Rightarrow> nat list \<Rightarrow> shape \<Rightarrow> folder \<Rightarrow> folder \<times> bool"
and folders_setSelection ::
  "ref option \<Rightarrow> bool \<Rightarrow> nat list \<Rightarrow> nat \<Rightarrow> shape list \<Rightarrow> folder \<times> bool \<Rightarrow> folder \<times> bool"
where
  "folder_setSelection selection openitem p (Shape subs n) t =
     (let this = FolderRef p;
          t1 = (if selection = Some this
                then (if \<not> isSelected t this then selectItem this t else t)
                else (if isSelected t this then deselectItem this t else t));
          st2 = folders_setSelection selection openitem p 0 subs (t1, False);
          (t3, child_selected) = items_setSelection selection p n st2;
          t4 = (if openitem \<and> child_selected then setOpenArrangeRecursively True p t3 else t3)
      in (t4, selection = Some this \<or> child_selected))"
| "folders_setSelection selection openitem p k [] st = st"
| "folders_setSelection selection openitem p k (c # cs) st =
     (let (t', r) = folder_setSelection selection openitem (p @ [k]) c (fst st)
      in folders_setSelection selection openitem p (Suc k) cs (t', snd st \<or> r))"

text \<open>\<open>LLFolderViewFolder::changeSelection\<close>.\<close>

definition items_changeSelection ::
  "ref \<Rightarrow> bool \<Rightarrow> nat list \<Rightarrow> nat \<Rightarrow> folder \<times> bool \<Rightarrow> folder \<times> bool" where
  "items_changeSelection selection selected p n st =
     fold (\<lambda>j (t, rv). let (t', r) = item_changeSelection selection selected (ItemRef p j) t
                        in (t', rv \<or> r)) [0..<n] st"

fun folder_changeSelection :: "ref \<Rightarrow> bool \<Rightarrow> nat list \<Rightarrow> shape \<Rightarrow> folder \<Rightarrow> folder \<times> bool"
and folders_changeSelection ::
  "ref \<Rightarrow> bool \<Rightarrow> nat list \<Rightarrow> nat \<Rightarrow> shape list \<Rightarrow> folder \<times> bool \<Rightarrow> folder \<times> bool"
where
  "folder_changeSelection selection selected p (Shape subs n) t =
     (let this = FolderRef p;
          st1 = (if selection = this \<and> isSelected t this \<noteq> selected
                 then (if selected then selectItem this t else deselectItem this t, True)
                 else (t, False));
          st2 = folders_changeSelection selection selected p 0 subs st1
      in items_changeSelection selection selected p n st2)"
| "folders_changeSelection selection selected p k [] st = st"
| "folders_changeSelection selection selected p k (c # cs) st =
     (let (t', r) = folder_changeSelection selection selected (p @ [k]) c (fst st)
      in folders_changeSelection selection selected p (Suc k) cs (t', snd st \<or> r))"

text \<open>\<open>LLFolderViewFolder::recursiveDeselect\<close>: the folder itself if asked, then, unless its
  count of selected descendants is zero, its items and its sub-folders.\<close>

definition getNumDescendantsSelected :: "folder \<Rightarrow> nat list \<Rightarrow> int" where
  "getNumDescendantsSelected t p =
     (case get_folder t p of Some F \<Rightarrow> mNumDescendantsSelected (fstate F) | None \<Rightarrow> 0)"

definition items_deselect :: "nat list \<Rightarrow> nat \<Rightarrow> folder \<Rightarrow> folder" where
  "items_deselect p n t =
     fold (\<lambda>j t. if isSelected t (ItemRef p j) then deselectItem (ItemRef p j) t else t)
       [0..<n] t"

fun recursiveDeselect :: "bool \<Rightarrow> nat list \<Rightarrow> shape \<Rightarrow> folder \<Rightarrow> folder"
and recursiveDeselect_folders :: "nat list \<Rightarrow> nat \<Rightarrow> shape list \<Rightarrow> folder \<Rightarrow> folder"
where
  "recursiveDeselect deselect_self p (Shape subs n) t =
     (let this = FolderRef p;
          t1 = (if isSelected t this \<and> deselect_self then deselectItem this t else t)
      in if getNumDescendantsSelected t1 p = 0 then t1
         else
           recursiveDeselect_folders p 0 subs (items_deselect p n t1))"
| "recursiveDeselect_folders p k [] t = t"
| "recursiveDeselect_folders p k (c # cs) t =
     recursiveDeselect_folders p (Suc k) cs (recursiveDeselect True (p @ [k]) c t)"

text \<open>
  \<open>LLFolderViewFolder::extractItem\<close> on the folder at \<open>p\<close>: the child is looked for among
  the items, then among the folders; the counts lose what it held, the child leaves its
  list, and the folder is marked for filtering and arrangement.  Line 1745 then reads the id
  of \<open>item\<close> through its listener, \<open>item->getListener()->getUUID()\<close>, which is a read through
  a null pointer when the node has no listener, and hands the id to \<open>removeItemID\<close> of the
  root.  The id map of the root and the child list of \<open>LLView\<close> are not part of the tree: the
  result is the tree together with the id that \<open>removeItemID\<close> is given.
\<close>

definition erase_item :: "nat \<Rightarrow> folder \<Rightarrow> folder" where
  "erase_item j F =
     (case F of Folder s fs subs its \<Rightarrow> Folder s fs subs (take j its @ drop (Suc j) its))"

definition erase_folder :: "nat \<Rightarrow> folder \<Rightarrow> folder" where
  "erase_folder k F =
     (case F of Folder s fs subs its \<Rightarrow> Folder s fs (take k subs @ drop (Suc k) subs) its)"

definition extractItem :: "nat list \<Rightarrow> ref \<Rightarrow> folder \<Rightarrow> fault + folder \<times> uuid" where
  "extractItem p item t =
     (case get_folder t p of
        None \<Rightarrow> Inl NullPointerRead
      | Some F \<Rightarrow>
          (let t1 =
             (case item_index p (length (mItems F)) item of
                Some j \<Rightarrow>
                  upd_folder (erase_item j) p
                    (if mIsSelected (mItems F ! j)
                     then recursiveIncrementNumDescendantsSelected (- 1) p t else t)
              | None \<Rightarrow>
                  (case folder_index p (length (mFolders F)) item of
                     Some k \<Rightarrow>
                       upd_folder (erase_folder k) p
                         (if numSelected (mFolders F ! k) \<noteq> 0
                          then recursiveIncrementNumDescendantsSelected
                                 (- numSelected (mFolders F ! k)) p t
                          else t)
                   | None \<Rightarrow> t));
               t2 = requestArrange p (folder_dirtyFilter p t1)
           in case get_node t item of
                None \<Rightarrow> Inl NullPointerRead
              | Some i \<Rightarrow>
                  (case mListener i of
                     None \<Rightarrow> Inl NullPointerRead
                   | Some l \<Rightarrow> Inr (t2, getUUID l))))"

text \<open>
  \<open>LLFolderViewFolder::addItem\<close> and \<open>addFolder\<close> on the folder at \<open>p\<close>.  The position is the
  one \<open>std::lower_bound\<close> finds with the sort function of the folder, which is not in these
  files: it is the parameter \<open>pos\<close>.  The rectangle of the new child and the child list of
  \<open>LLView\<close> are left out.
\<close>

definition insert_item :: "nat \<Rightarrow> item_state \<Rightarrow> folder \<Rightarrow> folder" where
  "insert_item j i F =
     (case F of Folder s fs subs its \<Rightarrow> Folder s fs subs (take j its @ i # drop j its))"

definition insert_folder :: "nat \<Rightarrow> folder \<Rightarrow> folder \<Rightarrow> folder" where
  "insert_folder k c F =
     (case F of Folder s fs subs its \<Rightarrow> Folder s fs (take k subs @ c # drop k subs) its)"

definition addItem :: "nat list \<Rightarrow> nat \<Rightarrow> item_state \<Rightarrow> folder \<Rightarrow> folder" where
  "addItem p pos item t =
     (case get_folder t p of
        None \<Rightarrow> t
      | Some F \<Rightarrow>
          (let j = min pos (length (mItems F));
               t1 = upd_folder (insert_item j item) p t;
               t2 = (if mIsSelected item then recursiveIncrementNumDescendantsSelected 1 p t1
                     else t1);
               t3 = upd_node (setVisible False) (ItemRef p j) t2;
               t4 = dirtyFilter (ItemRef p j) t3
           in requestArrange p t4))"

definition addFolder :: "nat list \<Rightarrow> nat \<Rightarrow> folder \<Rightarrow> folder \<Rightarrow> folder" where
  "addFolder p pos c t =
     (case get_folder t p of
        None \<Rightarrow> t
      | Some F \<Rightarrow>
          (let k = min pos (length (mFolders F));
               t1 = upd_folder (insert_folder k c) p t;
               t2 = (if numSelected c \<noteq> 0
                     then recursiveIncrementNumDescendantsSelected (numSelected c) p t1
                     else t1);
               t3 = upd_node (setVisible False) (FolderRef (p @ [k])) t2;
               t4 = folder_dirtyFilter (p @ [k]) t3
           in requestArrange_include_descendants (p @ [k]) t4))"

text \<open>\<open>LLFolderView::addFolder\<close> of the root.  Line 412 reads the id of the folder through
  its listener, \<open>folder->getListener()->getUUID()\<close>, a read through a null pointer when the
  folder has no listener.  The folder goes to the end when the id is that of the library
  root (\<open>gInventory.getLibraryRootFolderID()\<close> is not in these files: it is the parameter
  \<open>libraryRootFolderID\<close>), to the front otherwise, and only the root is flagged for
  arrangement.\<close>

definition view_addFolder :: "uuid \<Rightarrow> folder \<Rightarrow> folder \<Rightarrow> fault + folder" where
  "view_addFolder libraryRootFolderID c t =
     (case mListener (self c) of
        None \<Rightarrow> Inl NullPointerRead
      | Some l \<Rightarrow>
          (let k = (if getUUID l = libraryRootFolderID then length (mFolders t) else 0);
               t1 = upd_folder (insert_folder k c) [] t;
               t2 = (if numSelected c \<noteq> 0
                     then recursiveIncrementNumDescendantsSelected (numSelected c) [] t1
                     else t1);
               t3 = upd_node (setVisible False) (FolderRef [k]) t2;
               t4 = folder_dirtyFilter [k] t3
           in Inr (requestArrange [k] t4)))"
subsection \<open>The count of selected descendants: notions for the statements\<close>

text \<open>The fresh recursive count: the number of selected nodes below a folder, the folder
  itself not included.\<close>

definition sel_n :: "item_state \<Rightarrow> int" where
  "sel_n i = (if mIsSelected i then 1 else 0)"

fun fresh_count :: "folder \<Rightarrow> int" where
  "fresh_count (Folder s fs subs its) =
     sum_list (map (\<lambda>c. sel_n (self c) + fresh_count c) subs) + sum_list (map sel_n its)"

text \<open>Every folder of the tree holds the fresh count of its own subtree.\<close>

fun counts_ok :: "folder \<Rightarrow> bool" where
  "counts_ok (Folder s fs subs its) =
     (mNumDescendantsSelected fs = fresh_count (Folder s fs subs its) \<and> list_all counts_ok subs)"

text \<open>
  The selection mutations.  Each is a method of the folder at an address (or of a node, for
  \<open>selectItem\<close> and \<open>deselectItem\<close>).  A call is admissible when that address is one of a
  node, when the flag is as the assertion of \<open>selectItem\<close> or \<open>deselectItem\<close> wants it, and
  when a folder that is added holds the right counts for its own subtree.  The argument of
  \<open>ViewAddFolder\<close> is the id of the library root.
\<close>

datatype sel_op =
    SelectItem ref
  | DeselectItem ref
  | SetSelection "nat list" "ref option" bool
  | ChangeSelection "nat list" ref bool
  | RecursiveDeselect "nat list" bool
  | ExtractItem "nat list" ref
  | AddItem "nat list" nat item_state
  | AddFolder "nat list" nat folder
  | ViewAddFolder uuid folder

fun admissible :: "sel_op \<Rightarrow> folder \<Rightarrow> bool" where
  "admissible (SelectItem r) t = (get_node t r \<noteq> None \<and> \<not> isSelected t r)"
| "admissible (DeselectItem r) t = isSelected t r"
| "admissible (SetSelection p selection openitem) t = (get_folder t p \<noteq> None)"
| "admissible (ChangeSelection p selection selected) t = (get_folder t p \<noteq> None)"
| "admissible (RecursiveDeselect p deselect_self) t = (get_folder t p \<noteq> None)"
| "admissible (ExtractItem p item) t = (get_folder t p \<noteq> None)"
| "admissible (AddItem p pos item) t = (get_folder t p \<noteq> None)"
| "admissible (AddFolder p pos c) t = (get_folder t p \<noteq> None \<and> counts_ok c)"
| "admissible (ViewAddFolder libraryRootFolderID c) t = counts_ok c"

definition shape_at :: "folder \<Rightarrow> nat list \<Rightarrow> shape" where
  "shape_at t p = (case get_folder t p of Some F \<Rightarrow> shape_of F | None \<Rightarrow> Shape [] 0)"

text \<open>One call: the tree it leaves, or the fault it ends with.\<close>

fun apply_op :: "sel_op \<Rightarrow> folder \<Rightarrow> fault + folder" where
  "apply_op (SelectItem r) t = Inr (selectItem r t)"
| "apply_op (DeselectItem r) t = Inr (deselectItem r t)"
| "apply_op (SetSelection p selection openitem) t =
     Inr (fst (folder_setSelection selection openitem p (shape_at t p) t))"
| "apply_op (ChangeSelection p selection selected) t =
     Inr (fst (folder_changeSelection selection selected p (shape_at t p) t))"
| "apply_op (RecursiveDeselect p deselect_self) t =
     Inr (recursiveDeselect deselect_self p (shape_at t p) t)"
| "apply_op (ExtractItem p item) t =
     (case extractItem p item t of Inl f \<Rightarrow> Inl f | Inr (t', u) \<Rightarrow> Inr t')"
| "apply_op (AddItem p pos item) t = Inr (addItem p pos item t)"
| "apply_op (AddFolder p pos c) t = Inr (addFolder p pos c t)"
| "apply_op (ViewAddFolder libraryRootFolderID c) t = view_addFolder libraryRootFolderID c t"

text \<open>A sequence of mutations, run from the left: \<open>None\<close> when a call is not admissible, the
  fault of the first call that ends with one, else the tree that the last call leaves.\<close>

fun run_ops :: "sel_op list \<Rightarrow> folder \<Rightarrow> (fault + folder) option" where
  "run_ops [] t = Some (Inr t)"
| "run_ops (op # ops) t =
     (if admissible op t
      then (case apply_op op t of Inl f \<Rightarrow> Some (Inl f) | Inr t' \<Rightarrow> run_ops ops t')
      else None)"

text \<open>The increments written from the root downwards: what the loop up the chain of parents
  amounts to.\<close>

fun bump :: "int \<Rightarrow> nat list \<Rightarrow> folder \<Rightarrow> folder" where
  "bump inc [] F = map_fstate (add_selected inc) F"
| "bump inc (k # p) (Folder s fs subs its) =
     (if k < length subs
      then Folder s (add_selected inc fs) (subs[k := bump inc p (subs ! k)]) its
      else Folder s fs subs its)"

text \<open>The selection flags and counts of a tree, and nothing else.\<close>

datatype sel_tree = SelTree bool int "sel_tree list" "bool list"

fun sel_of :: "folder \<Rightarrow> sel_tree" where
  "sel_of (Folder s fs subs its) =
     SelTree (mIsSelected s) (mNumDescendantsSelected fs) (map sel_of subs) (map mIsSelected its)"

text \<open>An update of one child folder, as an update of its parent.\<close>

definition in_child :: "nat \<Rightarrow> (folder \<Rightarrow> folder) \<Rightarrow> folder \<Rightarrow> folder" where
  "in_child k h F =
     (case F of Folder s fs subs its \<Rightarrow>
        if k < length subs then Folder s fs (subs[k := h (subs ! k)]) its else F)"

text \<open>A tree for the examples: the root holds the folder \<open>A\<close> with the items \<open>a0\<close> and \<open>a1\<close>,
  and the item \<open>x\<close>; every node but the root has a listener; nothing is selected.\<close>

definition ex_listener :: "uuid \<Rightarrow> listener" where
  "ex_listener u = \<lparr>getUUID = u, isItemRemovable = True\<rparr>"

definition ex_sel :: folder where
  "ex_sel =
     Folder (new_item ''root'' None 20) (new_folder_state\<lparr>mIsOpen := True\<rparr>)
       [Folder (new_item ''A'' (Some (ex_listener 1)) 20) new_folder_state []
          [new_item ''a0'' (Some (ex_listener 2)) 20, new_item ''a1'' (Some (ex_listener 3)) 20]]
       [new_item ''x'' (Some (ex_listener 4)) 20]"

text \<open>A sequence for the examples: the item \<open>a1\<close> is selected through the root, then the item
  \<open>x\<close>, then the folder \<open>A\<close>, and \<open>A\<close> is extracted with what it holds.\<close>

definition ex_ops :: "sel_op list" where
  "ex_ops = [ChangeSelection [] (ItemRef [0] 1) True, SelectItem (ItemRef [] 0),
             ChangeSelection [] (FolderRef [0]) True, ExtractItem [] (FolderRef [0])]"

section \<open>Selection in the root view (llfolderview.cpp)\<close>

text \<open>\<open>setIsCurSelection\<close> of a node, and the statement
  \<open>if (mSelectedItems.size()) mSelectedItems.back()->setIsCurSelection(b)\<close>.\<close>

definition setIsCurSelection :: "bool \<Rightarrow> ref \<Rightarrow> folder \<Rightarrow> folder" where
  "setIsCurSelection b r t = upd_node (\<lambda>i. i\<lparr>mIsCurSelection := b\<rparr>) r t"

definition set_back_cur :: "bool \<Rightarrow> folder_view \<Rightarrow> folder_view" where
  "set_back_cur b v =
     (if mSelectedItems v \<noteq> []
      then v\<lparr>root := setIsCurSelection b (last (mSelectedItems v)) (root v)\<rparr>
      else v)"

text \<open>\<open>LLFolderView::removeFromSelectionList\<close> erases every occurrence of the node.\<close>

definition removeFromSelectionList :: "ref \<Rightarrow> folder_view \<Rightarrow> folder_view" where
  "removeFromSelectionList item v =
     (let v1 = set_back_cur False v;
          v2 = v1\<lparr>mSelectedItems := filter (\<lambda>r. r \<noteq> item) (mSelectedItems v1)\<rparr>
      in set_back_cur True v2)"

text \<open>\<open>LLFolderView::addToSelectionList\<close>.\<close>

definition addToSelectionList :: "ref \<Rightarrow> folder_view \<Rightarrow> folder_view" where
  "addToSelectionList item v =
     (let v1 = (if isSelected (root v) item then removeFromSelectionList item v else v);
          v2 = set_back_cur False v1;
          v3 = v2\<lparr>root := setIsCurSelection True item (root v2)\<rparr>
      in v3\<lparr>mSelectedItems := mSelectedItems v3 @ [item]\<rparr>)"

text \<open>\<open>LLFolderView::getCurSelectedItem\<close>: the last node of the list, or \<open>NULL\<close>.\<close>

definition getCurSelectedItem :: "folder_view \<Rightarrow> ref option" where
  "getCurSelectedItem v = (if mSelectedItems v = [] then None else Some (last (mSelectedItems v)))"

text \<open>\<open>LLFolderView::clearSelection\<close>.\<close>

definition clearSelection :: "folder_view \<Rightarrow> folder_view" where
  "clearSelection v =
     (if mSelectedItems v \<noteq> []
      then v\<lparr>root := recursiveDeselect False [] (shape_of (root v)) (root v),
             mSelectedItems := []\<rparr>
      else v)"

text \<open>\<open>LLFolderView::setSelection\<close>.  The root itself is refused.  The keyboard focus and the
  signal for the selection callback are left out.\<close>

definition view_setSelection ::
  "ref option \<Rightarrow> bool \<Rightarrow> bool \<Rightarrow> folder_view \<Rightarrow> folder_view \<times> bool" where
  "view_setSelection selection openitem take_keyboard_focus v =
     (if selection = Some Root then (v, False)
      else
        (let v1 = clearSelection v;
             v2 = (case selection of Some s \<Rightarrow> addToSelectionList s v1 | None \<Rightarrow> v1);
             (t, rv) = folder_setSelection selection openitem [] (shape_of (root v2)) (root v2);
             t' = (case selection of
                     Some s \<Rightarrow>
                       if openitem
                       then (case getParentFolder s of Some q \<Rightarrow> requestArrange q t | None \<Rightarrow> t)
                       else t
                   | None \<Rightarrow> t)
         in (v2\<lparr>root := t'\<rparr>, rv)))"

text \<open>\<open>LLFolderView::changeSelection\<close>: nothing for \<open>NULL\<close> and for the root; without
  multi-selection the whole selection is cleared first.\<close>

definition view_changeSelection ::
  "ref option \<Rightarrow> bool \<Rightarrow> folder_view \<Rightarrow> folder_view \<times> bool" where
  "view_changeSelection selection selected v =
     (case selection of
        None \<Rightarrow> (v, False)
      | Some s \<Rightarrow>
          if s = Root then (v, False)
          else
            (let v1 = (if \<not> mAllowMultiSelect v then clearSelection v else v);
                 on_list = (s \<in> set (mSelectedItems v1));
                 v2 = (if selected \<and> \<not> on_list then addToSelectionList s v1 else v1);
                 v3 = (if \<not> selected \<and> on_list then removeFromSelectionList s v2 else v2);
                 (t, rv) = folder_changeSelection s selected [] (shape_of (root v3)) (root v3)
             in (v3\<lparr>root := t\<rparr>, rv)))"

text \<open>\<open>LLFolderViewItem::potentiallyVisible\<close> and the override of \<open>LLFolderViewFolder\<close>.\<close>

definition item_potentiallyVisible :: "inventory_filter \<Rightarrow> item_state \<Rightarrow> bool" where
  "item_potentiallyVisible flt i =
     (mLastFilterGeneration i < getMinRequiredGeneration flt \<or> getFiltered flt i)"

definition folder_potentiallyVisible :: "inventory_filter \<Rightarrow> folder \<Rightarrow> bool" where
  "folder_potentiallyVisible flt F =
     (item_potentiallyVisible flt (self F)
      \<or> hasFilteredDescendants (fstate F) (getMinRequiredGeneration flt)
      \<or> mCompletedFilterGeneration (fstate F) < getMinRequiredGeneration flt)"

definition potentiallyVisible :: "folder_view \<Rightarrow> ref \<Rightarrow> bool" where
  "potentiallyVisible v r =
     (case r of
        FolderRef p \<Rightarrow>
          (case get_folder (root v) p of
             Some F \<Rightarrow> folder_potentiallyVisible (mFilter v) F
           | None \<Rightarrow> False)
      | ItemRef p j \<Rightarrow>
          (case get_item (root v) p j of
             Some i \<Rightarrow> item_potentiallyVisible (mFilter v) i
           | None \<Rightarrow> False))"

text \<open>The folders that the loop
  \<open>for (parent_folder = item->getParentFolder(); parent_folder; parent_folder = parent_folder->getParentFolder())\<close>
  visits, the nearest first.\<close>

function ancestors :: "ref \<Rightarrow> nat list list" where
  "ancestors r =
     (case getParentFolder r of
        None \<Rightarrow> []
      | Some q \<Rightarrow> q # ancestors (FolderRef q))"
  by pat_completeness auto
termination
proof (relation "measure ref_depth")
  show "wf (measure ref_depth)" by simp
next
  fix r q
  assume "getParentFolder r = Some q"
  then show "(FolderRef q, r) \<in> measure ref_depth"
    by (cases r) (auto simp: getParentFolder_def split: if_splits)
qed

declare ancestors.simps [simp del]

text \<open>Lines 750-775 of \<open>sanitizeSelection\<close>: whether a selected node may stay, as far as
  filtering and the open state of its ancestors go.\<close>

definition sanitize_visible :: "folder_view \<Rightarrow> ref \<Rightarrow> bool" where
  "sanitize_visible v item =
     (let visible = potentiallyVisible v item;
          show_all_folders = (getShowFolderState (mFilter v) = SHOW_ALL_FOLDERS)
      in case getParentFolder item of
           None \<Rightarrow> visible
         | Some parent_folder \<Rightarrow>
             if show_all_folders then True
             else fold (\<lambda>q visible.
                          visible \<and> isOpen (root v) (FolderRef q) \<and> potentiallyVisible v (FolderRef q))
                    (ancestors item) visible)"

text \<open>Lines 745-797: the nodes pushed on \<open>items_to_remove\<close>, in order.  For each selected node:
  the node itself when it may not stay, every selected node below it, and the node itself
  when it is the root.\<close>

definition items_to_remove :: "folder_view \<Rightarrow> ref list" where
  "items_to_remove v =
     concat (map (\<lambda>item.
        (if \<not> sanitize_visible v item then [item] else [])
        @ filter (\<lambda>other_item. list_ex (\<lambda>q. FolderRef q = item) (ancestors other_item))
            (mSelectedItems v)
        @ (if item = Root then [item] else []))
       (mSelectedItems v))"

text \<open>Lines 799-803: \<open>changeSelection(*item_it, FALSE)\<close> for each of them.\<close>

definition sanitize_remove :: "folder_view \<Rightarrow> folder_view" where
  "sanitize_remove v =
     fold (\<lambda>item v. fst (view_changeSelection (Some item) False v)) (items_to_remove v) v"

text \<open>Lines 812-832: the loop over the ancestors of the original selection.\<close>

definition fallback_selection :: "folder_view \<Rightarrow> ref \<Rightarrow> ref option" where
  "fallback_selection v original_selected_item =
     fold (\<lambda>q new_selection.
             if potentiallyVisible v (FolderRef q)
             then (let n1 = (if new_selection = None then Some (FolderRef q) else new_selection)
                   in if \<not> isOpen (root v) (FolderRef q) then Some (FolderRef q) else n1)
             else new_selection)
       (ancestors original_selected_item) None"

text \<open>\<open>LLFolderView::sanitizeSelection\<close>.  \<open>gInventory.getRootFolderID()\<close> is not in these
  files: it is the parameter \<open>rootFolderID\<close>.\<close>

definition sanitizeSelection :: "uuid \<Rightarrow> folder_view \<Rightarrow> folder_view" where
  "sanitizeSelection rootFolderID v =
     (let original_selected_item = getCurSelectedItem v;
          v1 = sanitize_remove v
      in if mSelectedItems v1 = []
         then
           (let new_selection =
                  (case original_selected_item of
                     Some original \<Rightarrow> fallback_selection v1 original
                   | None \<Rightarrow> getItemByID v1 rootFolderID)
            in case new_selection of
                 Some n \<Rightarrow> fst (view_setSelection (Some n) False False v1)
               | None \<Rightarrow> v1)
         else v1)"

subsection \<open>The sanitized selection: notions for the statements\<close>

text \<open>The ``show all folders'' policy is active.\<close>

definition show_all :: "folder_view \<Rightarrow> bool" where
  "show_all v = (getShowFolderState (mFilter v) = SHOW_ALL_FOLDERS)"

text \<open>Every ancestor of the node is open and potentially visible.\<close>

definition chain_ok :: "folder_view \<Rightarrow> ref \<Rightarrow> bool" where
  "chain_ok v r =
     list_all (\<lambda>q. isOpen (root v) (FolderRef q) \<and> potentiallyVisible v (FolderRef q)) (ancestors r)"

text \<open>Above the nearest potentially visible ancestor of the node, every ancestor is
  potentially visible too.\<close>

definition upward_visible :: "folder_view \<Rightarrow> ref \<Rightarrow> bool" where
  "upward_visible v r =
     list_all (\<lambda>q. potentiallyVisible v (FolderRef q))
       (dropWhile (\<lambda>q. \<not> potentiallyVisible v (FolderRef q)) (ancestors r))"


text \<open>The fallback in words: of the potentially visible ancestors of the original selection, the
  highest closed one if one is closed, else the nearest one.\<close>

definition fallback_spec :: "folder_view \<Rightarrow> ref \<Rightarrow> ref option" where
  "fallback_spec v original =
     (let pv = filter (\<lambda>q. potentiallyVisible v (FolderRef q)) (ancestors original);
          closed = filter (\<lambda>q. \<not> isOpen (root v) (FolderRef q)) pv
      in if closed \<noteq> [] then Some (FolderRef (last closed))
         else if pv \<noteq> [] then Some (FolderRef (hd pv))
         else None)"

text \<open>A tree with its selection flags and counts cleared: what the selection methods leave
  untouched.\<close>

definition clr :: "item_state \<Rightarrow> item_state" where
  "clr i = i\<lparr>mIsSelected := False, mIsCurSelection := False\<rparr>"

fun unsel :: "folder \<Rightarrow> folder" where
  "unsel (Folder s fs subs its) =
     Folder (clr s) (fs\<lparr>mNumDescendantsSelected := 0\<rparr>) (map unsel subs) (map clr its)"

text \<open>Two views for the examples.  In the first the root holds the closed folder \<open>A\<close>, which
  holds the open folder \<open>B\<close>, which holds the selected item \<open>X\<close>.  In the second the root
  holds the closed folder \<open>A\<close> with the selected item \<open>X\<close>, and the selected item \<open>Y\<close>, which
  is the current selection.  Nothing has been filtered yet.\<close>

definition ex_selected :: "string \<Rightarrow> bool \<Rightarrow> item_state" where
  "ex_selected nm cur = (new_item nm None 20)\<lparr>mIsSelected := True, mIsCurSelection := cur\<rparr>"



text \<open>A third view: the root holds the open folder \<open>A\<close>, which failed the filter at
  generation 0 with no descendant that passed, and \<open>A\<close> holds the open folder \<open>B\<close>, not yet
  filtered, with the selected item \<open>X\<close>.\<close>

definition ex_filtered_view :: folder_view where
  "ex_filtered_view =
     (new_view ''inv'' 20)
       \<lparr>root :=
          Folder (new_item ''inv'' None 20)
            (new_folder_state\<lparr>mIsOpen := True, mNumDescendantsSelected := 1\<rparr>)
            [Folder ((new_item ''A'' None 20)\<lparr>mLastFilterGeneration := 0\<rparr>)
               (new_folder_state\<lparr>mIsOpen := True, mNumDescendantsSelected := 1,
                  mCompletedFilterGeneration := 0\<rparr>)
               [Folder (new_item ''B'' None 20)
                  (new_folder_state\<lparr>mIsOpen := True, mNumDescendantsSelected := 1\<rparr>)
                  [] [ex_selected ''X'' True]]
               []]
            [],
        mSelectedItems := [ItemRef [0, 0] 0]\<rparr>"

text \<open>Two views that differ in the selection only.\<close>

definition same_frame :: "folder_view \<Rightarrow> folder_view \<Rightarrow> bool" where
  "same_frame v v' \<longleftrightarrow>
     unsel (root v') = unsel (root v) \<and> mFilter v' = mFilter v \<and>
     mAllowMultiSelect v' = mAllowMultiSelect v \<and> mItemMap v' = mItemMap v"

section \<open>Removal of the selection (\<open>LLFolderView::removeSelectedItems\<close>)\<close>

text \<open>\<open>LLFolderViewItem::isRemovable\<close> and the override \<open>LLFolderViewFolder::isRemovable\<close>: a
  folder with a listener asks the listener, then its items, then its sub-folders.\<close>

definition item_isRemovable :: "item_state \<Rightarrow> bool" where
  "item_isRemovable i = (case mListener i of Some l \<Rightarrow> isItemRemovable l | None \<Rightarrow> True)"

fun folder_isRemovable :: "folder \<Rightarrow> bool" where
  "folder_isRemovable (Folder s fs subs its) =
     (case mListener s of
        None \<Rightarrow> True
      | Some l \<Rightarrow>
          isItemRemovable l \<and> list_all item_isRemovable its \<and> list_all folder_isRemovable subs)"

text \<open>The virtual call on the node at an address; \<open>None\<close> when the address is one of no node.\<close>

definition isRemovable :: "folder \<Rightarrow> ref \<Rightarrow> bool option" where
  "isRemovable t r =
     (case r of
        FolderRef p \<Rightarrow> map_option folder_isRemovable (get_folder t p)
      | ItemRef p j \<Rightarrow> map_option item_isRemovable (get_item t p j))"

text \<open>Lines 1026-1038: the selected nodes are copied to \<open>items\<close> as long as they are removable;
  the first one that is not stops the loop.\<close>

datatype check = Blocked ref | Removable "ref list"

fun check_removable :: "folder \<Rightarrow> ref list \<Rightarrow> ref list \<Rightarrow> fault + check" where
  "check_removable t items [] = Inr (Removable items)"
| "check_removable t items (item # rest) =
     (case isRemovable t item of
        None \<Rightarrow> Inl NullPointerRead
      | Some removable \<Rightarrow>
          if removable then check_removable t (items @ [item]) rest
          else Inr (Blocked item))"

text \<open>\<open>LLFolderViewItem::remove\<close>, reached through \<open>parent->removeItem(item)\<close>.  The answer of
  \<open>mListener->removeItem()\<close> is the parameter \<open>removeItem\<close>; the call is recorded.\<close>

definition item_remove ::
  "(listener \<Rightarrow> bool) \<Rightarrow> ref \<Rightarrow> folder_view \<Rightarrow> bool \<times> folder_view" where
  "item_remove removeItem r v =
     (if isRemovable (root v) r \<noteq> Some True then (False, v)
      else
        (case Option.bind (get_node (root v) r) mListener of
           Some l \<Rightarrow> (removeItem l, v\<lparr>listenerCalls := listenerCalls v @ [RemoveItem (getUUID l)]\<rparr>)
         | None \<Rightarrow> (True, v)))"

text \<open>Modelled from the spec: \<open>arrangeAll()\<close> is an inline of llfolderview.h, which is not among
  the sources; it starts a new arrange generation.  \<open>scrollToShowSelection\<close> is in
  llfolderview.cpp.\<close>

definition arrangeAll :: "folder_view \<Rightarrow> folder_view" where
  "arrangeAll v = v\<lparr>mArrangeGeneration := mArrangeGeneration v + 1\<rparr>"

definition scrollToShowSelection :: "folder_view \<Rightarrow> folder_view" where
  "scrollToShowSelection v = (if mSelectedItems v \<noteq> [] then v\<lparr>mNeedsScroll := True\<rparr> else v)"

text \<open>The calls \<open>setSelectionFromRoot(new_selection, new_selection->isOpen(), hasFocus())\<close> and
  \<open>setSelectionFromRoot(NULL, hasFocus())\<close>; in the second the focus is the argument
  \<open>openitem\<close> and \<open>take_keyboard_focus\<close> has its default.\<close>

definition select_after_removal :: "bool \<Rightarrow> ref option \<Rightarrow> folder_view \<Rightarrow> folder_view" where
  "select_after_removal hasFocus new_selection v =
     (case new_selection of
        Some n \<Rightarrow> fst (view_setSelection (Some n) (isOpen (root v) n) hasFocus v)
      | None \<Rightarrow> fst (view_setSelection None hasFocus True v))"

text \<open>Lines 1043-1070: one node to delete.\<close>

definition remove_one ::
  "(listener \<Rightarrow> bool) \<Rightarrow> bool \<Rightarrow> ref \<Rightarrow> folder_view \<Rightarrow> fault + folder_view" where
  "remove_one removeItem hasFocus item_to_delete v =
     (case getNextOpenNode (root v) item_to_delete False of
        NullDereference \<Rightarrow> Inl NullPointerRead
      | Returns next_node \<Rightarrow>
          (case (if next_node = None then getPreviousOpenNode (root v) item_to_delete False
                 else Returns next_node) of
             NullDereference \<Rightarrow> Inl NullPointerRead
           | Returns new_selection \<Rightarrow>
               (let v1 =
                  (case getParentFolder item_to_delete of
                     None \<Rightarrow> v
                   | Some parent \<Rightarrow>
                       (let (removed, v') = item_remove removeItem item_to_delete v
                        in if removed then select_after_removal hasFocus new_selection v'
                           else v'))
                in Inr (arrangeAll v1))))"

text \<open>The loops \<open>while (new_selection && new_selection->isSelected())\<close> of lines 1077-1088,
  with the walk as a parameter.  Nothing in the method bounds them: \<open>None\<close> stands for a loop
  that does not end.\<close>

partial_function (option) skip_selected ::
  "(ref \<Rightarrow> outcome) \<Rightarrow> folder \<Rightarrow> ref option \<Rightarrow> outcome option" where
  "skip_selected walk t new_selection =
     (case new_selection of
        None \<Rightarrow> Some (Returns None)
      | Some r \<Rightarrow>
          if isSelected t r
          then (case walk r of
                  NullDereference \<Rightarrow> Some NullDereference
                | Returns n \<Rightarrow> skip_selected walk t n)
          else Some (Returns (Some r)))"

text \<open>Lines 1098-1105: the listeners of the nodes, each once.  The listener of a node is
  its own object, so the nodes stand for them.\<close>

fun collect_listeners :: "folder \<Rightarrow> ref list \<Rightarrow> ref list \<Rightarrow> ref list" where
  "collect_listeners t listeners [] = listeners"
| "collect_listeners t listeners (item # rest) =
     collect_listeners t
       (if Option.bind (get_node t item) mListener \<noteq> None \<and> item \<notin> set listeners
        then listeners @ [item] else listeners)
       rest"

definition listener_ids :: "folder \<Rightarrow> ref list \<Rightarrow> uuid list" where
  "listener_ids t rs =
     concat (map (\<lambda>r. case Option.bind (get_node t r) mListener of
                         Some l \<Rightarrow> [getUUID l] | None \<Rightarrow> []) rs)"

text \<open>Lines 1071-1111: several nodes to delete.  The new selection is looked for after the
  last of them, then before it; the removal goes to the listeners in one batch.\<close>

definition remove_many :: "bool \<Rightarrow> ref list \<Rightarrow> folder_view \<Rightarrow> (fault + folder_view) option" where
  "remove_many hasFocus items v =
     (let t = root v; last_item = last items
      in case getNextOpenNode t last_item False of
           NullDereference \<Rightarrow> Some (Inl NullPointerRead)
         | Returns n0 \<Rightarrow>
             Option.bind (skip_selected (\<lambda>r. getNextOpenNode t r False) t n0) (\<lambda>forwards.
               Option.bind
                 (case forwards of
                    NullDereference \<Rightarrow> Some NullDereference
                  | Returns (Some n) \<Rightarrow> Some (Returns (Some n))
                  | Returns None \<Rightarrow>
                      (case getPreviousOpenNode t last_item False of
                         NullDereference \<Rightarrow> Some NullDereference
                       | Returns p0 \<Rightarrow>
                           skip_selected (\<lambda>r. getPreviousOpenNode t r False) t p0))
                 (\<lambda>found.
                    case found of
                      NullDereference \<Rightarrow> Some (Inl NullPointerRead)
                    | Returns new_selection \<Rightarrow>
                        (let v1 = select_after_removal hasFocus new_selection v;
                             listeners = collect_listeners t [] items
                         in if listeners = [] then Some (Inl EmptyArrayRead)
                            else Some (Inr (v1\<lparr>listenerCalls := listenerCalls v1
                                   @ [RemoveBatch (listener_ids t listeners)]\<rparr>))))))"

text \<open>\<open>LLFolderView::removeSelectedItems\<close>.  \<open>hasFocus()\<close> belongs to the user interface and is
  a parameter.  The result is \<open>None\<close> when the method does not return, a fault, or the view
  it leaves.\<close>

definition removeSelectedItems ::
  "(listener \<Rightarrow> bool) \<Rightarrow> bool \<Rightarrow> folder_view \<Rightarrow> (fault + folder_view) option" where
  "removeSelectedItems removeItem hasFocus v =
     (if getVisible (root v) Root \<and> viewEnabled v
      then
        (let v0 = v\<lparr>mRenameItem := None\<rparr>
         in if mSelectedItems v0 = [] then Some (Inr v0)
            else
              (case check_removable (root v0) [] (mSelectedItems v0) of
                 Inl f \<Rightarrow> Some (Inl f)
               | Inr (Blocked item) \<Rightarrow>
                   (case get_node (root v0) item of
                      None \<Rightarrow> Some (Inl NullPointerRead)
                    | Some i \<Rightarrow>
                        Some (Inr (v0\<lparr>infoLog := infoLog v0 @ [''Cannot delete '' @ mName i]\<rparr>)))
               | Inr (Removable items) \<Rightarrow>
                   map_option (map_sum id (\<lambda>v. scrollToShowSelection (arrangeAll v)))
                     (if length items = 1
                      then Some (remove_one removeItem hasFocus (hd items) v0)
                      else if length items > 1 then remove_many hasFocus items v0
                      else Some (Inr v0))))
      else Some (Inr v))"

subsection \<open>Removal: notions for the statements\<close>

text \<open>The first selected node that is not removable, in the order of the selection list.\<close>

definition first_blocker :: "folder_view \<Rightarrow> ref option" where
  "first_blocker v = find (\<lambda>r. isRemovable (root v) r \<noteq> Some True) (mSelectedItems v)"

text \<open>A view for the examples: the root holds the items \<open>ok\<close>, which its listener lets
  remove, and \<open>locked\<close>, which its listener does not; both are selected.\<close>

definition ex_remove_view :: folder_view where
  "ex_remove_view =
     (new_view ''inv'' 20)
       \<lparr>root :=
          Folder (new_item ''inv'' None 20)
            (new_folder_state\<lparr>mIsOpen := True, mNumDescendantsSelected := 2\<rparr>)
            []
            [(new_item ''ok'' (Some \<lparr>getUUID = 1, isItemRemovable = True\<rparr>) 20)
               \<lparr>mIsSelected := True\<rparr>,
             (new_item ''locked'' (Some \<lparr>getUUID = 2, isItemRemovable = False\<rparr>) 20)
               \<lparr>mIsSelected := True, mIsCurSelection := True\<rparr>],
        mSelectedItems := [ItemRef [] 0, ItemRef [] 1]\<rparr>"

section \<open>Properties of the lookup by id\<close>

text \<open>
  C10.  Looking a node up by id at the root returns the root itself for the null id; for
  every non-null id it returns the node recorded in the id index if there is one, and null
  (\<open>None\<close>) otherwise.
\<close>

theorem getItemByID_spec:
  "getItemByID v 0 = Some Root \<and>
   (\<forall>u. u \<noteq> 0 \<longrightarrow>
      (\<forall>r. mItemMap v u = Some r \<longrightarrow> getItemByID v u = Some r) \<and>
      (mItemMap v u = None \<longrightarrow> getItemByID v u = None))"
  by (simp add: getItemByID_def isNull_def)

theorem getItemByID_spec_witness:
  "getItemByID (addItemID 5 (ItemRef [] 0) (new_view ''inv'' 20)) 0 = Some Root \<and>
   getItemByID (addItemID 5 (ItemRef [] 0) (new_view ''inv'' 20)) 5 = Some (ItemRef [] 0) \<and>
   getItemByID (addItemID 5 (ItemRef [] 0) (new_view ''inv'' 20)) 7 = None"
proof -
  let ?v = "addItemID 5 (ItemRef [] 0) (new_view ''inv'' 20)"
  have m5: "mItemMap ?v 5 = Some (ItemRef [] 0)"
    by (simp add: addItemID_def)
  have m7: "mItemMap ?v 7 = None"
    by (simp add: addItemID_def new_view_def)
  have n5: "(5::uuid) \<noteq> 0" and n7: "(7::uuid) \<noteq> 0"
    by simp_all
  from getItemByID_spec [of ?v] m5 m7 n5 n7 show ?thesis
    by blast
qed

section \<open>Properties of filtering\<close>



lemma filter_le_refl: "filter_le a a"
  by (simp add: filter_le_def)

lemma filter_le_trans: "filter_le a b \<Longrightarrow> filter_le b c \<Longrightarrow> filter_le a c"
  by (auto simp: filter_le_def)

lemma item_filter_le: "item_filter chk r flt i = (i', flt', rq) \<Longrightarrow> filter_le flt flt'"
  by (cases "mListener i") (auto simp: item_filter_def filter_le_def Let_def)

lemma folder_item_filter_le:
  "folder_item_filter chk r flt s fs = (s', fs', flt', rq) \<Longrightarrow> filter_le flt flt'"
  by (cases "mListener s") (auto simp: folder_item_filter_def filter_le_def Let_def folder_setFiltered_def)

lemma filter_self_le: "filter_self chk r flt s fs = (s', fs', flt', rq) \<Longrightarrow> filter_le flt flt'"
  by (auto simp: filter_self_def filter_le_refl split: if_splits dest: folder_item_filter_le)

lemma filter_item_step_le:
  "filter_item_step chk r flt fs i = (i', flt', fs', rq) \<Longrightarrow> filter_le flt flt'"
  by (auto simp: filter_item_step_def Let_def filter_le_refl split: if_splits prod.splits
      dest: item_filter_le)

lemma filter_items_Cons_cases:
  assumes "filter_items chk p j flt fs (i # is) = (is', flt', fs', rq)"
  obtains (stop) "getFilterCount flt < 0" "is' = i # is" "flt' = flt" "fs' = fs" "\<not> rq"
  | (step) i1 flt1 fs1 rq1 is2 rq2 where "\<not> getFilterCount flt < 0"
      "filter_item_step chk (ItemRef p j) flt fs i = (i1, flt1, fs1, rq1)"
      "filter_items chk p (Suc j) flt1 fs1 is = (is2, flt', fs', rq2)"
      "is' = i1 # is2" "rq = (rq1 \<or> rq2)"
proof (cases "getFilterCount flt < 0")
  case True
  with assms have "is' = i # is" "flt' = flt" "fs' = fs" "\<not> rq" by simp_all
  with True stop show ?thesis by blast
next
  case False
  obtain i1 flt1 fs1 rq1 where st: "filter_item_step chk (ItemRef p j) flt fs i = (i1, flt1, fs1, rq1)"
    using prod_cases4 by blast
  obtain is2 flt2 fs2 rq2 where rc: "filter_items chk p (Suc j) flt1 fs1 is = (is2, flt2, fs2, rq2)"
    using prod_cases4 by blast
  from assms False st rc show ?thesis
    by (intro step [of i1 flt1 fs1 rq1 is2 rq2]) auto
qed

lemma filter_folder_cases:
  assumes "filter_folder chk nas p flt (Folder s fs subs its) = (F', flt', rq)"
  obtains (skip) "mCompletedFilterGeneration fs \<ge> getCurrentGeneration flt"
      "F' = Folder s fs subs its" "flt' = flt" "\<not> rq"
  | (early) s1 fs1 where "mCompletedFilterGeneration fs < getCurrentGeneration flt"
      "filter_self chk (FolderRef p) flt s fs = (s1, fs1, flt', rq)"
      "(mCompletedFilterGeneration fs1 \<ge> getMustPassGeneration flt'
            \<and> \<not> hasFilteredDescendants fs1 (getMustPassGeneration flt')) \<or> getFilterCount flt' < 0"
      "F' = Folder s1 fs1 subs its"
  | (full) s1 fs1 flt1 rq1 subs' flt2 fs2 rq2 its' fs3 rq3 where
      "mCompletedFilterGeneration fs < getCurrentGeneration flt"
      "filter_self chk (FolderRef p) flt s fs = (s1, fs1, flt1, rq1)"
      "\<not> (mCompletedFilterGeneration fs1 \<ge> getMustPassGeneration flt1
            \<and> \<not> hasFilteredDescendants fs1 (getMustPassGeneration flt1))"
      "\<not> getFilterCount flt1 < 0"
      "filter_subfolders chk nas p 0 flt1 fs1 subs = (subs', flt2, fs2, rq2)"
      "filter_items chk p 0 flt2 fs2 its = (its', flt', fs3, rq3)"
      "F' = Folder s1 (if getFilterCount flt' > 0
                       then setCompletedFilterGeneration (getCurrentGeneration flt') fs3
                       else fs3) subs' its'"
      "rq = (rq1 \<or> rq2 \<or> rq3)"
proof (cases "mCompletedFilterGeneration fs \<ge> getCurrentGeneration flt")
  case True
  with assms have "F' = Folder s fs subs its" "flt' = flt" "\<not> rq" by simp_all
  with True skip show ?thesis by blast
next
  case nc: False
  obtain s1 fs1 flt1 rq1 where sf: "filter_self chk (FolderRef p) flt s fs = (s1, fs1, flt1, rq1)"
    using prod_cases4 by blast
  show ?thesis
  proof (cases "(mCompletedFilterGeneration fs1 \<ge> getMustPassGeneration flt1
            \<and> \<not> hasFilteredDescendants fs1 (getMustPassGeneration flt1)) \<or> getFilterCount flt1 < 0")
    case True
    with assms nc sf show ?thesis
      by (intro early [of s1 fs1]) (auto split: if_splits)
  next
    case go: False
    obtain subs' flt2 fs2 rq2 where sb: "filter_subfolders chk nas p 0 flt1 fs1 subs = (subs', flt2, fs2, rq2)"
      using prod_cases4 by blast
    obtain its' flt3 fs3 rq3 where it: "filter_items chk p 0 flt2 fs2 its = (its', flt3, fs3, rq3)"
      using prod_cases4 by blast
    from assms nc sf go sb it show ?thesis
      by (intro full [of s1 fs1 flt1 rq1 subs' flt2 fs2 rq2 its' fs3 rq3]) (auto split: if_splits)
  qed
qed

lemma filter_subfolders_Cons_cases:
  assumes "filter_subfolders chk nas p k flt fs (c # cs) = (cs', flt', fs', rq)"
  obtains (stop) "getFilterCount flt < 0" "cs' = c # cs" "flt' = flt" "fs' = fs" "\<not> rq"
  | (already) c1 fs1 rq1 cs2 rq2 where "\<not> getFilterCount flt < 0"
      "mCompletedFilterGeneration (fstate c) \<ge> getCurrentGeneration flt"
      "(c1, fs1, rq1) = (if getFiltered flt (self c)
                   \<or> hasFilteredDescendants (fstate c) (getMinRequiredGeneration flt)
                then track_passed nas (getCurrentGeneration flt) c fs
                else (c, fs, False))"
      "filter_subfolders chk nas p (Suc k) flt fs1 cs = (cs2, flt', fs', rq2)"
      "cs' = c1 # cs2" "rq = (rq1 \<or> rq2)"
  | (visit) c0 flt1 rq0 c1 fs1 rq1 cs2 rq2 where "\<not> getFilterCount flt < 0"
      "mCompletedFilterGeneration (fstate c) < getCurrentGeneration flt"
      "filter_folder chk nas (p @ [k]) flt c = (c0, flt1, rq0)"
      "(c1, fs1, rq1) = (if getFiltered flt1 (self c0)
                   \<or> hasFilteredDescendants (fstate c0) (getCurrentGeneration flt1)
                then track_passed nas (getCurrentGeneration flt1) c0 (requestArrange_if rq0 fs)
                else (c0, requestArrange_if rq0 fs, False))"
      "filter_subfolders chk nas p (Suc k) flt1 fs1 cs = (cs2, flt', fs', rq2)"
      "cs' = c1 # cs2" "rq = (rq0 \<or> rq1 \<or> rq2)"
proof (cases "getFilterCount flt < 0")
  case True
  with assms have "cs' = c # cs" "flt' = flt" "fs' = fs" "\<not> rq" by simp_all
  with True stop show ?thesis by blast
next
  case nb: False
  show ?thesis
  proof (cases "mCompletedFilterGeneration (fstate c) \<ge> getCurrentGeneration flt")
    case True
    obtain c1 fs1 rq1 where tp: "(if getFiltered flt (self c)
                   \<or> hasFilteredDescendants (fstate c) (getMinRequiredGeneration flt)
                then track_passed nas (getCurrentGeneration flt) c fs
                else (c, fs, False)) = (c1, fs1, rq1)"
      using prod_cases3 by blast
    obtain cs2 flt2 fs2 rq2 where rc: "filter_subfolders chk nas p (Suc k) flt fs1 cs = (cs2, flt2, fs2, rq2)"
      using prod_cases4 by blast
    from assms nb True tp rc show ?thesis
      by (intro already [of c1 fs1 rq1 cs2 rq2]) (simp_all del: split_paired_All)
  next
    case False
    obtain c0 flt1 rq0 where ff: "filter_folder chk nas (p @ [k]) flt c = (c0, flt1, rq0)"
      using prod_cases3 by blast
    obtain c1 fs1 rq1 where tp: "(if getFiltered flt1 (self c0)
                   \<or> hasFilteredDescendants (fstate c0) (getCurrentGeneration flt1)
                then track_passed nas (getCurrentGeneration flt1) c0 (requestArrange_if rq0 fs)
                else (c0, requestArrange_if rq0 fs, False)) = (c1, fs1, rq1)"
      using prod_cases3 by blast
    obtain cs2 flt2 fs2 rq2 where rc: "filter_subfolders chk nas p (Suc k) flt1 fs1 cs = (cs2, flt2, fs2, rq2)"
      using prod_cases4 by blast
    from assms nb False ff tp rc show ?thesis
      by (intro visit [of c0 flt1 rq0 c1 fs1 rq1 cs2 rq2]) (simp_all add: Let_def)
  qed
qed



lemma filter_items_le:
  "filter_items chk p j flt fs is = (is', flt', fs', rq) \<Longrightarrow> filter_le flt flt'"
proof (induction "is" arbitrary: j flt fs is' flt' fs' rq)
  case Nil
  then show ?case by (simp add: filter_le_refl)
next
  case (Cons i "is")
  from Cons.prems show ?case
  proof (cases rule: filter_items_Cons_cases)
    case stop
    then show ?thesis by (simp add: filter_le_refl)
  next
    case (step i1 flt1 fs1 rq1 is2 rq2)
    from filter_item_step_le [OF step(2)] Cons.IH [OF step(3)] show ?thesis
      by (rule filter_le_trans)
  qed
qed

lemma track_passed_self:
  "track_passed nas g c fs = (c1, fs1, rq) \<Longrightarrow>
     self c1 = self c \<and> mFolders c1 = mFolders c \<and> mItems c1 = mItems c \<and>
     mCompletedFilterGeneration (fstate c1) = mCompletedFilterGeneration (fstate c) \<and>
     mMostFilteredDescendantGeneration (fstate c1) = mMostFilteredDescendantGeneration (fstate c) \<and>
     mCompletedFilterGeneration fs1 = mCompletedFilterGeneration fs"
  by (cases c)
     (auto simp: track_passed_def setOpenArrange_true_def Let_def requestArrange_here_def
        requestArrange_if_def split: if_splits prod.splits)

lemma filter_folder_le:
  "filter_folder chk nas p flt F = (F', flt', rq) \<Longrightarrow> filter_le flt flt'"
and filter_subfolders_le:
  "filter_subfolders chk nas p k flt fs cs = (cs', flt', fs', rq2) \<Longrightarrow> filter_le flt flt'"
proof (induction chk nas p flt F and chk nas p k flt fs cs arbitrary: F' flt' rq and cs' flt' fs' rq2
    rule: filter_folder_filter_subfolders.induct)
  case (1 chk nas p flt s fs subs its)
  from "1.prems" show ?case
  proof (cases rule: filter_folder_cases)
    case skip
    then show ?thesis by (simp add: filter_le_refl)
  next
    case (early s1 fs1)
    then show ?thesis by (auto dest: filter_self_le)
  next
    case (full s1 fs1 flt1 rq1 subs' flt2 fs2 rq2 its' fs3 rq3)
    have "filter_le flt1 flt2"
      using "1.IH" [OF _ full(2) [symmetric] refl refl refl _ _ full(5)] full(1,3,4) by auto
    with filter_self_le [OF full(2)] filter_items_le [OF full(6)] show ?thesis
      by (blast intro: filter_le_trans)
  qed
next
  case (2 chk nas p k flt fs)
  then show ?case by (simp add: filter_le_refl)
next
  case (3 chk nas p k flt fs c cs)
  from "3.prems" show ?case
  proof (cases rule: filter_subfolders_Cons_cases)
    case stop
    then show ?thesis by (simp add: filter_le_refl)
  next
    case (already c1 fs1 rq1 cs2 rq2)
    show ?thesis
      using "3.IH"(1) [OF already(1,2) already(3) refl refl already(4)] .
  next
    case (visit c0 flt1 rq0 c1 fs1 rq1 cs2 rq2)
    have a: "filter_le flt flt1"
      using "3.IH"(2) [OF visit(1) _ visit(3)] visit(2) by simp
    have b: "filter_le flt1 flt'"
      using "3.IH"(3) [OF visit(1) _ visit(3) [symmetric] refl refl refl visit(4) refl refl visit(5)] visit(2)
      by simp
    from a b show ?thesis by (rule filter_le_trans)
  qed
qed



lemma filter_self_stamped:
  "filter_self chk r flt s fs = (s1, fs1, flt1, rq1) \<Longrightarrow>
     mLastFilterGeneration s1 \<ge> getCurrentGeneration flt \<and>
     mCompletedFilterGeneration fs1 = mCompletedFilterGeneration fs \<and>
     mMostFilteredDescendantGeneration fs1 = mMostFilteredDescendantGeneration fs"
  by (auto simp: filter_self_def folder_item_filter_def folder_setFiltered_def
        item_setFiltered_def Let_def split: if_splits)

lemma filter_item_step_stamped:
  "filter_item_step chk r flt fs i = (i1, flt1, fs1, rq1) \<Longrightarrow>
     mLastFilterGeneration i1 \<ge> getCurrentGeneration flt \<and>
     mCompletedFilterGeneration fs1 = mCompletedFilterGeneration fs"
  by (auto simp: filter_item_step_def item_filter_def item_setFiltered_def Let_def
        requestArrange_if_def requestArrange_here_def split: if_splits)

lemma filter_items_completed:
  "filter_items chk p j flt fs is = (is', flt', fs', rq) \<Longrightarrow>
     mCompletedFilterGeneration fs' = mCompletedFilterGeneration fs \<and> length is' = length is"
proof (induction "is" arbitrary: j flt fs is' flt' fs' rq)
  case Nil
  then show ?case by simp
next
  case (Cons i "is")
  from Cons.prems show ?case
  proof (cases rule: filter_items_Cons_cases)
    case stop
    then show ?thesis by simp
  next
    case (step i1 flt1 fs1 rq1 is2 rq2)
    with filter_item_step_stamped [OF step(2)] Cons.IH [OF step(3)] show ?thesis
      by simp
  qed
qed

lemma filter_items_visited:
  "filter_items chk p j flt fs is = (is', flt', fs', rq) \<Longrightarrow> 0 \<le> getFilterCount flt' \<Longrightarrow>
     \<forall>i \<in> set is'. mLastFilterGeneration i \<ge> getCurrentGeneration flt"
proof (induction "is" arbitrary: j flt fs is' flt' fs' rq)
  case Nil
  then show ?case by simp
next
  case (Cons i "is")
  from Cons.prems(1) show ?case
  proof (cases rule: filter_items_Cons_cases)
    case stop
    with Cons.prems(2) show ?thesis by simp
  next
    case (step i1 flt1 fs1 rq1 is2 rq2)
    from filter_item_step_le [OF step(2)]
    have "getCurrentGeneration flt1 = getCurrentGeneration flt"
      by (simp add: filter_le_def)
    with filter_item_step_stamped [OF step(2)] Cons.IH [OF step(3) Cons.prems(2)] step(4)
    show ?thesis by simp
  qed
qed

lemma filter_subfolders_completed:
  "filter_subfolders chk nas p k flt fs cs = (cs', flt', fs', rq) \<Longrightarrow>
     mCompletedFilterGeneration fs' = mCompletedFilterGeneration fs \<and> length cs' = length cs"
proof (induction cs arbitrary: k flt fs cs' flt' fs' rq)
  case Nil
  then show ?case by simp
next
  case (Cons c cs)
  from Cons.prems show ?case
  proof (cases rule: filter_subfolders_Cons_cases)
    case stop
    then show ?thesis by simp
  next
    case (already c1 fs1 rq1 cs2 rq2)
    from already(3) have "mCompletedFilterGeneration fs1 = mCompletedFilterGeneration fs"
      by (auto split: if_splits dest: track_passed_self [OF sym])
    with Cons.IH [OF already(4)] already(5) show ?thesis by simp
  next
    case (visit c0 flt1 rq0 c1 fs1 rq1 cs2 rq2)
    from visit(4) have "mCompletedFilterGeneration fs1 = mCompletedFilterGeneration fs"
      by (auto simp: requestArrange_if_def requestArrange_here_def split: if_splits
          dest!: track_passed_self [OF sym])
    with Cons.IH [OF visit(5)] visit(6) show ?thesis by simp
  qed
qed



lemma filter_folder_settled:
  assumes "filter_folder chk nas p flt F = (F', flt', rq)" and "0 < getFilterCount flt'"
  shows "folder_settled flt F'"
proof (cases F)
  case (Folder s fs subs its)
  from assms(1) [unfolded Folder] show ?thesis
  proof (cases rule: filter_folder_cases)
    case skip
    then show ?thesis by (simp add: folder_settled_def)
  next
    case (early s1 fs1)
    from filter_self_le [OF early(2)] filter_self_stamped [OF early(2)] early(3,4) assms(2)
    show ?thesis by (auto simp: folder_settled_def filter_le_def)
  next
    case (full s1 fs1 flt1 rq1 subs' flt2 fs2 rq2 its' fs3 rq3)
    have "filter_le flt flt'"
      using assms(1) by (rule filter_folder_le)
    with full(7) assms(2) show ?thesis
      by (simp add: folder_settled_def setCompletedFilterGeneration_def filter_le_def)
  qed
qed

lemma track_passed_settled:
  "track_passed nas g c fs = (c1, fs1, rq) \<Longrightarrow> folder_settled flt c1 = folder_settled flt c"
  by (drule track_passed_self) (simp add: folder_settled_def hasFilteredDescendants_def)

lemma filter_subfolders_visited:
  "filter_subfolders chk nas p k flt fs cs = (cs', flt', fs', rq) \<Longrightarrow> 0 < getFilterCount flt' \<Longrightarrow>
     \<forall>c \<in> set cs'. folder_settled flt c"
proof (induction cs arbitrary: k flt fs cs' flt' fs' rq)
  case Nil
  then show ?case by simp
next
  case (Cons c cs)
  from Cons.prems(1) show ?case
  proof (cases rule: filter_subfolders_Cons_cases)
    case stop
    with Cons.prems(2) show ?thesis by simp
  next
    case (already c1 fs1 rq1 cs2 rq2)
    have "folder_settled flt c" using already(2) by (simp add: folder_settled_def)
    with already(3) have "folder_settled flt c1"
      by (auto split: if_splits simp: track_passed_settled [OF sym])
    with Cons.IH [OF already(4) Cons.prems(2)] already(5) show ?thesis by simp
  next
    case (visit c0 flt1 rq0 c1 fs1 rq1 cs2 rq2)
    have le1: "filter_le flt flt1" using visit(3) by (rule filter_folder_le)
    have le2: "filter_le flt1 flt'" using visit(5) by (rule filter_subfolders_le)
    from le2 Cons.prems(2) have "0 < getFilterCount flt1" by (simp add: filter_le_def)
    with visit(3) have "folder_settled flt c0" by (rule filter_folder_settled)
    with visit(4) have c1: "folder_settled flt c1"
      by (auto split: if_splits simp: track_passed_settled [OF sym])
    have "folder_settled flt1 = folder_settled flt"
      using le1 by (auto simp: folder_settled_def filter_le_def fun_eq_iff)
    with Cons.IH [OF visit(5) Cons.prems(2)] c1 visit(6) show ?thesis by simp
  qed
qed

text \<open>
  C2.  \<open>LLFolderViewFolder::filter\<close>, entered with the folder's completed generation behind the
  current one, sets \<open>mCompletedFilterGeneration\<close> to the current generation only when budget
  remains at the end (\<open>getFilterCount > 0\<close>), and then no loop was cut short: every leaf
  item carries a verdict of the current generation and every sub-folder is settled.
  Whenever the budget is exhausted (\<open>getFilterCount \<le> 0\<close> at the end, which holds as soon
  as it held at any point of the traversal, the budget never growing), the completed
  generation is left as it was, below the current generation.
\<close>

theorem filter_completed_only_after_full_pass:
  assumes run: "filter_folder chk nas p flt (Folder s fs subs its) = (Folder s' fs' subs' its', flt', rq)"
    and behind: "mCompletedFilterGeneration fs < getCurrentGeneration flt"
  shows "(mCompletedFilterGeneration fs' = getCurrentGeneration flt \<longrightarrow>
            0 < getFilterCount flt' \<and>
            length subs' = length subs \<and> length its' = length its \<and>
            (\<forall>c \<in> set subs'. folder_settled flt c) \<and>
            (\<forall>i \<in> set its'. mLastFilterGeneration i \<ge> getCurrentGeneration flt)) \<and>
         (getFilterCount flt' \<le> 0 \<longrightarrow>
            mCompletedFilterGeneration fs' = mCompletedFilterGeneration fs \<and>
            mCompletedFilterGeneration fs' < getCurrentGeneration flt) \<and>
         (mCompletedFilterGeneration fs' = mCompletedFilterGeneration fs \<or>
          mCompletedFilterGeneration fs' = getCurrentGeneration flt)"
  using run
proof (cases rule: filter_folder_cases)
  case skip
  with behind show ?thesis by simp
next
  case (early s1 fs1)
  with filter_self_stamped [OF early(2)] behind show ?thesis by auto
next
  case (full s1 fs1 flt1 rq1 subs2 flt2 fs2 rq2 its2 fs3 rq3)
  have le1: "filter_le flt flt1" using full(2) by (rule filter_self_le)
  have le2: "filter_le flt1 flt2" using full(5) by (rule filter_subfolders_le)
  have le3: "filter_le flt2 flt'" using full(6) by (rule filter_items_le)
  have c3: "mCompletedFilterGeneration fs3 = mCompletedFilterGeneration fs"
    using filter_self_stamped [OF full(2)] filter_subfolders_completed [OF full(5)]
      filter_items_completed [OF full(6)] by simp
  have cur: "getCurrentGeneration flt' = getCurrentGeneration flt"
    "getCurrentGeneration flt2 = getCurrentGeneration flt"
    "getCurrentGeneration flt1 = getCurrentGeneration flt"
    "getMustPassGeneration flt1 = getMustPassGeneration flt"
    using le1 le2 le3 by (simp_all add: filter_le_def)
  from full(7) have parts: "subs' = subs2" "its' = its2"
    "fs' = (if 0 < getFilterCount flt'
            then setCompletedFilterGeneration (getCurrentGeneration flt') fs3 else fs3)"
    by simp_all
  show ?thesis
  proof (cases "0 < getFilterCount flt'")
    case True
    with le3 have pos2: "0 < getFilterCount flt2" by (simp add: filter_le_def)
    have "\<forall>c \<in> set subs2. folder_settled flt1 c"
      using full(5) pos2 by (rule filter_subfolders_visited)
    moreover have "folder_settled flt1 = folder_settled flt"
      using cur by (auto simp: folder_settled_def fun_eq_iff)
    moreover have "\<forall>i \<in> set its2. mLastFilterGeneration i \<ge> getCurrentGeneration flt2"
      using full(6) True by (intro filter_items_visited) auto
    ultimately show ?thesis
      using True parts cur filter_subfolders_completed [OF full(5)] filter_items_completed [OF full(6)]
      by (simp add: setCompletedFilterGeneration_def)
  next
    case False
    with parts c3 behind show ?thesis by simp
  qed
qed







lemmas ex_filter_defs = ex_filter_def ex_failed_def ex_failed_folder_def new_item_def
  new_folder_state_def new_filter_def

theorem filter_completed_only_after_full_pass_witness:
  "(\<exists>s' fs' subs' its' flt' rq.
     filter_folder (\<lambda>_. True) False [] (ex_filter 10) ex_failed_folder
       = (Folder s' fs' subs' its', flt', rq) \<and>
     mCompletedFilterGeneration fs' = 2 \<and> 0 < getFilterCount flt' \<and>
     list_all (\<lambda>i. 2 \<le> mLastFilterGeneration i) its') \<and>
   (\<exists>s' fs' subs' its' flt' rq.
     filter_folder (\<lambda>_. True) False [] (ex_filter 0) ex_failed_folder
       = (Folder s' fs' subs' its', flt', rq) \<and>
     getFilterCount flt' \<le> 0 \<and> mCompletedFilterGeneration fs' = - 1)"
proof (intro conjI)
  obtain s' fs' subs' its' flt' rq where
    run: "filter_folder (\<lambda>_. True) False [] (ex_filter 10)
            (Folder (ex_failed ''f'') new_folder_state [] [ex_failed ''x''])
          = (Folder s' fs' subs' its', flt', rq)"
    by (cases "filter_folder (\<lambda>_. True) False [] (ex_filter 10)
            (Folder (ex_failed ''f'') new_folder_state [] [ex_failed ''x''])")
       (metis folder.exhaust)
  have behind: "mCompletedFilterGeneration new_folder_state < getCurrentGeneration (ex_filter 10)"
    by (simp add: ex_filter_defs)
  have c: "mCompletedFilterGeneration fs' = getCurrentGeneration (ex_filter 10)"
    using run
    by (auto simp add: ex_filter_defs filter_self_def filter_item_step_def getFiltered_gen_def
        item_setFiltered_def Let_def setCompletedFilterGeneration_def hasFilteredDescendants_def)
  have g: "getCurrentGeneration (ex_filter 10) = 2"
    by (simp add: ex_filter_defs)
  from filter_completed_only_after_full_pass [OF run behind] c g
  have "0 < getFilterCount flt'" "\<forall>i \<in> set its'. 2 \<le> mLastFilterGeneration i"
    by simp_all
  with run c g show "\<exists>s' fs' subs' its' flt' rq.
     filter_folder (\<lambda>_. True) False [] (ex_filter 10) ex_failed_folder
       = (Folder s' fs' subs' its', flt', rq) \<and>
     mCompletedFilterGeneration fs' = 2 \<and> 0 < getFilterCount flt' \<and>
     list_all (\<lambda>i. 2 \<le> mLastFilterGeneration i) its'"
    unfolding ex_failed_folder_def list_all_iff by (metis (no_types, lifting))
next
  obtain s' fs' subs' its' flt' rq where
    run: "filter_folder (\<lambda>_. True) False [] (ex_filter 0)
            (Folder (ex_failed ''f'') new_folder_state [] [ex_failed ''x''])
          = (Folder s' fs' subs' its', flt', rq)"
    by (cases "filter_folder (\<lambda>_. True) False [] (ex_filter 0)
            (Folder (ex_failed ''f'') new_folder_state [] [ex_failed ''x''])")
       (metis folder.exhaust)
  have behind: "mCompletedFilterGeneration new_folder_state < getCurrentGeneration (ex_filter 0)"
    by (simp add: ex_filter_defs)
  have c: "getFilterCount flt' \<le> 0"
    using run
    by (auto simp add: ex_filter_defs filter_self_def filter_item_step_def getFiltered_gen_def
        item_setFiltered_def Let_def setCompletedFilterGeneration_def hasFilteredDescendants_def)
  have g: "mCompletedFilterGeneration new_folder_state = - 1"
    by (simp add: ex_filter_defs)
  from filter_completed_only_after_full_pass [OF run behind] c g
  have "mCompletedFilterGeneration fs' = - 1"
    by simp
  with run c show "\<exists>s' fs' subs' its' flt' rq.
     filter_folder (\<lambda>_. True) False [] (ex_filter 0) ex_failed_folder
       = (Folder s' fs' subs' its', flt', rq) \<and>
     getFilterCount flt' \<le> 0 \<and> mCompletedFilterGeneration fs' = - 1"
    unfolding ex_failed_folder_def by (metis (no_types, lifting))
qed


lemma new_checks_same [simp]: "new_checks flt flt = []"
  by (simp add: new_checks_def)

lemma new_checks_append:
  "filter_le a b \<Longrightarrow> filter_le b c \<Longrightarrow> new_checks a c = new_checks b c @ new_checks a b"
  by (auto simp: filter_le_def new_checks_def)

lemma failed_since_le: "filter_le a b \<Longrightarrow> failed_since b = failed_since a"
  by (auto simp: filter_le_def failed_since_def fun_eq_iff)



lemma filter_self_checks:
  "filter_self chk r flt s fs = (s1, fs1, flt1, rq1) \<Longrightarrow> set (new_checks flt flt1) \<subseteq> {r}"
  by (cases "mListener s")
     (auto simp: filter_self_def folder_item_filter_def folder_setFiltered_def Let_def
        new_checks_def split: if_splits)

lemma filter_item_step_checks:
  "filter_item_step chk r flt fs i = (i1, flt1, fs1, rq1) \<Longrightarrow>
     set (new_checks flt flt1) \<subseteq> (if failed_since flt i then {} else {r})"
  by (cases "mListener i")
     (auto simp: filter_item_step_def item_filter_def Let_def failed_since_def getFiltered_gen_def
        new_checks_def split: if_splits)

lemma filter_items_checks:
  "filter_items chk p j0 flt fs is = (is', flt', fs', rq) \<Longrightarrow> r \<in> set (new_checks flt flt') \<Longrightarrow>
     \<exists>j. r = ItemRef p (j0 + j) \<and> j < length is \<and> \<not> failed_since flt (is ! j)"
proof (induction "is" arbitrary: j0 flt fs is' flt' fs' rq)
  case Nil
  then show ?case by simp
next
  case (Cons i "is")
  from Cons.prems(1) show ?case
  proof (cases rule: filter_items_Cons_cases)
    case stop
    with Cons.prems(2) show ?thesis by simp
  next
    case (step i1 flt1 fs1 rq1 is2 rq2)
    have le1: "filter_le flt flt1" using step(2) by (rule filter_item_step_le)
    have le2: "filter_le flt1 flt'" using step(3) by (rule filter_items_le)
    from Cons.prems(2) new_checks_append [OF le1 le2]
    consider "r \<in> set (new_checks flt flt1)" | "r \<in> set (new_checks flt1 flt')" by auto
    then show ?thesis
    proof cases
      case 1
      with filter_item_step_checks [OF step(2)]
      have "r = ItemRef p j0" "\<not> failed_since flt i" by (auto split: if_splits)
      then show ?thesis by (intro exI [of _ 0]) simp
    next
      case 2
      from Cons.IH [OF step(3) 2] obtain j where
        "r = ItemRef p (Suc j0 + j)" "j < length is" "\<not> failed_since flt1 (is ! j)" by blast
      then show ?thesis using failed_since_le [OF le1] by (intro exI [of _ "Suc j"]) simp
    qed
  qed
qed


lemma filter_folder_checks:
  "filter_folder chk nas p flt F = (F', flt', rq) \<Longrightarrow> r \<in> set (new_checks flt flt') \<Longrightarrow>
     prefix p (ref_path r)"
and filter_subfolders_checks:
  "filter_subfolders chk nas p k flt fs cs = (cs', flt', fs', rq2) \<Longrightarrow> r \<in> set (new_checks flt flt') \<Longrightarrow>
     \<exists>k'. prefix (p @ [k']) (ref_path r)"
proof (induction chk nas p flt F and chk nas p k flt fs cs arbitrary: F' flt' rq and cs' flt' fs' rq2
    rule: filter_folder_filter_subfolders.induct)
  case (1 chk nas p flt s fs subs its)
  from "1.prems"(1) show ?case
  proof (cases rule: filter_folder_cases)
    case skip
    with "1.prems"(2) show ?thesis by simp
  next
    case (early s1 fs1)
    with filter_self_checks [OF early(2)] "1.prems"(2) show ?thesis by auto
  next
    case (full s1 fs1 flt1 rq1 subs' flt2 fs2 rq2 its' fs3 rq3)
    have le1: "filter_le flt flt1" using full(2) by (rule filter_self_le)
    have le2: "filter_le flt1 flt2" using full(5) by (rule filter_subfolders_le)
    have le3: "filter_le flt2 flt'" using full(6) by (rule filter_items_le)
    have "new_checks flt flt' = new_checks flt2 flt' @ new_checks flt1 flt2 @ new_checks flt flt1"
      using new_checks_append [OF le1 le2] new_checks_append [OF filter_le_trans [OF le1 le2] le3]
      by simp
    with "1.prems"(2) consider "r \<in> set (new_checks flt flt1)" | "r \<in> set (new_checks flt1 flt2)"
      | "r \<in> set (new_checks flt2 flt')" by auto
    then show ?thesis
    proof cases
      case 1
      with filter_self_checks [OF full(2)] show ?thesis by auto
    next
      case 2
      have "\<exists>k'. prefix (p @ [k']) (ref_path r)"
        using "1.IH" [OF _ full(2) [symmetric] refl refl refl _ _ full(5) 2] full(1,3,4) by auto
      then show ?thesis by (auto dest: append_prefixD)
    next
      case 3
      from filter_items_checks [OF full(6) 3] show ?thesis by auto
    qed
  qed
next
  case (2 chk nas p k flt fs)
  then show ?case by simp
next
  case (3 chk nas p k flt fs c cs)
  from "3.prems"(1) show ?case
  proof (cases rule: filter_subfolders_Cons_cases)
    case stop
    with "3.prems"(2) show ?thesis by simp
  next
    case (already c1 fs1 rq1 cs2 rq2)
    show ?thesis
      using "3.IH"(1) [OF already(1,2) already(3) refl refl already(4) "3.prems"(2)] .
  next
    case (visit c0 flt1 rq0 c1 fs1 rq1 cs2 rq2)
    have le1: "filter_le flt flt1" using visit(3) by (rule filter_folder_le)
    have le2: "filter_le flt1 flt'" using visit(5) by (rule filter_subfolders_le)
    from "3.prems"(2) new_checks_append [OF le1 le2]
    consider "r \<in> set (new_checks flt flt1)" | "r \<in> set (new_checks flt1 flt')" by auto
    then show ?thesis
    proof cases
      case 1
      have "prefix (p @ [k]) (ref_path r)"
        using "3.IH"(2) [OF visit(1) _ visit(3) 1] visit(2) by simp
      then show ?thesis by blast
    next
      case 2
      show ?thesis
        using "3.IH"(3) [OF visit(1) _ visit(3) [symmetric] refl refl refl visit(4) refl refl visit(5) 2] visit(2)
        by simp
    qed
  qed
qed




section \<open>Properties of arrangement\<close>


lemma arrange_folder_phases:
  "arrange_folder env g pind width F =
     (let (F1, width3, rq1) = arrange_layout env g pind width F;
          (F2, rq2) = animate env F1;
          (F3, height', ret) = arrange_finish F2
      in (F3, width3, height', ret, rq1 \<or> rq2))"
  by (cases F) (simp add: arrange_layout_def Let_def split: prod.splits)

lemma LLView_reshape_self_visible [simp]:
  "mVisible (self (LLView_reshape dy w h F)) = mVisible (self F)"
  by (cases F) (simp add: Let_def)

lemma LLView_reshape_children:
  "length (mFolders (LLView_reshape dy w h F)) = length (mFolders F) \<and>
   length (mItems (LLView_reshape dy w h F)) = length (mItems F) \<and>
   (\<forall>k < length (mFolders F).
      mVisible (self (mFolders (LLView_reshape dy w h F) ! k)) = mVisible (self (mFolders F ! k))) \<and>
   (\<forall>j < length (mItems F).
      mVisible (mItems (LLView_reshape dy w h F) ! j) = mVisible (mItems F ! j))"
  by (cases F) (simp add: Let_def)

lemma animate_self_visible [simp]: "mVisible (self (fst (animate env F))) = mVisible (self F)"
  by (cases F) (simp add: animate_def Let_def)

lemma animate_children:
  "length (mFolders (fst (animate env F))) = length (mFolders F) \<and>
   length (mItems (fst (animate env F))) = length (mItems F) \<and>
   (\<forall>k < length (mFolders F).
      mVisible (self (mFolders (fst (animate env F)) ! k)) =
        (mVisible (self (mFolders F ! k)) \<and>
         \<not> (animating (fstate F) \<and>
            folder_beyond env (self F) (mCurHeight (fstate (fst (animate env F)))) (mFolders F ! k)))) \<and>
   (\<forall>j < length (mItems F).
      mVisible (mItems (fst (animate env F)) ! j) =
        (mVisible (mItems F ! j) \<and>
         \<not> (animating (fstate F) \<and>
            item_beyond env (self F) (mCurHeight (fstate (fst (animate env F)))) (mItems F ! j))))"
  by (cases F)
     (auto simp: animate_def Let_def animating_def requestArrange_here_def folder_setVisible_def
        setVisible_def split: folder.splits)

lemma arrange_layout_self_visible [simp]:
  "mVisible (self (fst (arrange_layout env g pind w F))) = mVisible (self F)"
  by (cases F) (simp add: arrange_layout_def Let_def item_arrange_def split: prod.splits)

lemma arrange_folder_self_visible [simp]:
  "mVisible (self (fst (arrange_folder env g pind w F))) = mVisible (self F)"
  unfolding arrange_folder_phases
  by (simp add: Let_def arrange_finish_def split: prod.splits)
     (metis animate_self_visible arrange_layout_self_visible fst_conv)

lemma arrange_subfolders_flags:
  "arrange_subfolders env g ind pih w run tgt cs = (cs', w', run', tgt', rq) \<Longrightarrow>
     length cs' = length cs \<and>
     (\<forall>k < length cs. mVisible (self (cs' ! k)) = child_folder_visible env g (cs ! k))"
proof (induction cs arbitrary: w run tgt cs' w' run' tgt' rq)
  case Nil
  then show ?case by simp
next
  case (Cons c cs)
  obtain sc fsc subsc itsc where c: "c = Folder sc fsc subsc itsc" by (cases c)
  let ?v = "child_folder_visible env g c"
  show ?case
  proof (cases ?v)
    case True
    obtain c2 cw ch ret rq1 where af:
      "arrange_folder env g (Some ind) w (Folder (setVisible True sc) fsc subsc itsc) = (c2, cw, ch, ret, rq1)"
      using prod_cases5 by blast
    obtain cs2 w2 run2 tgt2 rq2 where rc:
      "arrange_subfolders env g ind pih (max w cw) (run + real_of_int ch) (tgt + real_of_int ret) cs
         = (cs2, w2, run2, tgt2, rq2)"
      using prod_cases5 by blast
    have v2: "mVisible (self c2)"
      using arrange_folder_self_visible [of env g "Some ind" w "Folder (setVisible True sc) fsc subsc itsc"] af
      by (simp add: setVisible_def)
    from Cons.prems True c af rc
    have "cs' = folder_setRect (setOrigin 0 (pih - llround run - getHeight (mRect (self c2))) (mRect (self c2))) c2 # cs2"
      by (simp add: Let_def setVisible_def)
    moreover have "mVisible (self (folder_setRect r c2))" for r
      using v2 by (cases c2) (simp add: folder_setRect_def)
    ultimately show ?thesis using Cons.IH [OF rc] True
      by (auto simp: nth_Cons split: nat.splits)
  next
    case False
    obtain cs2 w2 run2 tgt2 rq2 where rc:
      "arrange_subfolders env g ind pih w run tgt cs = (cs2, w2, run2, tgt2, rq2)"
      using prod_cases5 by blast
    from Cons.prems False c rc
    have "cs' = Folder (setVisible False sc) fsc subsc itsc # cs2"
      by (simp add: Let_def setVisible_def)
    then show ?thesis using Cons.IH [OF rc] False
      by (auto simp: nth_Cons setVisible_def split: nat.splits)
  qed
qed

lemma arrange_items_flags:
  "arrange_items env g ind pih w run tgt is = (is', w', run', tgt') \<Longrightarrow>
     length is' = length is \<and>
     (\<forall>j < length is. mVisible (is' ! j) = child_item_visible env g (is ! j))"
proof (induction "is" arbitrary: w run tgt is' w' run' tgt')
  case Nil
  then show ?case by simp
next
  case (Cons i "is")
  show ?case
  proof (cases "child_item_visible env g i")
    case True
    obtain i2 cw ch where ia: "item_arrange env (Some ind) w (setVisible True i) = (i2, cw, ch)"
      using prod_cases3 by blast
    obtain is2 w2 run2 tgt2 where rc:
      "arrange_items env g ind pih (max w cw) (run + real_of_int ch) (tgt + real_of_int ch) is
         = (is2, w2, run2, tgt2)"
      using prod_cases4 by blast
    have v2: "mVisible i2" using ia by (auto simp: item_arrange_def setVisible_def Let_def)
    from Cons.prems True ia rc obtain i4 where "is' = i4 # is2" "mVisible i4 = mVisible i2"
      by (auto simp: Let_def setVisible_def)
    with v2 Cons.IH [OF rc] True show ?thesis
      by (auto simp: nth_Cons split: nat.splits)
  next
    case False
    obtain is2 w2 run2 tgt2 where rc:
      "arrange_items env g ind pih w run tgt is = (is2, w2, run2, tgt2)"
      using prod_cases4 by blast
    from Cons.prems False rc have "is' = setVisible False i # is2"
      by (simp add: Let_def setVisible_def)
    then show ?thesis using Cons.IH [OF rc] False
      by (auto simp: nth_Cons setVisible_def split: nat.splits)
  qed
qed

lemma LLView_reshape_fstate [simp]: "fstate (LLView_reshape dy w h F) = fstate F"
  by (cases F) (simp add: Let_def)

lemma arrange_layout_flags:
  assumes lay: "arrange_layout env g pind w (Folder s fs subs its) = (F1, w1, rq1)"
    and opn: "mIsOpen fs" and need: "needsArrange env fs"
  shows "length (mFolders F1) = length subs \<and> length (mItems F1) = length its \<and>
    (\<forall>k < length subs. mVisible (self (mFolders F1 ! k)) = child_folder_visible env g (subs ! k)) \<and>
    (\<forall>j < length its. mVisible (mItems F1 ! j) = child_item_visible env g (its ! j))"
proof -
  let ?s1 = "s\<lparr>mHasVisibleChildren := hasFilteredDescendants fs g\<rparr>"
  obtain s2 width1 height where ia: "item_arrange env pind w ?s1 = (s2, width1, height)"
    using prod_cases3 by blast
  obtain subs' w1' run1 tgt1 rq where sb:
    "arrange_subfolders env g (mIndentation s2) (getHeight (mRect s2)) width1
       (real_of_int (getItemHeight s2)) (real_of_int (getItemHeight s2)) subs
     = (subs', w1', run1, tgt1, rq)"
    using prod_cases5 by blast
  obtain its' w2 run2 tgt2 where it:
    "arrange_items env g (mIndentation s2) (getHeight (mRect s2)) w1' run1 tgt1 its
     = (its', w2, run2, tgt2)"
    using prod_cases4 by blast
  from lay opn need ia sb it have "mFolders F1 = subs'" "mItems F1 = its'"
    by (auto simp: arrange_layout_def Let_def needsArrange_def)
  with arrange_subfolders_flags [OF sb] arrange_items_flags [OF it] show ?thesis
    by simp
qed

lemma arrange_layout_idle:
  assumes lay: "arrange_layout env g pind w (Folder s fs subs its) = (F1, w1, rq1)"
    and idle: "\<not> (mIsOpen fs \<and> needsArrange env fs)"
  shows "mFolders F1 = subs \<and> mItems F1 = its"
  using lay idle
  by (auto simp: arrange_layout_def Let_def needsArrange_def split: prod.splits if_splits)

lemma arrange_folder_children:
  assumes lay: "arrange_layout env g pind w F = (F1, w1, rq1)"
  shows "length (mFolders (fst (arrange_folder env g pind w F))) = length (mFolders F1) \<and>
    length (mItems (fst (arrange_folder env g pind w F))) = length (mItems F1) \<and>
    (\<forall>k < length (mFolders F1).
       mVisible (self (mFolders (fst (arrange_folder env g pind w F)) ! k)) =
         (mVisible (self (mFolders F1 ! k)) \<and>
          \<not> (animating (fstate F1) \<and>
             folder_beyond env (self F1) (mCurHeight (fstate (fst (arrange_folder env g pind w F))))
               (mFolders F1 ! k)))) \<and>
    (\<forall>j < length (mItems F1).
       mVisible (mItems (fst (arrange_folder env g pind w F)) ! j) =
         (mVisible (mItems F1 ! j) \<and>
          \<not> (animating (fstate F1) \<and>
             item_beyond env (self F1) (mCurHeight (fstate (fst (arrange_folder env g pind w F))))
               (mItems F1 ! j))))"
proof -
  obtain F2 rq2 where an: "animate env F1 = (F2, rq2)" by (cases "animate env F1")
  have res: "fst (arrange_folder env g pind w F)
      = LLView_reshape 0 (getWidth (mRect (self F2))) (llround (mCurHeight (fstate F2))) F2"
    unfolding arrange_folder_phases using lay an by (simp add: arrange_finish_def Let_def)
  have F2: "F2 = fst (animate env F1)" using an by simp
  show ?thesis
    unfolding res using animate_children [of env F1] LLView_reshape_children [of 0 _ _ F2]
    by (simp add: F2)
qed

lemma view_arrange_folders_flags:
  "view_arrange_folders env g ind pih mw tw run tgt cs = (cs', mw', tw', run', tgt', rq) \<Longrightarrow>
     length cs' = length cs \<and>
     (\<forall>k < length cs. mVisible (self (cs' ! k)) = child_folder_visible env g (cs ! k))"
proof (induction cs arbitrary: mw tw run tgt cs' mw' tw' run' tgt' rq)
  case Nil
  then show ?case by simp
next
  case (Cons c cs)
  let ?c1 = "folder_setVisible (child_folder_visible env g c) c"
  have c1: "mVisible (self ?c1) = child_folder_visible env g c"
    by (cases c) (simp add: folder_setVisible_def setVisible_def)
  show ?case
  proof (cases "child_folder_visible env g c")
    case True
    obtain c2 cw ch ret rq1 where af:
      "arrange_folder env g (Some ind) 0 ?c1 = (c2, cw, ch, ret, rq1)"
      using prod_cases5 by blast
    obtain cs2 mw2 tw2 run2 tgt2 rq2 where rc:
      "view_arrange_folders env g ind pih (max mw cw) (max tw cw) (run + ch) (tgt + ret) cs
         = (cs2, mw2, tw2, run2, tgt2, rq2)"
      using prod_cases6 by blast
    have v2: "mVisible (self c2)"
      using af c1 True by (metis arrange_folder_self_visible fst_conv)
    from Cons.prems True c1 af rc
    have "cs' = folder_setRect (setOrigin (ICON_PAD env) (pih - run - getHeight (mRect (self c2))) (mRect (self c2))) c2 # cs2"
      by (simp add: Let_def)
    moreover have "mVisible (self (folder_setRect r c2))" for r
      using v2 by (cases c2) (simp add: folder_setRect_def)
    ultimately show ?thesis using Cons.IH [OF rc] True
      by (auto simp: nth_Cons split: nat.splits)
  next
    case False
    obtain cs2 mw2 tw2 run2 tgt2 rq2 where rc:
      "view_arrange_folders env g ind pih mw tw run tgt cs = (cs2, mw2, tw2, run2, tgt2, rq2)"
      using prod_cases6 by blast
    from Cons.prems False c1 rc have "cs' = ?c1 # cs2"
      by (simp add: Let_def)
    then show ?thesis using Cons.IH [OF rc] False c1
      by (auto simp: nth_Cons split: nat.splits)
  qed
qed

lemma view_arrange_items_flags:
  "view_arrange_items env g ind pih mw tw run tgt is = (is', mw', tw', run', tgt') \<Longrightarrow>
     length is' = length is \<and>
     (\<forall>j < length is. mVisible (is' ! j) = getFiltered_gen (is ! j) g)"
proof (induction "is" arbitrary: mw tw run tgt is' mw' tw' run' tgt')
  case Nil
  then show ?case by simp
next
  case (Cons i "is")
  show ?case
  proof (cases "getFiltered_gen i g")
    case True
    obtain i2 cw ch where ia: "item_arrange env (Some ind) 0 (setVisible True i) = (i2, cw, ch)"
      using prod_cases3 by blast
    obtain is2 mw2 tw2 run2 tgt2 where rc:
      "view_arrange_items env g ind pih (max mw cw) (max tw cw) (run + ch) (tgt + ch) is
         = (is2, mw2, tw2, run2, tgt2)"
      using prod_cases5 by blast
    have v2: "mVisible i2" using ia by (auto simp: item_arrange_def setVisible_def Let_def)
    from Cons.prems True ia rc obtain i4 where "is' = i4 # is2" "mVisible i4 = mVisible i2"
      by (auto simp: Let_def setVisible_def)
    with v2 Cons.IH [OF rc] True show ?thesis
      by (auto simp: nth_Cons split: nat.splits)
  next
    case False
    obtain is2 mw2 tw2 run2 tgt2 where rc:
      "view_arrange_items env g ind pih mw tw run tgt is = (is2, mw2, tw2, run2, tgt2)"
      using prod_cases5 by blast
    from Cons.prems False rc have "is' = setVisible False i # is2"
      by (simp add: Let_def setVisible_def)
    then show ?thesis using Cons.IH [OF rc] False
      by (auto simp: nth_Cons setVisible_def split: nat.splits)
  qed
qed

lemma same_flags_refl: "same_flags F F"
  by (simp add: same_flags_def)

lemma same_flags_trans: "same_flags F G \<Longrightarrow> same_flags G H \<Longrightarrow> same_flags F H"
  by (simp add: same_flags_def)

lemma view_reshape_same_flags: "same_flags F (view_reshape calc mw w h F)"
  unfolding view_reshape_def same_flags_def using LLView_reshape_children by blast

lemma view_arrange_flags:
  assumes va: "view_arrange ui dlh calc v = (v', ret)"
  shows "length (mFolders (root v')) = length (mFolders (root v)) \<and>
    length (mItems (root v')) = length (mItems (root v)) \<and>
    (\<forall>k < length (mFolders (root v)).
       mVisible (self (mFolders (root v') ! k)) =
         child_folder_visible (view_env ui v) (getMinRequiredGeneration (mFilter v))
           (mFolders (root v) ! k)) \<and>
    (\<forall>j < length (mItems (root v)).
       mVisible (mItems (root v') ! j) =
         getFiltered_gen (mItems (root v) ! j) (getMinRequiredGeneration (mFilter v)))"
proof -
  obtain s fs subs its where r: "root v = Folder s fs subs its" by (cases "root v")
  let ?env = "view_env ui v" and ?g = "getMinRequiredGeneration (mFilter v)"
  let ?s1 = "s\<lparr>mHasVisibleChildren := hasFilteredDescendants fs ?g\<rparr>"
  let ?run = "if mDebugFilters v then dlh else 0"
  obtain subs' mw1 tw1 run1 tgt1 rq where sb:
    "view_arrange_folders ?env ?g (mIndentation ?s1) (getHeight (mRect ?s1)) 0 (LEFT_PAD ?env)
       ?run ?run subs = (subs', mw1, tw1, run1, tgt1, rq)"
    using prod_cases6 by blast
  obtain its' mw2 tw2 run2 tgt2 where it:
    "view_arrange_items ?env ?g (mIndentation ?s1) (getHeight (mRect ?s1)) mw1 tw1 run1 tgt1 its
       = (its', mw2, tw2, run2, tgt2)"
    using prod_cases5 by blast
  define F1 where "F1 = Folder ?s1 (requestArrange_if rq (fs\<lparr>mLastArrangeGeneration := arrangeGeneration ?env\<rparr>)) subs' its'"
  define F2 where "F2 = view_reshape calc mw2 (max (calc F1) tw2) run2 F1"
  define F3 where "F3 = (if calc F2 \<noteq> calc F1 then view_reshape calc mw2 (max (calc F1) tw2) run2 F2 else F2)"
  have rv: "root v' = (case F3 of Folder s3 fs3 subs3 its3 \<Rightarrow>
                     Folder s3 (fs3\<lparr>mTargetHeight := real_of_int tgt2\<rparr>) subs3 its3)"
    using va r sb it unfolding F3_def F2_def F1_def by (auto simp: view_arrange_def Let_def)
  have ch: "mFolders (root v') = mFolders F3" "mItems (root v') = mItems F3"
    unfolding rv by (cases F3; simp)+
  have F1: "mFolders F1 = subs'" "mItems F1 = its'" by (simp_all add: F1_def)
  have F2: "same_flags F1 F2"
    unfolding F2_def by (rule view_reshape_same_flags)
  have "same_flags F2 F3"
    unfolding F3_def by (simp add: view_reshape_same_flags same_flags_refl)
  with F2 have "same_flags F1 F3" by (rule same_flags_trans)
  then have F3: "length (mFolders F3) = length subs' \<and> length (mItems F3) = length its' \<and>
     (\<forall>k < length subs'. mVisible (self (mFolders F3 ! k)) = mVisible (self (subs' ! k))) \<and>
     (\<forall>j < length its'. mVisible (mItems F3 ! j) = mVisible (its' ! j))"
    using F1 by (simp add: same_flags_def)
  from view_arrange_folders_flags [OF sb] view_arrange_items_flags [OF it] F3 ch r
  show ?thesis by simp
qed

lemma arrange_layout_fstate:
  "mCurHeight (fstate (fst (arrange_layout env g pind w F)))
     = max (real_of_int (getItemHeight (self F))) (mCurHeight (fstate F)) \<and>
   mIsOpen (fstate (fst (arrange_layout env g pind w F))) = mIsOpen (fstate F)"
  by (cases F)
     (auto simp: arrange_layout_def Let_def item_arrange_def requestArrange_if_def
        requestArrange_here_def split: prod.splits)

lemma animate_fstate:
  "mTargetHeight (fstate (fst (animate env F))) = mTargetHeight (fstate F) \<and>
   mIsOpen (fstate (fst (animate env F))) = mIsOpen (fstate F) \<and>
   mCurHeight (fstate (fst (animate env F))) =
     (if animating (fstate F)
      then lerp (mCurHeight (fstate F)) (mTargetHeight (fstate F))
             (if mIsOpen (fstate F) then interpolantOpen env else interpolantClose env)
      else mTargetHeight (fstate F)) \<and>
   snd (animate env F) = animating (fstate F) \<and>
   mLastArrangeGeneration (fstate (fst (animate env F))) =
     (if animating (fstate F) then - 1 else mLastArrangeGeneration (fstate F)) \<and>
   self (fst (animate env F)) = self F"
  by (cases F) (simp add: animate_def animating_def Let_def requestArrange_here_def)

lemma arrange_folder_fst:
  "fst (arrange_folder env g pind w F) =
     (let F2 = fst (animate env (fst (arrange_layout env g pind w F)))
      in LLView_reshape 0 (getWidth (mRect (self F2))) (llround (mCurHeight (fstate F2))) F2)"
  unfolding arrange_folder_phases
  by (simp add: arrange_finish_def Let_def split: prod.splits)

lemma LLView_reshape_itemHeight [simp]:
  "getItemHeight (self (LLView_reshape dy w h F)) = getItemHeight (self F)"
  by (cases F) (simp add: Let_def)

lemma arrange_layout_itemHeight [simp]:
  "getItemHeight (self (fst (arrange_layout env g pind w F))) = getItemHeight (self F)"
  by (cases F) (simp add: arrange_layout_def Let_def item_arrange_def split: prod.splits)

lemma arrange_folder_fstate:
  "fstate (fst (arrange_folder env g pind w F))
     = fstate (fst (animate env (fst (arrange_layout env g pind w F)))) \<and>
   getItemHeight (self (fst (arrange_folder env g pind w F))) = getItemHeight (self F)"
  by (simp add: arrange_folder_fst Let_def animate_fstate)


lemma arrange_n_itemHeight [simp]:
  "getItemHeight (self (arrange_n env g pind w n F)) = getItemHeight (self F)"
  by (induction n) (simp_all add: arrange_n_def arrange_folder_fstate)

lemma arrange_n_isOpen [simp]:
  "mIsOpen (fstate (arrange_n env g pind w n F)) = mIsOpen (fstate F)"
  by (induction n) (simp_all add: arrange_n_def arrange_folder_fstate animate_fstate arrange_layout_fstate)



lemma llround_of_int [simp]: "llround (real_of_int n) = n"
  by (simp add: llround_def)

lemma llround_numeral [simp]: "llround (numeral n) = numeral n"
  using llround_of_int [of "numeral n"] by simp

text \<open>
  C3, as the claim states it, fails in two ways.  On the open folder \<open>ex_open_folder 0\<close>,
  which does not need arrangement (\<open>needsArrange()\<close> false), the loops that apply the rule do
  not run, and a leaf that passed at the generation stays invisible.  On the open folder
  \<open>ex_shrinking_folder\<close>, whose height is animating, the step of lines 1146-1176 hides a
  visible leaf that passed at the generation.
\<close>

theorem arrange_rule_counterexample:
  "mIsOpen (fstate (ex_open_folder 0)) \<and>
   child_item_visible ex_env 0 (mItems (ex_open_folder 0) ! 0) \<and>
   \<not> mVisible (mItems (fst (arrange_folder ex_env 0 None 0 (ex_open_folder 0))) ! 0) \<and>
   mIsOpen (fstate ex_shrinking_folder) \<and>
   child_item_visible ex_env 0 (mItems ex_shrinking_folder ! 0) \<and>
   mVisible (mItems ex_shrinking_folder ! 0) \<and>
   \<not> mVisible (mItems (fst (arrange_folder ex_env 0 None 0 ex_shrinking_folder)) ! 0)"
  by (simp add: ex_open_folder_def ex_shrinking_folder_def ex_env_def ex_passed_def new_item_def
      new_folder_state_def child_item_visible_def getFiltered_gen_def item_arrange_def
      needsArrange_def animate_def arrange_finish_def Let_def item_beyond_def lerp_def
      getHeight_def setVisible_def requestArrange_here_def)

text \<open>
  C3 (amended).  During \<open>arrange()\<close> of an open folder other than the root that needs
  arrangement, at filter generation \<open>g\<close>, the loops set the visible flag of every child by the
  rule: a sub-folder is visible iff debug mode is on, or the policy is "always show all
  folders", or it passed at \<open>g\<close>, or a descendant of it passed at \<open>g\<close>; a leaf item iff debug
  mode is on or it passed at \<open>g\<close>.  In a folder that is closed or does not need arrangement
  the loops do not run and every child goes on with the flag it had.  In both cases the
  animation step at the end of the same call, while the animated height is more than one unit
  from the target, hides the children that lie beyond the animated height, so the flag a
  child is left with is the flag of the loops (or the flag it had) and not beyond the
  height.  In the root's \<open>arrange()\<close>, at the filter's minimum required generation,
  sub-folders get the same rule and, debug mode being off, a leaf item is visible iff it
  passed.
\<close>

theorem arrange_visibility_rule:
  "(arrange_layout env g pind w (Folder s fs subs its) = (F1, w1, rq1) \<and> mIsOpen fs \<and>
    needsArrange env fs \<longrightarrow>
      (\<forall>k < length subs.
         mVisible (self (mFolders F1 ! k)) = child_folder_visible env g (subs ! k) \<and>
         mVisible (self (mFolders (fst (arrange_folder env g pind w (Folder s fs subs its))) ! k)) =
           (child_folder_visible env g (subs ! k) \<and>
            \<not> (animating (fstate F1) \<and>
               folder_beyond env (self F1)
                 (mCurHeight (fstate (fst (arrange_folder env g pind w (Folder s fs subs its)))))
                 (mFolders F1 ! k)))) \<and>
      (\<forall>j < length its.
         mVisible (mItems F1 ! j) = child_item_visible env g (its ! j) \<and>
         mVisible (mItems (fst (arrange_folder env g pind w (Folder s fs subs its))) ! j) =
           (child_item_visible env g (its ! j) \<and>
            \<not> (animating (fstate F1) \<and>
               item_beyond env (self F1)
                 (mCurHeight (fstate (fst (arrange_folder env g pind w (Folder s fs subs its)))))
                 (mItems F1 ! j))))) \<and>
   (arrange_layout env g pind w (Folder s fs subs its) = (F1, w1, rq1) \<and>
    \<not> (mIsOpen fs \<and> needsArrange env fs) \<longrightarrow>
      (\<forall>k < length subs.
         mVisible (self (mFolders F1 ! k)) = mVisible (self (subs ! k)) \<and>
         mVisible (self (mFolders (fst (arrange_folder env g pind w (Folder s fs subs its))) ! k)) =
           (mVisible (self (subs ! k)) \<and>
            \<not> (animating (fstate F1) \<and>
               folder_beyond env (self F1)
                 (mCurHeight (fstate (fst (arrange_folder env g pind w (Folder s fs subs its)))))
                 (subs ! k)))) \<and>
      (\<forall>j < length its.
         mVisible (mItems F1 ! j) = mVisible (its ! j) \<and>
         mVisible (mItems (fst (arrange_folder env g pind w (Folder s fs subs its))) ! j) =
           (mVisible (its ! j) \<and>
            \<not> (animating (fstate F1) \<and>
               item_beyond env (self F1)
                 (mCurHeight (fstate (fst (arrange_folder env g pind w (Folder s fs subs its)))))
                 (its ! j))))) \<and>
   (view_arrange ui dlh calc v = (v', ret) \<longrightarrow>
      (\<forall>k < length (mFolders (root v)).
         mVisible (self (mFolders (root v') ! k)) =
           child_folder_visible (view_env ui v) (getMinRequiredGeneration (mFilter v))
             (mFolders (root v) ! k)) \<and>
      (\<not> mDebugFilters v \<longrightarrow>
         (\<forall>j < length (mItems (root v)).
            mVisible (mItems (root v') ! j) =
              child_item_visible (view_env ui v) (getMinRequiredGeneration (mFilter v))
                (mItems (root v) ! j))))"
proof (intro conjI impI)
  assume a: "arrange_layout env g pind w (Folder s fs subs its) = (F1, w1, rq1) \<and> mIsOpen fs \<and>
    needsArrange env fs"
  then have lay: "arrange_layout env g pind w (Folder s fs subs its) = (F1, w1, rq1)"
    and opn: "mIsOpen fs" and need: "needsArrange env fs" by simp_all
  note fl = arrange_layout_flags [OF lay opn need]
  note ch = arrange_folder_children [OF lay]
  show "\<forall>k < length subs.
         mVisible (self (mFolders F1 ! k)) = child_folder_visible env g (subs ! k) \<and>
         mVisible (self (mFolders (fst (arrange_folder env g pind w (Folder s fs subs its))) ! k)) =
           (child_folder_visible env g (subs ! k) \<and>
            \<not> (animating (fstate F1) \<and>
               folder_beyond env (self F1)
                 (mCurHeight (fstate (fst (arrange_folder env g pind w (Folder s fs subs its)))))
                 (mFolders F1 ! k)))"
    using fl ch by simp
  show "\<forall>j < length its.
         mVisible (mItems F1 ! j) = child_item_visible env g (its ! j) \<and>
         mVisible (mItems (fst (arrange_folder env g pind w (Folder s fs subs its))) ! j) =
           (child_item_visible env g (its ! j) \<and>
            \<not> (animating (fstate F1) \<and>
               item_beyond env (self F1)
                 (mCurHeight (fstate (fst (arrange_folder env g pind w (Folder s fs subs its)))))
                 (mItems F1 ! j)))"
    using fl ch by simp
next
  assume a: "arrange_layout env g pind w (Folder s fs subs its) = (F1, w1, rq1) \<and>
    \<not> (mIsOpen fs \<and> needsArrange env fs)"
  then have lay: "arrange_layout env g pind w (Folder s fs subs its) = (F1, w1, rq1)"
    and idle: "\<not> (mIsOpen fs \<and> needsArrange env fs)" by simp_all
  note same = arrange_layout_idle [OF lay idle]
  note ch = arrange_folder_children [OF lay]
  show "\<forall>k < length subs.
         mVisible (self (mFolders F1 ! k)) = mVisible (self (subs ! k)) \<and>
         mVisible (self (mFolders (fst (arrange_folder env g pind w (Folder s fs subs its))) ! k)) =
           (mVisible (self (subs ! k)) \<and>
            \<not> (animating (fstate F1) \<and>
               folder_beyond env (self F1)
                 (mCurHeight (fstate (fst (arrange_folder env g pind w (Folder s fs subs its)))))
                 (subs ! k)))"
    using same ch by simp
  show "\<forall>j < length its.
         mVisible (mItems F1 ! j) = mVisible (its ! j) \<and>
         mVisible (mItems (fst (arrange_folder env g pind w (Folder s fs subs its))) ! j) =
           (mVisible (its ! j) \<and>
            \<not> (animating (fstate F1) \<and>
               item_beyond env (self F1)
                 (mCurHeight (fstate (fst (arrange_folder env g pind w (Folder s fs subs its)))))
                 (its ! j)))"
    using same ch by simp
next
  assume va: "view_arrange ui dlh calc v = (v', ret)"
  from view_arrange_flags [OF va]
  show "\<forall>k < length (mFolders (root v)).
         mVisible (self (mFolders (root v') ! k)) =
           child_folder_visible (view_env ui v) (getMinRequiredGeneration (mFilter v))
             (mFolders (root v) ! k)"
    by simp
  assume "\<not> mDebugFilters v"
  with view_arrange_flags [OF va]
  show "\<forall>j < length (mItems (root v)).
            mVisible (mItems (root v') ! j) =
              child_item_visible (view_env ui v) (getMinRequiredGeneration (mFilter v))
                (mItems (root v) ! j)"
    by (simp add: child_item_visible_def view_env_def)
qed

theorem arrange_visibility_rule_witness:
  "mVisible (mItems (fst (arrange_layout ex_env 0 None 0 (ex_open_folder (- 1)))) ! 0) =
     child_item_visible ex_env 0 (mItems (ex_open_folder (- 1)) ! 0) \<and>
   mVisible (mItems (root (fst (view_arrange ex_env 0 (\<lambda>_. 0)
        ((new_view ''inv'' 20)\<lparr>root := ex_open_folder (- 1)\<rparr>)))) ! 0) =
     child_item_visible (view_env ex_env ((new_view ''inv'' 20)\<lparr>root := ex_open_folder (- 1)\<rparr>)) 0
       (mItems (ex_open_folder (- 1)) ! 0) \<and>
   mVisible (mItems (fst (arrange_folder ex_env 0 None 0 ex_shrinking_folder)) ! 0) =
     (mVisible (mItems ex_shrinking_folder ! 0) \<and>
      \<not> (animating (fstate (fst (arrange_layout ex_env 0 None 0 ex_shrinking_folder))) \<and>
         item_beyond ex_env (self (fst (arrange_layout ex_env 0 None 0 ex_shrinking_folder)))
           (mCurHeight (fstate (fst (arrange_folder ex_env 0 None 0 ex_shrinking_folder))))
           (mItems ex_shrinking_folder ! 0)))"
proof -
  let ?fs = "new_folder_state\<lparr>mIsOpen := True, mLastArrangeGeneration := - 1,
          mCurHeight := 20, mTargetHeight := 20\<rparr>"
  let ?its = "[(ex_passed ''x'')\<lparr>mVisible := False\<rparr>]"
  let ?F = "Folder (ex_passed ''f'') ?fs [] ?its"
  let ?v = "(new_view ''inv'' 20)\<lparr>root := ex_open_folder (- 1)\<rparr>"
  have F: "ex_open_folder (- 1) = ?F" by (simp add: ex_open_folder_def)
  obtain F1 w1 rq1 where lay: "arrange_layout ex_env 0 None 0 ?F = (F1, w1, rq1)"
    using prod_cases3 by blast
  obtain v' ret where va: "view_arrange ex_env 0 (\<lambda>_. 0) ?v = (v', ret)"
    by (cases "view_arrange ex_env 0 (\<lambda>_. 0) ?v")
  have opn: "mIsOpen ?fs" by simp
  have need: "needsArrange ex_env ?fs" by (simp add: needsArrange_def ex_env_def)
  have j: "0 < length ?its" by simp
  have dbg: "\<not> mDebugFilters ?v" by (simp add: new_view_def)
  have j2: "0 < length (mItems (root ?v))" by (simp add: F)
  have g: "getMinRequiredGeneration (mFilter ?v) = 0" by (simp add: new_view_def new_filter_def)
  from arrange_visibility_rule [of ex_env 0 None 0 "ex_passed ''f''" ?fs "[]" ?its F1 w1 rq1
      ex_env 0 "\<lambda>_. 0" ?v v' ret] lay opn need j
  have 1: "mVisible (mItems F1 ! 0) = child_item_visible ex_env 0 (?its ! 0)"
    by blast
  from arrange_visibility_rule [of ex_env 0 None 0 "ex_passed ''f''" ?fs "[]" ?its F1 w1 rq1
      ex_env 0 "\<lambda>_. 0" ?v v' ret] va dbg j2
  have 2: "mVisible (mItems (root v') ! 0) =
      child_item_visible (view_env ex_env ?v) (getMinRequiredGeneration (mFilter ?v)) (mItems (root ?v) ! 0)"
    by blast
  let ?gs = "new_folder_state\<lparr>mIsOpen := True, mLastArrangeGeneration := 0,
          mCurHeight := 100, mTargetHeight := 20\<rparr>"
  let ?t = "(ex_passed ''f'')\<lparr>mRect := \<lparr>mLeft = 0, mTop = 100, mRight = 0, mBottom = 0\<rparr>\<rparr>"
  let ?jts = "[(ex_passed ''x'')\<lparr>mRect := \<lparr>mLeft = 0, mTop = 20, mRight = 0, mBottom = 0\<rparr>\<rparr>]"
  let ?G = "Folder ?t ?gs [] ?jts"
  have G: "ex_shrinking_folder = ?G" by (simp add: ex_shrinking_folder_def)
  obtain G1 u1 rr1 where lay2: "arrange_layout ex_env 0 None 0 ?G = (G1, u1, rr1)"
    using prod_cases3 by blast
  have idle: "\<not> (mIsOpen ?gs \<and> needsArrange ex_env ?gs)"
    by (simp add: needsArrange_def ex_env_def)
  have j3: "0 < length ?jts" by simp
  from arrange_visibility_rule [of ex_env 0 None 0 ?t ?gs "[]" ?jts G1 u1 rr1
      ex_env 0 "\<lambda>_. 0" ?v v' ret] lay2 idle j3
  have 3: "mVisible (mItems (fst (arrange_folder ex_env 0 None 0 ?G)) ! 0) =
           (mVisible (?jts ! 0) \<and>
            \<not> (animating (fstate G1) \<and>
               item_beyond ex_env (self G1)
                 (mCurHeight (fstate (fst (arrange_folder ex_env 0 None 0 ?G))))
                 (?jts ! 0)))"
    by blast
  have 12: "mVisible (mItems (fst (arrange_layout ex_env 0 None 0 (ex_open_folder (- 1)))) ! 0) =
     child_item_visible ex_env 0 (mItems (ex_open_folder (- 1)) ! 0) \<and>
   mVisible (mItems (root (fst (view_arrange ex_env 0 (\<lambda>_. 0) ?v))) ! 0) =
     child_item_visible (view_env ex_env ?v) 0 (mItems (ex_open_folder (- 1)) ! 0)"
    using 1 2 lay va g by (simp add: F)
  have 33: "mVisible (mItems (fst (arrange_folder ex_env 0 None 0 ex_shrinking_folder)) ! 0) =
     (mVisible (mItems ex_shrinking_folder ! 0) \<and>
      \<not> (animating (fstate (fst (arrange_layout ex_env 0 None 0 ex_shrinking_folder))) \<and>
         item_beyond ex_env (self (fst (arrange_layout ex_env 0 None 0 ex_shrinking_folder)))
           (mCurHeight (fstate (fst (arrange_folder ex_env 0 None 0 ex_shrinking_folder))))
           (mItems ex_shrinking_folder ! 0)))"
    unfolding G using 3 lay2 by simp
  from 12 33 show ?thesis by blast
qed





section \<open>Navigation: the walks and the flattened ordering\<close>

lemma first_of_simps [simp]: "first_of [] = None" "first_of (x # xs) = Some x"
  by (simp_all add: first_of_def)

lemma first_of_append: "first_of (xs @ ys) = (case first_of xs of Some x \<Rightarrow> Some x | None \<Rightarrow> first_of ys)"
  by (cases xs) simp_all

lemma get_folder_snoc_iff:
  "get_folder t (q @ [k]) = Some F \<longleftrightarrow>
     (\<exists>F'. get_folder t q = Some F' \<and> k < length (mFolders F') \<and> F = mFolders F' ! k)"
  by (induction q arbitrary: t) (auto split: if_splits)

lemma get_folder_parent:
  assumes "get_folder t p = Some F" "p \<noteq> []"
  obtains F' where "get_folder t (butlast p) = Some F'" "last p < length (mFolders F')"
    "mFolders F' ! last p = F"
proof -
  from assms(2) have "p = butlast p @ [last p]" by simp
  with assms(1) have "get_folder t (butlast p @ [last p]) = Some F" by simp
  then show ?thesis using that unfolding get_folder_snoc_iff by blast
qed

lemma next_loop_visible:
  "getNextFromChild t p item inc = res \<Longrightarrow> next_loop t this res inc = Returns res"
proof (cases res)
  case None
  then show ?thesis by (simp add: next_loop.simps)
next
  case (Some r)
  assume "getNextFromChild t p item inc = res"
  with Some have "getVisible t r" by (auto intro: getNextFromChild_visible)
  with Some show ?thesis by (simp add: next_loop.simps)
qed

lemma getNextOpenNode_eq:
  "getNextOpenNode t r inc =
     (case getParentFolder r of
        None \<Rightarrow> Returns None
      | Some p \<Rightarrow> Returns (getNextFromChild t p (Some r) inc))"
  by (simp add: getNextOpenNode_def next_loop_visible split: option.splits)

lemma getPreviousOpenNode_visible:
  "getParentFolder r = Some p \<Longrightarrow> getPreviousFromChild t p (Some r) inc = Some s \<Longrightarrow>
   getVisible t s \<Longrightarrow> getPreviousOpenNode t r inc = Returns (Some s)"
  by (simp add: getPreviousOpenNode_def prev_loop.simps)

text \<open>The shape of \<open>flat_folders\<close> and of \<open>tail_from\<close>.\<close>

lemma flat_folders_invisible:
  "\<forall>c \<in> set cs. \<not> mVisible (self c) \<Longrightarrow> flat_folders p k cs = []"
  by (induction cs arbitrary: k) simp_all

lemma flat_folders_append:
  "flat_folders p k (cs @ ds) = flat_folders p k cs @ flat_folders p (k + length cs) ds"
  by (induction cs arbitrary: k) simp_all

lemma flat_folders_drop:
  assumes "fi \<le> k" "k < length subs"
    "\<forall>k'. fi \<le> k' \<and> k' < k \<longrightarrow> \<not> mVisible (self (subs ! k'))"
  shows "flat_folders p fi (drop fi subs) = flat_folders p k (drop k subs)"
proof -
  have "drop fi subs = take (k - fi) (drop fi subs) @ drop k subs"
    using assms(1) by (metis append_take_drop_id drop_drop le_add_diff_inverse2)
  moreover have "\<forall>c \<in> set (take (k - fi) (drop fi subs)). \<not> mVisible (self c)"
  proof
    fix c assume "c \<in> set (take (k - fi) (drop fi subs))"
    then obtain i where i: "i < length (take (k - fi) (drop fi subs))"
      "c = take (k - fi) (drop fi subs) ! i"
      by (auto simp: in_set_conv_nth)
    then have "i < k - fi" "c = subs ! (fi + i)" using assms(2) by auto
    with assms(3) show "\<not> mVisible (self c)" by auto
  qed
  moreover have "length (take (k - fi) (drop fi subs)) = k - fi"
    using assms(1,2) by auto
  ultimately show ?thesis
    using flat_folders_append [of p fi "take (k - fi) (drop fi subs)" "drop k subs"]
      flat_folders_invisible [of "take (k - fi) (drop fi subs)" p fi] assms(1)
    by simp
qed

lemma flat_folders_at:
  assumes "k < length subs"
  shows "flat_folders p k (drop k subs) =
     (if mVisible (self (subs ! k))
      then FolderRef (p @ [k]) # (if mIsOpen (fstate (subs ! k)) then flat (p @ [k]) (subs ! k) else [])
      else [])
     @ flat_folders p (Suc k) (drop (Suc k) subs)"
proof -
  from assms have "drop k subs = subs ! k # drop (Suc k) subs"
    by (simp add: Cons_nth_drop_Suc)
  then show ?thesis by simp
qed

lemma flat_folders_first:
  assumes "fi \<le> length (mFolders F)"
  shows "(case next_visible_folder F fi of
            Some k \<Rightarrow>
              k < length (mFolders F) \<and> fi \<le> k \<and> mVisible (self (mFolders F ! k)) \<and>
              flat_folders p fi (drop fi (mFolders F)) =
                FolderRef (p @ [k])
                # (if mIsOpen (fstate (mFolders F ! k)) then flat (p @ [k]) (mFolders F ! k) else [])
                @ flat_folders p (Suc k) (drop (Suc k) (mFolders F))
          | None \<Rightarrow> flat_folders p fi (drop fi (mFolders F)) = [])"
proof (cases "next_visible_folder F fi")
  case None
  then have "\<forall>c \<in> set (drop fi (mFolders F)). \<not> mVisible (self c)"
    by (auto simp: next_visible_folder_def find_upt_None in_set_conv_nth)
  with None show ?thesis by (simp add: flat_folders_invisible)
next
  case (Some k)
  then have k: "fi \<le> k" "k < length (mFolders F)" "mVisible (self (mFolders F ! k))"
    "\<forall>k'. fi \<le> k' \<and> k' < k \<longrightarrow> \<not> mVisible (self (mFolders F ! k'))"
    by (simp_all add: next_visible_folder_def find_upt_Some)
  from flat_folders_drop [OF k(1,2,4)] flat_folders_at [OF k(2)] k(3) Some k(1,2)
  show ?thesis by simp
qed

lemma filter_upt_first:
  assumes "i \<le> j" "j < n" "P j" "\<forall>k. i \<le> k \<and> k < j \<longrightarrow> \<not> P k"
  shows "filter P [i..<n] = j # filter P [Suc j..<n]"
proof -
  have "[i..<n] = [i..<j] @ j # [Suc j..<n]"
    using assms(1,2) by (metis le_Suc_ex less_imp_le_nat upt_add_eq_append upt_conv_Cons)
  moreover have "filter P [i..<j] = []" using assms(4) by (auto simp: filter_empty_conv)
  ultimately show ?thesis using assms(3) by simp
qed

lemma flat_items_first:
  "(case next_visible_item F ii of
      Some j \<Rightarrow>
        j < length (mItems F) \<and> ii \<le> j \<and> mVisible (mItems F ! j) \<and>
        map (ItemRef p) (filter (\<lambda>j. mVisible (mItems F ! j)) [ii..<length (mItems F)]) =
          ItemRef p j # map (ItemRef p) (filter (\<lambda>j. mVisible (mItems F ! j)) [Suc j..<length (mItems F)])
    | None \<Rightarrow> map (ItemRef p) (filter (\<lambda>j. mVisible (mItems F ! j)) [ii..<length (mItems F)]) = [])"
proof (cases "next_visible_item F ii")
  case None
  then have "filter (\<lambda>j. mVisible (mItems F ! j)) [ii..<length (mItems F)] = []"
    by (auto simp: next_visible_item_def find_upt_None filter_empty_conv)
  with None show ?thesis by simp
next
  case (Some j)
  then have j: "ii \<le> j" "j < length (mItems F)" "mVisible (mItems F ! j)"
    "\<forall>k. ii \<le> k \<and> k < j \<longrightarrow> \<not> mVisible (mItems F ! k)"
    by (simp_all add: next_visible_item_def find_upt_Some)
  from filter_upt_first [of ii j "length (mItems F)" "\<lambda>j. mVisible (mItems F ! j)", OF j] Some j
  show ?thesis by simp
qed

lemma tail_from_first:
  assumes "fi \<le> length (mFolders F)"
  shows "first_of (tail_from p F fi ii) =
     (case next_visible_folder F fi of
        Some k \<Rightarrow> Some (FolderRef (p @ [k]))
      | None \<Rightarrow> (case next_visible_item F ii of Some j \<Rightarrow> Some (ItemRef p j) | None \<Rightarrow> None))"
  using flat_folders_first [OF assms, where p = p] flat_items_first [where F = F and ii = ii and p = p]
  by (auto simp: tail_from_def first_of_append split: option.splits)

lemma tail_from_empty:
  assumes "fi \<le> length (mFolders F)"
  shows "tail_from p F fi ii = [] \<longleftrightarrow> next_visible_folder F fi = None \<and> next_visible_item F ii = None"
  using flat_folders_first [OF assms, where p = p] flat_items_first [where F = F and ii = ii and p = p]
  by (auto simp: tail_from_def split: option.splits)

text \<open>The scan of \<open>getNextFromChild\<close> returns the head of \<open>following\<close>.\<close>

lemma next_scan_following:
  "get_folder t p = Some F \<Longrightarrow> fi \<le> length (mFolders F) \<Longrightarrow>
     (case next_visible_folder F fi of
        Some k \<Rightarrow> Some (FolderRef (p @ [k]))
      | None \<Rightarrow>
          (case next_visible_item F ii of
             Some j \<Rightarrow> Some (ItemRef p j)
           | None \<Rightarrow>
               if p \<noteq> [] then getNextFromChild t (butlast p) (Some (FolderRef p)) False
               else None))
     = first_of (following t p fi ii)"
proof (induction "length p" arbitrary: p F fi ii)
  case 0
  then have p: "p = []" by simp
  with "0.prems" show ?case
    by (subst following.simps) (auto simp: tail_from_first first_of_append split: option.splits)
next
  case (Suc n)
  then have pne: "p \<noteq> []" by auto
  from get_folder_parent [OF Suc.prems(1) pne] obtain F' where
    F': "get_folder t (butlast p) = Some F'" "last p < length (mFolders F')"
      "mFolders F' ! last p = F" by blast
  have len: "n = length (butlast p)" using Suc.hyps(2) by simp
  have start: "next_start (butlast p) F' (Some (FolderRef p)) False = Scan (Suc (last p)) 0"
    using pne F'(2) by (simp add: next_start_def folder_index_def)
  have up: "getNextFromChild t (butlast p) (Some (FolderRef p)) False
      = first_of (following t (butlast p) (Suc (last p)) 0)"
    using Suc.hyps(1) [OF len F'(1), of "Suc (last p)" 0] F'(2) F'(1) start
    by (subst getNextFromChild.simps) simp
  show ?case
    using Suc.prems pne up
    by (subst following.simps)
       (auto simp: tail_from_first first_of_append split: option.splits)
qed

lemma reachable_Nil [simp]: "reachable t []"
  by (simp add: reachable_def)

lemma reachable_snoc:
  "reachable t (p @ [k]) \<longleftrightarrow>
     reachable t p \<and> getVisible t (FolderRef (p @ [k])) \<and> isOpen t (FolderRef (p @ [k]))"
  by (auto simp: reachable_def prefix_snoc)

lemma tail_from_all: "tail_from p F 0 0 = flat p F"
  by (cases F) (simp add: tail_from_def)

lemma up_from_snoc: "up_from t (p @ [k]) = following t p (Suc k) 0"
  by (simp add: up_from_def)

lemma following_eq:
  "get_folder t p = Some F \<Longrightarrow> following t p fi ii = tail_from p F fi ii @ up_from t p"
  by (subst following.simps) (simp add: up_from_def)

lemma filter_upt_split:
  assumes "j < n" "P j"
  shows "filter P [0..<n] = filter P [0..<j] @ j # filter P [Suc j..<n]"
proof -
  have "[0..<n] = [0..<j] @ j # [Suc j..<n]"
    using assms(1) by (metis le0 le_Suc_ex less_imp_le_nat upt_add_eq_append upt_conv_Cons)
  then show ?thesis using assms(2) by simp
qed

lemma listed_all:
  "(\<forall>pre. get_folder t p = Some F \<longrightarrow> reachable t p \<longrightarrow>
      flattened t = pre @ flat p F @ up_from t p \<longrightarrow> (\<forall>r \<in> set (flat p F). listed t r))"
  "(\<forall>pre G. get_folder t p = Some G \<longrightarrow> reachable t p \<longrightarrow> k \<le> length (mFolders G) \<longrightarrow>
      cs = drop k (mFolders G) \<longrightarrow>
      flattened t = pre @ flat_folders p k cs
         @ map (ItemRef p) (filter (\<lambda>j. mVisible (mItems G ! j)) [0..<length (mItems G)])
         @ up_from t p \<longrightarrow>
      (\<forall>r \<in> set (flat_folders p k cs). listed t r))"
proof (induction p F and p k cs rule: flat_flat_folders.induct)
  case (1 p s fs subs its)
  show ?case
  proof (intro allI impI ballI)
    fix pre r
    let ?F = "Folder s fs subs its"
    assume F: "get_folder t p = Some ?F" and reach: "reachable t p"
      and fl: "flattened t = pre @ flat p ?F @ up_from t p"
      and r: "r \<in> set (flat p ?F)"
    let ?items = "map (ItemRef p) (filter (\<lambda>j. mVisible (its ! j)) [0..<length its])"
    from r consider "r \<in> set (flat_folders p 0 subs)" | "r \<in> set ?items" by auto
    then show "listed t r"
    proof cases
      case 1
      have "flattened t = pre @ flat_folders p 0 subs
         @ map (ItemRef p) (filter (\<lambda>j. mVisible (mItems ?F ! j)) [0..<length (mItems ?F)])
         @ up_from t p"
        using fl by simp
      with "1.IH" F reach 1 show ?thesis by (auto simp del: flat.simps)
    next
      case 2
      then obtain j where j: "r = ItemRef p j" "j < length its" "mVisible (its ! j)" by auto
      have sp: "?items = map (ItemRef p) (filter (\<lambda>j. mVisible (its ! j)) [0..<j])
          @ ItemRef p j # map (ItemRef p) (filter (\<lambda>j. mVisible (its ! j)) [Suc j..<length its])"
        using filter_upt_split [of j "length its" "\<lambda>j. mVisible (its ! j)"] j by simp
      have rest: "rest_after t r
          = map (ItemRef p) (filter (\<lambda>j. mVisible (its ! j)) [Suc j..<length its]) @ up_from t p"
        using F j by (simp add: rest_after_def following_eq tail_from_def)
      have "flattened t = (pre @ flat_folders p 0 subs
            @ map (ItemRef p) (filter (\<lambda>j. mVisible (its ! j)) [0..<j])) @ r # rest_after t r"
        using fl sp rest j by simp
      moreover have "getVisible t r" using F j by (simp add: getVisible_def get_node_child_item)
      moreover have "child_of t r p" using F j by (simp add: child_of_def)
      ultimately show ?thesis using reach unfolding listed_def by blast
    qed
  qed
next
  case (2 p k)
  show ?case by simp
next
  case (3 p k c cs)
  show ?case
  proof (intro allI impI ballI)
    fix pre G r
    assume G: "get_folder t p = Some G" and reach: "reachable t p"
      and k: "k \<le> length (mFolders G)" and cs: "c # cs = drop k (mFolders G)"
      and fl: "flattened t = pre @ flat_folders p k (c # cs)
         @ map (ItemRef p) (filter (\<lambda>j. mVisible (mItems G ! j)) [0..<length (mItems G)])
         @ up_from t p"
      and r: "r \<in> set (flat_folders p k (c # cs))"
    let ?items = "map (ItemRef p) (filter (\<lambda>j. mVisible (mItems G ! j)) [0..<length (mItems G)])"
    let ?here = "if mVisible (self c)
      then FolderRef (p @ [k]) # (if mIsOpen (fstate c) then flat (p @ [k]) c else [])
      else []"
    from cs have kl: "k < length (mFolders G)"
      by (metis drop_all leI list.distinct(1))
    from cs kl have c: "c = mFolders G ! k" and cs': "cs = drop (Suc k) (mFolders G)"
      by (simp_all add: Cons_nth_drop_Suc [symmetric])
    have Gc: "get_folder t (p @ [k]) = Some c"
      using G kl c by (simp add: get_folder_snoc)
    have tail: "flat_folders p (Suc k) cs @ ?items @ up_from t p = following t p (Suc k) 0"
      using G cs' by (simp add: following_eq tail_from_def)
    from r consider "r \<in> set ?here" | "r \<in> set (flat_folders p (Suc k) cs)" by auto
    then show "listed t r"
    proof cases
      case 2
      have "flattened t = (pre @ ?here) @ flat_folders p (Suc k) cs @ ?items @ up_from t p"
        using fl by simp
      with "3.IH"(2) G reach kl cs' 2 show ?thesis
        by (metis Suc_leI)
    next
      case 1
      then have vis: "mVisible (self c)" by (auto split: if_splits)
      have gv: "getVisible t (FolderRef (p @ [k]))"
        using G kl c vis by (simp add: getVisible_def get_node_child_folder)
      from 1 vis consider "r = FolderRef (p @ [k])"
        | "mIsOpen (fstate c)" "r \<in> set (flat (p @ [k]) c)"
        by (auto split: if_splits)
      then show ?thesis
      proof cases
        case 1
        have "rest_after t r = (if mIsOpen (fstate c) then flat (p @ [k]) c else [])
            @ following t p (Suc k) 0"
          using 1 Gc by (simp add: rest_after_def up_from_snoc)
        then have "flattened t = pre @ r # rest_after t r"
          using fl vis 1 tail by simp
        moreover have "child_of t r p" using G kl 1 by (simp add: child_of_def)
        ultimately show ?thesis using gv 1 reach unfolding listed_def by blast
      next
        case 2
        have "reachable t (p @ [k])"
          using reach gv 2(1) Gc by (simp add: reachable_snoc isOpen_def)
        moreover have "flattened t = (pre @ [FolderRef (p @ [k])]) @ flat (p @ [k]) c @ up_from t (p @ [k])"
          using fl vis 2(1) tail by (simp add: up_from_snoc)
        ultimately show ?thesis using "3.IH"(1) [OF vis 2(1)] Gc 2(2) by blast
      qed
    qed
  qed
qed

lemma flattened_listed: "r \<in> set (flattened t) \<Longrightarrow> listed t r"
proof -
  assume "r \<in> set (flattened t)"
  moreover have "flattened t = [] @ flat [] t @ up_from t []"
    by (simp add: flattened_def up_from_def)
  ultimately show ?thesis
    using listed_all(1) [of t "[]" t] by (simp add: flattened_def)
qed

lemma getNextFromChild_listed:
  assumes ch: "child_of t r q"
  shows "getNextFromChild t q (Some r) True = first_of (rest_after t r)"
proof -
  from ch obtain F where F: "get_folder t q = Some F"
    by (auto simp: child_of_def split: option.splits)
  show ?thesis
  proof (cases r)
    case (ItemRef q' j)
    with ch F have j: "q' = q" "j < length (mItems F)" by (simp_all add: child_of_def)
    have st: "next_start q F (Some r) True = Scan (length (mFolders F)) (Suc j)"
      using ItemRef j by (simp add: next_start_def folder_index_def item_index_def)
    show ?thesis
      using next_scan_following [OF F, of "length (mFolders F)" "Suc j"] F st ItemRef j
      by (subst getNextFromChild.simps) (simp add: rest_after_def)
  next
    case (FolderRef q')
    with ch F obtain k where k: "k < length (mFolders F)" "q' = q @ [k]"
      by (auto simp: child_of_def)
    let ?c = "mFolders F ! k"
    have Gc: "get_folder t (q @ [k]) = Some ?c" using F k by (simp add: get_folder_snoc)
    show ?thesis
    proof (cases "mIsOpen (fstate ?c)")
      case True
      have st: "next_start q F (Some r) True = Descend k"
        using FolderRef k True by (simp add: next_start_def folder_index_def)
      have st2: "next_start (q @ [k]) ?c None True = Scan 0 0"
        by (simp add: next_start_def)
      have "getNextFromChild t (q @ [k]) None True = first_of (following t (q @ [k]) 0 0)"
        using next_scan_following [OF Gc, of 0 0] Gc st2
        by (subst getNextFromChild.simps) simp
      then have "getNextFromChild t q (Some r) True = first_of (following t (q @ [k]) 0 0)"
        using F st by (subst getNextFromChild.simps) simp
      then show ?thesis
        using FolderRef k Gc True
        by (simp add: rest_after_def following_eq tail_from_all)
    next
      case False
      have st: "next_start q F (Some r) True = Scan (Suc k) 0"
        using FolderRef k False by (simp add: next_start_def folder_index_def)
      show ?thesis
        using next_scan_following [OF F, of "Suc k" 0] F st FolderRef k Gc False
        by (subst getNextFromChild.simps) (simp add: rest_after_def up_from_snoc)
    qed
  qed
qed

lemma child_of_parent: "child_of t r q \<Longrightarrow> getParentFolder r = Some q"
  by (cases r) (auto simp: child_of_def getParentFolder_def split: option.splits)

lemma getNextOpenNode_listed:
  "listed t r \<Longrightarrow> getNextOpenNode t r True = Returns (first_of (rest_after t r))"
proof -
  assume "listed t r"
  then obtain q where q: "child_of t r q" by (auto simp: listed_def)
  from child_of_parent [OF q] getNextFromChild_listed [OF q] show ?thesis
    by (simp add: getNextOpenNode_eq)
qed

lemma find_next_prev_Some:
  "find P [Suc k..<n] = Some k' \<Longrightarrow> P k \<Longrightarrow> find P (rev [0..<k']) = Some k"
  unfolding find_upt_Some find_rev_upt_Some by (auto simp: Suc_le_eq)

lemma find_next_prev_None:
  "find P [Suc k..<n] = None \<Longrightarrow> P k \<Longrightarrow> k < n \<Longrightarrow> find P (rev [0..<n]) = Some k"
  unfolding find_upt_None find_rev_upt_Some by (auto simp: Suc_le_eq)

lemma find_first_prev_Some:
  "find P [0..<n] = Some k' \<Longrightarrow> find P (rev [0..<k']) = None"
  unfolding find_upt_Some find_rev_upt_None by auto

lemma find_first_prev_None:
  "find P [0..<n] = None \<Longrightarrow> m \<le> n \<Longrightarrow> find P (rev [0..<m]) = None"
  unfolding find_upt_None find_rev_upt_None by auto

lemma getNextFromChild_Scan:
  "get_folder t p = Some F \<Longrightarrow> next_start p F item inc = Scan fi ii \<Longrightarrow>
   getNextFromChild t p item inc =
     (case next_visible_folder F fi of
        Some k \<Rightarrow> Some (FolderRef (p @ [k]))
      | None \<Rightarrow>
          (case next_visible_item F ii of
             Some j \<Rightarrow> Some (ItemRef p j)
           | None \<Rightarrow>
               if p \<noteq> [] then getNextFromChild t (butlast p) (Some (FolderRef p)) False
               else None))"
  by (subst getNextFromChild.simps) simp

lemma getPreviousFromChild_Scan:
  assumes "get_folder t p = Some F" "prev_start p F item = Scan fi ii"
  shows "getPreviousFromChild t p item inc =
     (case prev_visible_item F ii of
        Some j \<Rightarrow> Some (ItemRef p j)
      | None \<Rightarrow>
          (case prev_visible_folder F fi of
             Some k \<Rightarrow> last_in t (FolderRef (p @ [k]))
           | None \<Rightarrow> Some (FolderRef p)))"
proof -
  have "last_in t (FolderRef (p @ [k])) =
      (if mIsOpen (fstate (mFolders F ! k)) then getPreviousFromChild t (p @ [k]) None True
       else Some (FolderRef (p @ [k])))"
    if "prev_visible_folder F fi = Some k" for k
  proof -
    from prev_visible_folder_less [OF that] prev_start_bounds [OF assms(2)]
    have "k < length (mFolders F)" by simp
    with assms(1) show ?thesis by (simp add: last_in_def isOpen_def get_folder_snoc)
  qed
  with assms show ?thesis
    by (subst getPreviousFromChild.simps) (simp split: option.splits)
qed

lemma prev_start_None:
  "prev_start p F None = Scan (length (mFolders F)) (length (mItems F))"
  by (simp add: prev_start_def)

lemma prev_start_folder:
  "k < length (mFolders F) \<Longrightarrow> prev_start p F (Some (FolderRef (p @ [k]))) = Scan k 0"
  by (simp add: prev_start_def item_index_def folder_index_def)

lemma prev_start_item:
  "j < length (mItems F) \<Longrightarrow> prev_start p F (Some (ItemRef p j)) = Scan (length (mFolders F)) j"
  by (simp add: prev_start_def item_index_def)

lemma next_start_folder_False:
  "k < length (mFolders F) \<Longrightarrow> next_start p F (Some (FolderRef (p @ [k]))) False = Scan (Suc k) 0"
  by (simp add: next_start_def folder_index_def)

lemma next_start_item:
  "j < length (mItems F) \<Longrightarrow>
     next_start p F (Some (ItemRef p j)) inc = Scan (length (mFolders F)) (Suc j)"
  by (simp add: next_start_def folder_index_def item_index_def)

lemma next_visible_folder_end: "next_visible_folder F (length (mFolders F)) = None"
  by (simp add: next_visible_folder_def)

lemma prev_visible_item_0: "prev_visible_item F 0 = None"
  by (simp add: prev_visible_item_def)

text \<open>From the node found after a visible child without descending into it, the backwards
  walk lands in that child.\<close>

lemma prev_of_next_sibling:
  "get_folder t p = Some F \<Longrightarrow> reachable t p \<Longrightarrow> child_of t N p \<Longrightarrow> getVisible t N \<Longrightarrow>
   getNextFromChild t p (Some N) False = Some S \<Longrightarrow>
   \<exists>q. getParentFolder S = Some q \<and> getPreviousFromChild t q (Some S) True = last_in t N"
proof (induction "length p" arbitrary: p F N S)
  case 0
  then have p: "p = []" by simp
  note F = "0.prems"(1)
  show ?case
  proof (cases N)
    case (FolderRef q')
    with "0.prems"(3) F obtain k where k: "k < length (mFolders F)" "N = FolderRef (p @ [k])"
      by (auto simp: child_of_def)
    have vk: "mVisible (self (mFolders F ! k))"
      using "0.prems"(4) k F by (simp add: getVisible_def get_node_child_folder)
    note nx = "0.prems"(5) [unfolded k(2) getNextFromChild_Scan [OF F next_start_folder_False [OF k(1)]]]
    show ?thesis
    proof (cases "next_visible_folder F (Suc k)")
      case (Some k')
      with nx have S: "S = FolderRef (p @ [k'])" by simp
      from Some have k': "k' < length (mFolders F)"
        by (simp add: next_visible_folder_def find_upt_Some)
      have pv: "prev_visible_folder F k' = Some k"
        using Some vk unfolding visible_scan_defs by (rule find_next_prev_Some)
      have "getPreviousFromChild t p (Some S) True = last_in t N"
        unfolding S getPreviousFromChild_Scan [OF F prev_start_folder [OF k']]
        by (simp add: prev_visible_item_0 pv k(2))
      then show ?thesis by (simp add: S getParentFolder_def)
    next
      case nf: None
      have pvf: "prev_visible_folder F (length (mFolders F)) = Some k"
        using nf vk k(1) unfolding visible_scan_defs by (rule find_next_prev_None)
      show ?thesis
      proof (cases "next_visible_item F 0")
        case (Some j')
        with nx nf have S: "S = ItemRef p j'" by simp
        from Some have j': "j' < length (mItems F)"
          by (simp add: next_visible_item_def find_upt_Some)
        have pv: "prev_visible_item F j' = None"
          using Some unfolding visible_scan_defs by (rule find_first_prev_Some)
        have "getPreviousFromChild t p (Some S) True = last_in t N"
          unfolding S getPreviousFromChild_Scan [OF F prev_start_item [OF j']]
          by (simp add: pv pvf k(2))
        then show ?thesis by (simp add: S getParentFolder_def)
      next
        case None
        with nx nf p show ?thesis by simp
      qed
    qed
  next
    case (ItemRef q' j)
    with "0.prems"(3) F have j: "j < length (mItems F)" "N = ItemRef p j"
      by (auto simp: child_of_def)
    have vj: "mVisible (mItems F ! j)"
      using "0.prems"(4) j F by (simp add: getVisible_def get_node_child_item)
    note nx = "0.prems"(5) [unfolded j(2) getNextFromChild_Scan [OF F next_start_item [OF j(1)]]]
    show ?thesis
    proof (cases "next_visible_item F (Suc j)")
      case (Some j')
      with nx have S: "S = ItemRef p j'" by (simp add: next_visible_folder_end)
      from Some have j': "j' < length (mItems F)"
        by (simp add: next_visible_item_def find_upt_Some)
      have pv: "prev_visible_item F j' = Some j"
        using Some vj unfolding visible_scan_defs by (rule find_next_prev_Some)
      have "getPreviousFromChild t p (Some S) True = last_in t N"
        unfolding S getPreviousFromChild_Scan [OF F prev_start_item [OF j']]
        by (simp add: pv j(2) last_in_def)
      then show ?thesis by (simp add: S getParentFolder_def)
    next
      case None
      with nx p show ?thesis by (simp add: next_visible_folder_end)
    qed
  qed
next
  case (Suc n)
  then have pne: "p \<noteq> []" by auto
  note F = Suc.prems(1)
  from get_folder_parent [OF F pne] obtain F' where
    F': "get_folder t (butlast p) = Some F'" "last p < length (mFolders F')"
      "mFolders F' ! last p = F" by blast
  have len: "n = length (butlast p)" using Suc.hyps(2) by simp
  have pp: "butlast p @ [last p] = p" using pne by simp
  have reach': "reachable t (butlast p)" and visp: "getVisible t (FolderRef p)"
    and openp: "isOpen t (FolderRef p)"
    using Suc.prems(2) reachable_snoc [of t "butlast p" "last p"] pp by simp_all
  have chp: "child_of t (FolderRef p) (butlast p)"
    using F' pp by (auto simp: child_of_def)
  have up: "\<exists>q. getParentFolder S = Some q \<and>
      getPreviousFromChild t q (Some S) True = getPreviousFromChild t p None True"
    if "getNextFromChild t (butlast p) (Some (FolderRef p)) False = Some S"
    using Suc.hyps(1) [OF len F'(1) reach' chp visp that] openp by (simp add: last_in_def)
  note pn = getPreviousFromChild_Scan [OF F prev_start_None, of True]
  show ?case
  proof (cases N)
    case (FolderRef q')
    with Suc.prems(3) F obtain k where k: "k < length (mFolders F)" "N = FolderRef (p @ [k])"
      by (auto simp: child_of_def)
    have vk: "mVisible (self (mFolders F ! k))"
      using Suc.prems(4) k F by (simp add: getVisible_def get_node_child_folder)
    note nx = Suc.prems(5) [unfolded k(2) getNextFromChild_Scan [OF F next_start_folder_False [OF k(1)]]]
    show ?thesis
    proof (cases "next_visible_folder F (Suc k)")
      case (Some k')
      with nx have S: "S = FolderRef (p @ [k'])" by simp
      from Some have k': "k' < length (mFolders F)"
        by (simp add: next_visible_folder_def find_upt_Some)
      have pv: "prev_visible_folder F k' = Some k"
        using Some vk unfolding visible_scan_defs by (rule find_next_prev_Some)
      have "getPreviousFromChild t p (Some S) True = last_in t N"
        unfolding S getPreviousFromChild_Scan [OF F prev_start_folder [OF k']]
        by (simp add: prev_visible_item_0 pv k(2))
      then show ?thesis by (simp add: S getParentFolder_def)
    next
      case nf: None
      have pvf: "prev_visible_folder F (length (mFolders F)) = Some k"
        using nf vk k(1) unfolding visible_scan_defs by (rule find_next_prev_None)
      show ?thesis
      proof (cases "next_visible_item F 0")
        case (Some j')
        with nx nf have S: "S = ItemRef p j'" by simp
        from Some have j': "j' < length (mItems F)"
          by (simp add: next_visible_item_def find_upt_Some)
        have pv: "prev_visible_item F j' = None"
          using Some unfolding visible_scan_defs by (rule find_first_prev_Some)
        have "getPreviousFromChild t p (Some S) True = last_in t N"
          unfolding S getPreviousFromChild_Scan [OF F prev_start_item [OF j']]
          by (simp add: pv pvf k(2))
        then show ?thesis by (simp add: S getParentFolder_def)
      next
        case None
        have pv: "prev_visible_item F (length (mItems F)) = None"
          using None unfolding visible_scan_defs by (rule find_first_prev_None) simp
        from nx nf None pne
        have "getNextFromChild t (butlast p) (Some (FolderRef p)) False = Some S" by simp
        from up [OF this] show ?thesis
          unfolding pn by (simp add: pv pvf k(2))
      qed
    qed
  next
    case (ItemRef q' j)
    with Suc.prems(3) F have j: "j < length (mItems F)" "N = ItemRef p j"
      by (auto simp: child_of_def)
    have vj: "mVisible (mItems F ! j)"
      using Suc.prems(4) j F by (simp add: getVisible_def get_node_child_item)
    note nx = Suc.prems(5) [unfolded j(2) getNextFromChild_Scan [OF F next_start_item [OF j(1)]]]
    show ?thesis
    proof (cases "next_visible_item F (Suc j)")
      case (Some j')
      with nx have S: "S = ItemRef p j'" by (simp add: next_visible_folder_end)
      from Some have j': "j' < length (mItems F)"
        by (simp add: next_visible_item_def find_upt_Some)
      have pv: "prev_visible_item F j' = Some j"
        using Some vj unfolding visible_scan_defs by (rule find_next_prev_Some)
      have "getPreviousFromChild t p (Some S) True = last_in t N"
        unfolding S getPreviousFromChild_Scan [OF F prev_start_item [OF j']]
        by (simp add: pv j(2) last_in_def)
      then show ?thesis by (simp add: S getParentFolder_def)
    next
      case None
      have pv: "prev_visible_item F (length (mItems F)) = Some j"
        using None vj j(1) unfolding visible_scan_defs by (rule find_next_prev_None)
      from nx None pne
      have "getNextFromChild t (butlast p) (Some (FolderRef p)) False = Some S"
        by (simp add: next_visible_folder_end)
      from up [OF this] show ?thesis
        unfolding pn by (simp add: pv j(2) last_in_def)
    qed
  qed
qed

lemma last_in_leaf:
  "get_folder t q = Some Fq \<Longrightarrow> child_of t r q \<Longrightarrow> \<not> isOpen t r \<Longrightarrow> last_in t r = Some r"
  by (cases r) (auto simp: last_in_def)

lemma next_start_closed:
  "\<not> isOpen t r \<Longrightarrow> get_folder t q = Some Fq \<Longrightarrow> child_of t r q \<Longrightarrow>
     next_start q Fq (Some r) True = next_start q Fq (Some r) False"
  by (cases r)
     (auto simp: next_start_def folder_index_def child_of_def isOpen_def get_folder_snoc)

lemma getNextFromChild_closed:
  assumes "\<not> isOpen t r" "get_folder t q = Some Fq" "child_of t r q"
  shows "getNextFromChild t q (Some r) True = getNextFromChild t q (Some r) False"
  using next_start_closed [OF assms]
  by (subst getNextFromChild.simps, subst (2) getNextFromChild.simps) (simp add: assms(2))

lemma prev_of_next_listed:
  assumes ch: "child_of t r q" and reach: "reachable t q" and vis: "getVisible t r"
    and nx: "getNextFromChild t q (Some r) True = Some s"
  shows "\<exists>q'. getParentFolder s = Some q' \<and> getPreviousFromChild t q' (Some s) True = Some r"
proof -
  from ch obtain Fq where Fq: "get_folder t q = Some Fq"
    by (auto simp: child_of_def split: option.splits)
  show ?thesis
  proof (cases "isOpen t r")
    case False
    from nx getNextFromChild_closed [OF False Fq ch]
    have "getNextFromChild t q (Some r) False = Some s" by simp
    from prev_of_next_sibling [OF Fq reach ch vis this] last_in_leaf [OF Fq ch False]
    show ?thesis by simp
  next
    case True
    then obtain p where r: "r = FolderRef p" by (cases r) (auto simp: isOpen_def)
    with ch Fq obtain k where k: "k < length (mFolders Fq)" "p = q @ [k]"
      by (auto simp: child_of_def)
    let ?c = "mFolders Fq ! k"
    have c: "get_folder t p = Some ?c" using Fq k by (simp add: get_folder_snoc)
    have op: "mIsOpen (fstate ?c)" using True r c by (simp add: isOpen_def)
    have st: "next_start q Fq (Some r) True = Descend k"
      using r k op by (simp add: next_start_def folder_index_def)
    have "getNextFromChild t q (Some r) True = getNextFromChild t p None True"
      using Fq st k by (subst getNextFromChild.simps) simp
    with nx have nx': "getNextFromChild t p None True = Some s" by simp
    have st0: "next_start p ?c None True = Scan 0 0" by (simp add: next_start_def)
    note sc = nx' [unfolded getNextFromChild_Scan [OF c st0]]
    show ?thesis
    proof (cases "next_visible_folder ?c 0")
      case (Some k')
      with sc have s: "s = FolderRef (p @ [k'])" by simp
      from Some have k': "k' < length (mFolders ?c)"
        by (simp add: next_visible_folder_def find_upt_Some)
      have pv: "prev_visible_folder ?c k' = None"
        using Some unfolding visible_scan_defs by (rule find_first_prev_Some)
      have "getPreviousFromChild t p (Some s) True = Some r"
        unfolding s getPreviousFromChild_Scan [OF c prev_start_folder [OF k']]
        by (simp add: prev_visible_item_0 pv r)
      then show ?thesis by (simp add: s getParentFolder_def)
    next
      case nf: None
      have pvf: "prev_visible_folder ?c (length (mFolders ?c)) = None"
        using nf unfolding visible_scan_defs by (rule find_first_prev_None) simp
      show ?thesis
      proof (cases "next_visible_item ?c 0")
        case (Some j')
        with sc nf have s: "s = ItemRef p j'" by simp
        from Some have j': "j' < length (mItems ?c)"
          by (simp add: next_visible_item_def find_upt_Some)
        have pv: "prev_visible_item ?c j' = None"
          using Some unfolding visible_scan_defs by (rule find_first_prev_Some)
        have "getPreviousFromChild t p (Some s) True = Some r"
          unfolding s getPreviousFromChild_Scan [OF c prev_start_item [OF j']]
          by (simp add: pv pvf r)
        then show ?thesis by (simp add: s getParentFolder_def)
      next
        case None
        have pv: "prev_visible_item ?c (length (mItems ?c)) = None"
          using None unfolding visible_scan_defs by (rule find_first_prev_None) simp
        from sc nf None k
        have "getNextFromChild t q (Some r) False = Some s" by (simp add: r)
        from prev_of_next_sibling [OF Fq reach ch vis this] obtain q' where
          q': "getParentFolder s = Some q'"
            "getPreviousFromChild t q' (Some s) True = last_in t r" by blast
        have "last_in t r = getPreviousFromChild t p None True"
          using True by (simp add: last_in_def r)
        also have "\<dots> = Some r"
          unfolding getPreviousFromChild_Scan [OF c prev_start_None]
          by (simp add: r pv pvf)
        finally show ?thesis using q' by simp
      qed
    qed
  qed
qed

text \<open>
  Claim C7.  For every node \<open>r\<close> of the flattened folders-before-items ordering other than its
  last node, \<open>getNextOpenNode\<close> returns a node \<open>s\<close> and \<open>getPreviousOpenNode\<close> of \<open>s\<close> returns
  \<open>r\<close>.
\<close>

theorem navigation_round_trip:
  assumes "r \<in> set (flattened t)" "r \<noteq> last (flattened t)"
  shows "\<exists>s. getNextOpenNode t r True = Returns (Some s) \<and>
             getPreviousOpenNode t s True = Returns (Some r)"
proof -
  from flattened_listed [OF assms(1)] have l: "listed t r" .
  then obtain pre q where fl: "flattened t = pre @ r # rest_after t r"
    and vis: "getVisible t r" and ch: "child_of t r q" and reach: "reachable t q"
    by (auto simp: listed_def)
  have "rest_after t r \<noteq> []"
  proof
    assume "rest_after t r = []"
    with fl have "last (flattened t) = r" by simp
    with assms(2) show False by simp
  qed
  then obtain s where s: "first_of (rest_after t r) = Some s"
    by (cases "rest_after t r") simp_all
  with getNextOpenNode_listed [OF l] have nx: "getNextOpenNode t r True = Returns (Some s)"
    by simp
  from getNextFromChild_listed [OF ch] s
  have "getNextFromChild t q (Some r) True = Some s" by simp
  from prev_of_next_listed [OF ch reach vis this] obtain q' where
    "getParentFolder s = Some q'" "getPreviousFromChild t q' (Some s) True = Some r" by blast
  from getPreviousOpenNode_visible [OF this vis] nx show ?thesis by blast
qed

text \<open>No node occurs twice in the flattened ordering.\<close>

lemma prefix_snoc_Cons: "prefix (p @ k # ks) a \<Longrightarrow> prefix (p @ [k]) a"
  by (auto simp: prefix_def)

lemma flat_addr:
  "r \<in> set (flat p F) \<Longrightarrow> (\<exists>k. prefix (p @ [k]) (addr r)) \<or> (\<exists>j. r = ItemRef p j)"
  "r \<in> set (flat_folders p k cs) \<Longrightarrow> \<exists>k' \<ge> k. prefix (p @ [k']) (addr r)"
proof (induction p F and p k cs arbitrary: r and r rule: flat_flat_folders.induct)
  case (1 p s fs subs its)
  then show ?case by auto
next
  case (2 p k)
  then show ?case by simp
next
  case (3 p k c cs)
  from "3.prems" consider "mVisible (self c)" "r = FolderRef (p @ [k])"
    | "mVisible (self c)" "mIsOpen (fstate c)" "r \<in> set (flat (p @ [k]) c)"
    | "r \<in> set (flat_folders p (Suc k) cs)"
    by (auto split: if_splits)
  then show ?case
  proof cases
    case 1
    then show ?thesis by auto
  next
    case 2
    from "3.IH"(1) [OF 2] show ?thesis
    proof
      assume "\<exists>k'. prefix ((p @ [k]) @ [k']) (addr r)"
      then have "prefix (p @ [k]) (addr r)" by (auto dest: prefix_snoc_Cons)
      then show ?thesis by auto
    next
      assume "\<exists>j. r = ItemRef (p @ [k]) j"
      then show ?thesis by auto
    qed
  next
    case 3
    from "3.IH"(2) [OF 3] show ?thesis by (auto intro: Suc_leD)
  qed
qed

lemma prefix_snoc_same: "prefix (p @ [k]) a \<Longrightarrow> prefix (p @ [k']) a \<Longrightarrow> k = k'"
  by (auto simp: prefix_def append_eq_append_conv2 Cons_eq_append_conv)

lemma flat_distinct:
  "distinct (flat p F)"
  "distinct (flat_folders p k cs)"
proof (induction p F and p k cs rule: flat_flat_folders.induct)
  case (1 p s fs subs its)
  have "distinct (map (ItemRef p) (filter (\<lambda>j. mVisible (its ! j)) [0..<length its]))"
    by (simp add: distinct_map inj_on_def)
  moreover have "r \<notin> set (map (ItemRef p) (filter (\<lambda>j. mVisible (its ! j)) [0..<length its]))"
    if "r \<in> set (flat_folders p 0 subs)" for r
    using flat_addr(2) [OF that] by (auto simp: prefix_def)
  ultimately show ?case using 1 by auto
next
  case (2 p k)
  show ?case by simp
next
  case (3 p k c cs)
  let ?here = "if mVisible (self c)
      then FolderRef (p @ [k]) # (if mIsOpen (fstate c) then flat (p @ [k]) c else [])
      else []"
  have a: "prefix (p @ [k]) (addr r)" if "r \<in> set ?here" for r
    using that flat_addr(1) [of r "p @ [k]" c]
    by (auto split: if_splits dest: prefix_snoc_Cons)
  have "FolderRef (p @ [k]) \<notin> set (flat (p @ [k]) c)"
    using flat_addr(1) [of "FolderRef (p @ [k])" "p @ [k]" c] by (auto simp: prefix_def)
  then have d: "distinct ?here" using "3.IH"(1) by simp
  have "r \<notin> set (flat_folders p (Suc k) cs)" if "r \<in> set ?here" for r
  proof
    assume "r \<in> set (flat_folders p (Suc k) cs)"
    from flat_addr(2) [OF this] obtain k' where "Suc k \<le> k'" "prefix (p @ [k']) (addr r)" by blast
    with a [OF that] prefix_snoc_same [of p k "addr r" k'] show False by simp
  qed
  with d "3.IH"(2) show ?case by (simp del: flat.simps) blast
qed

lemma flattened_distinct: "distinct (flattened t)"
  by (simp add: flattened_def flat_distinct del: flat.simps)

lemma getNextOpenNode_last:
  assumes "flattened t \<noteq> []"
  shows "getNextOpenNode t (last (flattened t)) True = Returns None"
proof -
  let ?r = "last (flattened t)"
  from assms have "?r \<in> set (flattened t)" by simp
  from flattened_listed [OF this] have l: "listed t ?r" .
  then obtain pre where fl: "flattened t = pre @ ?r # rest_after t ?r"
    by (auto simp: listed_def)
  have "rest_after t ?r = []"
  proof (rule ccontr)
    assume ne: "rest_after t ?r \<noteq> []"
    with fl have "last (flattened t) = last (rest_after t ?r)"
      by (metis last_ConsR last_appendR list.distinct(1))
    with ne have "?r \<in> set (rest_after t ?r)" by (metis last_in_set)
    moreover have "distinct (pre @ ?r # rest_after t ?r)"
      using flattened_distinct [of t] fl by simp
    ultimately show False by simp
  qed
  with getNextOpenNode_listed [OF l] show ?thesis by simp
qed

lemma getPreviousFromChild_first:
  assumes "flattened t \<noteq> []"
  shows "getParentFolder (hd (flattened t)) = Some [] \<and>
         getPreviousFromChild t [] (Some (hd (flattened t))) True = Some Root"
proof -
  have t: "get_folder t [] = Some t" by simp
  from assms obtain r where r: "first_of (flattened t) = Some r" "hd (flattened t) = r"
    by (cases "flattened t") simp_all
  have "flattened t = tail_from [] t 0 0" by (simp add: flattened_def tail_from_all)
  with r(1) have f: "(case next_visible_folder t 0 of
        Some k \<Rightarrow> Some (FolderRef ([] @ [k]))
      | None \<Rightarrow> (case next_visible_item t 0 of Some j \<Rightarrow> Some (ItemRef [] j) | None \<Rightarrow> None))
      = Some r"
    using tail_from_first [of 0 t "[]" 0] by simp
  show ?thesis
  proof (cases "next_visible_folder t 0")
    case (Some k)
    with f have rk: "r = FolderRef ([] @ [k])" by simp
    from Some have k: "k < length (mFolders t)"
      by (simp add: next_visible_folder_def find_upt_Some)
    have pv: "prev_visible_folder t k = None"
      using Some unfolding visible_scan_defs by (rule find_first_prev_Some)
    have "getPreviousFromChild t [] (Some r) True = Some Root"
      unfolding rk getPreviousFromChild_Scan [OF t prev_start_folder [OF k]]
      by (simp add: prev_visible_item_0 pv)
    then show ?thesis using r(2) rk by (simp add: getParentFolder_def)
  next
    case nf: None
    have pvf: "prev_visible_folder t (length (mFolders t)) = None"
      using nf unfolding visible_scan_defs by (rule find_first_prev_None) simp
    show ?thesis
    proof (cases "next_visible_item t 0")
      case None
      with f nf show ?thesis by simp
    next
      case (Some j)
      with f nf have rj: "r = ItemRef [] j" by simp
      from Some have j: "j < length (mItems t)"
        by (simp add: next_visible_item_def find_upt_Some)
      have pv: "prev_visible_item t j = None"
        using Some unfolding visible_scan_defs by (rule find_first_prev_Some)
      have "getPreviousFromChild t [] (Some r) True = Some Root"
        unfolding rj getPreviousFromChild_Scan [OF t prev_start_item [OF j]]
        by (simp add: pv pvf)
      then show ?thesis using r(2) rj by (simp add: getParentFolder_def)
    qed
  qed
qed

lemma getPreviousOpenNode_first:
  assumes "flattened t \<noteq> []"
  shows "getPreviousOpenNode t (hd (flattened t)) True =
     (if getVisible t Root then Returns (Some Root) else NullDereference)"
  using getPreviousFromChild_first [OF assms]
  by (simp add: getPreviousOpenNode_def prev_loop.simps getParentFolder_def)

text \<open>
  In \<open>ex_nav\<close> nothing follows the item \<open>z\<close> and nothing precedes the folder \<open>A\<close>.
  \<open>getNextOpenNode\<close> of \<open>z\<close> returns \<open>NULL\<close> and \<open>getPreviousOpenNode\<close> of \<open>A\<close> returns the root
  folder: neither returns the node it was invoked on.
\<close>

theorem open_node_edges_counterexample:
  "flattened ex_nav = [FolderRef [0], ItemRef [0] 0, ItemRef [] 0, ItemRef [] 2] \<and>
   getNextOpenNode ex_nav (ItemRef [] 2) True = Returns None \<and>
   getPreviousOpenNode ex_nav (FolderRef [0]) True = Returns (Some Root)"
proof (intro conjI)
  show "flattened ex_nav = [FolderRef [0], ItemRef [0] 0, ItemRef [] 0, ItemRef [] 2]"
    by (simp add: flattened_def ex_nav_def new_item_def upt_rec)
  show "getNextOpenNode ex_nav (ItemRef [] 2) True = Returns None"
    by (simp add: getNextOpenNode_eq getParentFolder_def getNextFromChild.simps ex_nav_def
        next_start_def folder_index_def item_index_def visible_scan_defs new_item_def upt_rec)
  show "getPreviousOpenNode ex_nav (FolderRef [0]) True = Returns (Some Root)"
    by (simp add: getPreviousOpenNode_def prev_loop.simps getParentFolder_def
        getPreviousFromChild.simps ex_nav_def getVisible_def get_node_def
        prev_start_def folder_index_def item_index_def visible_scan_defs new_item_def upt_rec)
qed

text \<open>
  Claim C8, amended.  On the root both walks return \<open>NULL\<close>.  \<open>getNextOpenNode\<close> never
  dereferences a null parent and returns \<open>NULL\<close> or a visible node; invoked on the last node of
  the flattened ordering it returns \<open>NULL\<close>.  \<open>getPreviousOpenNode\<close> invoked on the first node
  of the flattened ordering returns the root folder when the root is visible.
\<close>

theorem open_node_edges:
  "getNextOpenNode t Root inc = Returns None \<and>
   getPreviousOpenNode t Root inc = Returns None \<and>
   getNextOpenNode t r inc \<noteq> NullDereference \<and>
   (\<forall>s. getNextOpenNode t r inc = Returns (Some s) \<longrightarrow> getVisible t s) \<and>
   (flattened t \<noteq> [] \<longrightarrow> getNextOpenNode t (last (flattened t)) True = Returns None) \<and>
   (flattened t \<noteq> [] \<and> getVisible t Root \<longrightarrow>
      getPreviousOpenNode t (hd (flattened t)) True = Returns (Some Root))"
proof (intro conjI allI impI)
  show "getNextOpenNode t Root inc = Returns None"
    by (simp add: getNextOpenNode_def getParentFolder_def)
  show "getPreviousOpenNode t Root inc = Returns None"
    by (simp add: getPreviousOpenNode_def getParentFolder_def)
  show "getNextOpenNode t r inc \<noteq> NullDereference"
    by (simp add: getNextOpenNode_eq split: option.splits)
  show "getVisible t s" if "getNextOpenNode t r inc = Returns (Some s)" for s
    using that getNextFromChild_visible [of t _ "Some r" inc s]
    by (auto simp: getNextOpenNode_eq split: option.splits)
  show "getNextOpenNode t (last (flattened t)) True = Returns None" if "flattened t \<noteq> []"
    using that by (rule getNextOpenNode_last)
  show "getPreviousOpenNode t (hd (flattened t)) True = Returns (Some Root)"
    if "flattened t \<noteq> [] \<and> getVisible t Root"
    using that getPreviousOpenNode_first [of t] by simp
qed

theorem open_node_edges_witness:
  "flattened ex_nav \<noteq> [] \<and> getVisible ex_nav Root \<and>
   getNextOpenNode ex_nav (ItemRef [] 0) True = Returns (Some (ItemRef [] 2)) \<and>
   getVisible ex_nav (ItemRef [] 2) \<and>
   getNextOpenNode ex_nav (last (flattened ex_nav)) True = Returns None \<and>
   getPreviousOpenNode ex_nav (hd (flattened ex_nav)) True = Returns (Some Root)"
proof -
  have 1: "flattened ex_nav \<noteq> []"
    by (simp add: flattened_def ex_nav_def new_item_def)
  have 2: "getVisible ex_nav Root"
    by (simp add: getVisible_def get_node_def ex_nav_def new_item_def)
  have 3: "getNextOpenNode ex_nav (ItemRef [] 0) True = Returns (Some (ItemRef [] 2))"
    by (simp add: getNextOpenNode_eq getParentFolder_def getNextFromChild.simps ex_nav_def
        next_start_def folder_index_def item_index_def visible_scan_defs new_item_def upt_rec)
  from open_node_edges [of ex_nav True "ItemRef [] 0"] 1 2 3 show ?thesis by blast
qed

theorem navigation_round_trip_witness:
  "ItemRef [0] 0 \<in> set (flattened ex_nav) \<and> ItemRef [0] 0 \<noteq> last (flattened ex_nav) \<and>
   (\<exists>s. getNextOpenNode ex_nav (ItemRef [0] 0) True = Returns (Some s) \<and>
        getPreviousOpenNode ex_nav s True = Returns (Some (ItemRef [0] 0)))"
proof -
  have fl: "flattened ex_nav = [FolderRef [0], ItemRef [0] 0, ItemRef [] 0, ItemRef [] 2]"
    by (simp add: flattened_def ex_nav_def new_item_def upt_rec)
  have 1: "ItemRef [0] 0 \<in> set (flattened ex_nav)" by (simp add: fl)
  have 2: "ItemRef [0] 0 \<noteq> last (flattened ex_nav)" by (simp add: fl)
  from navigation_round_trip [OF 1 2] 1 2 show ?thesis by blast
qed

section \<open>The count of selected descendants\<close>

lemma get_folder_upd_same:
  "get_folder (upd_folder f p t) p = map_option f (get_folder t p)"
proof (induction f p t rule: upd_folder.induct)
  case (1 f F)
  show ?case by simp
next
  case (2 f k p s fs subs its)
  then show ?case by simp
qed

lemma upd_folder_snoc:
  "upd_folder h (p @ [k]) t = upd_folder (in_child k h) p t"
proof (induction p arbitrary: t)
  case Nil
  show ?case by (cases t) (simp add: in_child_def)
next
  case (Cons a p)
  show ?case by (cases t) (simp add: Cons.IH)
qed

lemma shape_of_upd:
  assumes "\<And>G. shape_of (f G) = shape_of G"
  shows "shape_of (upd_folder f p t) = shape_of t"
proof (induction p arbitrary: t)
  case Nil
  show ?case by (simp add: assms)
next
  case (Cons k p)
  show ?case by (cases t) (simp add: Cons.IH map_update list_update_same_conv)
qed

lemma sel_of_upd:
  assumes "\<And>G. sel_of (f G) = sel_of G"
  shows "sel_of (upd_folder f p t) = sel_of t"
proof (induction p arbitrary: t)
  case Nil
  show ?case by (simp add: assms)
next
  case (Cons k p)
  show ?case by (cases t) (simp add: Cons.IH map_update list_update_same_conv)
qed

lemma sel_of_shape: "sel_of t = sel_of t' \<Longrightarrow> shape_of t = shape_of t'"
proof (induction t arbitrary: t')
  case (Folder s fs subs its)
  obtain s' fs' subs' its' where t': "t' = Folder s' fs' subs' its'" by (cases t')
  from Folder.prems t' have m: "map sel_of subs = map sel_of subs'"
    and i: "map mIsSelected its = map mIsSelected its'" by simp_all
  from m have len: "length subs = length subs'" by (rule map_eq_imp_length_eq)
  have "shape_of (subs ! k) = shape_of (subs' ! k)" if "k < length subs" for k
  proof -
    from m that len have "sel_of (subs ! k) = sel_of (subs' ! k)"
      by (metis nth_map)
    with Folder.IH [of "subs ! k" "subs' ! k"] that show ?thesis by simp
  qed
  then have "map shape_of subs = map shape_of subs'"
    using len by (simp add: list_eq_iff_nth_eq)
  moreover from i have "length its = length its'" by (rule map_eq_imp_length_eq)
  ultimately show ?case using t' by simp
qed

lemma sel_of_fresh: "sel_of t = sel_of t' \<Longrightarrow> fresh_count t = fresh_count t'"
proof (induction t arbitrary: t')
  case (Folder s fs subs its)
  obtain s' fs' subs' its' where t': "t' = Folder s' fs' subs' its'" by (cases t')
  from Folder.prems t' have m: "map sel_of subs = map sel_of subs'"
    and i: "map mIsSelected its = map mIsSelected its'" by simp_all
  from m have len: "length subs = length subs'" by (rule map_eq_imp_length_eq)
  have "sel_n (self (subs ! k)) + fresh_count (subs ! k)
      = sel_n (self (subs' ! k)) + fresh_count (subs' ! k)" if "k < length subs" for k
  proof -
    from m that len have e: "sel_of (subs ! k) = sel_of (subs' ! k)"
      by (metis nth_map)
    with Folder.IH [of "subs ! k" "subs' ! k"] that
    have "fresh_count (subs ! k) = fresh_count (subs' ! k)" by simp
    moreover from e have "sel_n (self (subs ! k)) = sel_n (self (subs' ! k))"
      by (cases "subs ! k"; cases "subs' ! k") (simp add: sel_n_def)
    ultimately show ?thesis by simp
  qed
  then have "map (\<lambda>c. sel_n (self c) + fresh_count c) subs
      = map (\<lambda>c. sel_n (self c) + fresh_count c) subs'"
    using len by (simp add: list_eq_iff_nth_eq)
  moreover have "map sel_n its = map sel_n its'"
  proof -
    have "map sel_n its = map (\<lambda>b. if b then 1 else 0) (map mIsSelected its)"
      by (simp add: sel_n_def comp_def)
    also have "\<dots> = map (\<lambda>b. if b then 1 else 0) (map mIsSelected its')" by (simp only: i)
    also have "\<dots> = map sel_n its'" by (simp add: sel_n_def comp_def)
    finally show ?thesis .
  qed
  ultimately show ?case using t' by simp
qed

lemma sel_of_counts_ok: "sel_of t = sel_of t' \<Longrightarrow> counts_ok t = counts_ok t'"
proof (induction t arbitrary: t')
  case (Folder s fs subs its)
  obtain s' fs' subs' its' where t': "t' = Folder s' fs' subs' its'" by (cases t')
  from Folder.prems t' have m: "map sel_of subs = map sel_of subs'"
    and c: "mNumDescendantsSelected fs = mNumDescendantsSelected fs'" by simp_all
  from m have len: "length subs = length subs'" by (rule map_eq_imp_length_eq)
  have "counts_ok (subs ! k) = counts_ok (subs' ! k)" if "k < length subs" for k
  proof -
    from m that len have e: "sel_of (subs ! k) = sel_of (subs' ! k)"
      by (metis nth_map)
    with Folder.IH [of "subs ! k" "subs' ! k"] that show ?thesis by simp
  qed
  then have "list_all counts_ok subs = list_all counts_ok subs'"
    using len by (simp add: list_all_length)
  with sel_of_fresh [OF Folder.prems] c t' show ?case by simp
qed

lemma fresh_count_map_fstate [simp]: "fresh_count (map_fstate a F) = fresh_count F"
  by (cases F) (simp add: map_fstate_def)

lemma fresh_count_map_self [simp]: "fresh_count (map_self f F) = fresh_count F"
  by (cases F) (simp add: map_self_def)

lemma self_map_fstate [simp]: "self (map_fstate a F) = self F"
  by (cases F) (simp add: map_fstate_def)

lemma mFolders_map_fstate [simp]: "mFolders (map_fstate a F) = mFolders F"
  by (cases F) (simp add: map_fstate_def)

lemma fstate_map_fstate [simp]: "fstate (map_fstate a F) = a (fstate F)"
  by (cases F) (simp add: map_fstate_def)

lemma counts_ok_iff:
  "counts_ok F \<longleftrightarrow>
     mNumDescendantsSelected (fstate F) = fresh_count F \<and> list_all counts_ok (mFolders F)"
  by (cases F) simp

lemma sum_list_map_update:
  fixes h :: "'a \<Rightarrow> int"
  shows "k < length xs \<Longrightarrow>
    sum_list (map h (xs[k := y])) = sum_list (map h xs) + h y - h (xs ! k)"
proof (induction xs arbitrary: k)
  case Nil
  then show ?case by simp
next
  case (Cons x xs)
  then show ?case by (cases k) simp_all
qed

lemma sum_list_map_erase:
  fixes h :: "'a \<Rightarrow> int"
  shows "k < length xs \<Longrightarrow>
    sum_list (map h (take k xs @ drop (Suc k) xs)) = sum_list (map h xs) - h (xs ! k)"
proof (induction xs arbitrary: k)
  case Nil
  then show ?case by simp
next
  case (Cons x xs)
  then show ?case by (cases k) simp_all
qed

lemma sum_list_map_insert:
  fixes h :: "'a \<Rightarrow> int"
  shows "sum_list (map h (take k xs @ y # drop k xs)) = sum_list (map h xs) + h y"
proof -
  have "sum_list (map h xs) = sum_list (map h (take k xs @ drop k xs))" by simp
  also have "\<dots> = sum_list (map h (take k xs)) + sum_list (map h (drop k xs))"
    by (simp only: map_append sum_list_append)
  finally show ?thesis by simp
qed

text \<open>The loop up the chain, read downwards.\<close>

lemma bump_in_child:
  "get_folder t (q @ [k]) \<noteq> None \<Longrightarrow>
     bump inc q (upd_folder (map_fstate (add_selected inc)) (q @ [k]) t) = bump inc (q @ [k]) t"
proof (induction q arbitrary: t)
  case Nil
  obtain s fs subs its where t: "t = Folder s fs subs its" by (cases t)
  with Nil have "k < length subs" by (simp split: if_splits)
  with t show ?case by (simp add: map_fstate_def)
next
  case (Cons a q)
  obtain s fs subs its where t: "t = Folder s fs subs its" by (cases t)
  with Cons.prems have a: "a < length subs" and v: "get_folder (subs ! a) (q @ [k]) \<noteq> None"
    by (simp_all split: if_splits)
  from Cons.IH [OF v] t a show ?case by simp
qed

lemma recursiveIncrement_bump:
  "get_folder t p \<noteq> None \<Longrightarrow> recursiveIncrementNumDescendantsSelected inc p t = bump inc p t"
proof (induction p arbitrary: t rule: rev_induct)
  case Nil
  show ?case by (subst recursiveIncrementNumDescendantsSelected.simps) simp
next
  case (snoc k q)
  let ?t' = "upd_folder (map_fstate (add_selected inc)) (q @ [k]) t"
  have "get_folder ?t' (q @ [k]) \<noteq> None"
    using snoc.prems by (simp add: get_folder_upd_same)
  then have "get_folder ?t' q \<noteq> None"
    by (auto simp: get_folder_snoc_iff)
  from snoc.IH [OF this] bump_in_child [OF snoc.prems, of inc]
  show ?case by (subst recursiveIncrementNumDescendantsSelected.simps) simp
qed

lemma bump_zero: "bump 0 p t = t"
proof (induction p arbitrary: t)
  case Nil
  show ?case by (cases t) (simp add: map_fstate_def add_selected_def)
next
  case (Cons k p)
  show ?case by (cases t) (simp add: Cons.IH add_selected_def)
qed

lemma bump_commute:
  assumes "\<And>a G. g (map_fstate a G) = map_fstate a (g G)"
  shows "get_folder t p \<noteq> None \<Longrightarrow> upd_folder g p (bump d p t) = bump d p (upd_folder g p t)"
proof (induction p arbitrary: t)
  case Nil
  show ?case by (simp add: assms)
next
  case (Cons k p)
  obtain s fs subs its where t: "t = Folder s fs subs its" by (cases t)
  with Cons.prems have k: "k < length subs" and v: "get_folder (subs ! k) p \<noteq> None"
    by (simp_all split: if_splits)
  from Cons.IH [OF v] t k show ?case by simp
qed

text \<open>An edit of the folder at \<open>p\<close> that changes the fresh count of that folder by \<open>d\<close>,
  together with the increment \<open>d\<close> from \<open>p\<close> upwards, keeps the counts right.\<close>

lemma bump_edit:
  assumes "get_folder t p = Some G" "counts_ok t"
    and "fresh_count (g G) = fresh_count G + d"
    and "self (g G) = self G" "fstate (g G) = fstate G"
    and "list_all counts_ok (mFolders (g G))"
  shows "counts_ok (bump d p (upd_folder g p t)) \<and>
         fresh_count (bump d p (upd_folder g p t)) = fresh_count t + d \<and>
         self (bump d p (upd_folder g p t)) = self t"
  using assms(1,2)
proof (induction p arbitrary: t)
  case Nil
  then have G: "G = t" by simp
  with Nil.prems assms(3-6) show ?case
    by (simp add: counts_ok_iff add_selected_def)
next
  case (Cons k p)
  obtain s fs subs its where t: "t = Folder s fs subs its" by (cases t)
  with Cons.prems have k: "k < length subs" and v: "get_folder (subs ! k) p = Some G"
    by (simp_all split: if_splits)
  from Cons.prems(2) t k have ok: "counts_ok (subs ! k)" and all: "list_all counts_ok subs"
    and cnt: "mNumDescendantsSelected fs = fresh_count t"
    by (simp_all add: list_all_length)
  let ?R = "bump d p (upd_folder g p (subs ! k))"
  from Cons.IH [OF v ok] have R: "counts_ok ?R" "fresh_count ?R = fresh_count (subs ! k) + d"
    "self ?R = self (subs ! k)" by simp_all
  have res: "bump d (k # p) (upd_folder g (k # p) t)
      = Folder s (add_selected d fs) (subs[k := ?R]) its"
    using t k by simp
  have "list_all counts_ok (subs[k := ?R])"
    using all R(1) k by (auto simp: list_all_length nth_list_update)
  moreover have "sum_list (map (\<lambda>c. sel_n (self c) + fresh_count c) (subs[k := ?R]))
      = sum_list (map (\<lambda>c. sel_n (self c) + fresh_count c) subs) + d"
    using k R(2,3) by (simp add: sum_list_map_update)
  ultimately show ?case
    unfolding res using cnt t by (simp add: add_selected_def)
qed

lemma fstate_map_self [simp]: "fstate (map_self f F) = fstate F"
  by (cases F) (simp add: map_self_def)

lemma mFolders_map_self [simp]: "mFolders (map_self f F) = mFolders F"
  by (cases F) (simp add: map_self_def)

lemma self_map_self [simp]: "self (map_self f F) = f (self F)"
  by (cases F) (simp add: map_self_def)

lemma counts_ok_map_self [simp]: "counts_ok (map_self f F) = counts_ok F"
  by (simp add: counts_ok_iff)

lemma counts_ok_sub: "counts_ok t \<Longrightarrow> get_folder t p = Some G \<Longrightarrow> counts_ok G"
proof (induction p arbitrary: t)
  case Nil
  then show ?case by simp
next
  case (Cons k p)
  obtain s' fs' subs' its' where t: "t = Folder s' fs' subs' its'" by (cases t)
  with Cons.prems show ?case
    by (auto simp: list_all_length split: if_splits intro: Cons.IH)
qed

text \<open>A change of the flag of a node by \<open>d\<close>, with the increment \<open>d\<close> from its parent
  upwards.\<close>

lemma node_change_ok:
  assumes ok: "counts_ok t" and node: "get_node t r = Some i"
    and d: "sel_n (f i) = sel_n i + d"
  shows "counts_ok
     (case getParentFolder r of
        None \<Rightarrow> upd_node f r t
      | Some p \<Rightarrow> recursiveIncrementNumDescendantsSelected d p (upd_node f r t))"
proof (cases r)
  case (ItemRef p j)
  from node ItemRef obtain G where G: "get_folder t p = Some G" "j < length (mItems G)"
    "i = mItems G ! j"
    by (auto simp: get_node_def get_item_def split: option.splits if_splits)
  obtain s fs subs its where GF: "G = Folder s fs subs its" by (cases G)
  let ?g = "map_item f j"
  have gG: "?g G = Folder s fs subs (its[j := f (its ! j)])"
    using G(2) GF by (simp add: map_item_def)
  have valid: "get_folder (upd_folder ?g p t) p \<noteq> None"
    using G(1) by (simp add: get_folder_upd_same)
  have "fresh_count (?g G) = fresh_count G + d"
    unfolding gG using G(2,3) GF d by (simp add: sum_list_map_update)
  moreover have "list_all counts_ok (mFolders (?g G))"
    unfolding gG using counts_ok_sub [OF ok G(1)] GF by simp
  moreover have "self (?g G) = self G" "fstate (?g G) = fstate G"
    unfolding gG using GF by simp_all
  ultimately have "counts_ok (bump d p (upd_folder ?g p t))"
    using bump_edit [OF G(1) ok, of ?g d] by blast
  then show ?thesis
    using ItemRef recursiveIncrement_bump [OF valid]
    by (simp add: getParentFolder_def upd_node_def)
next
  case (FolderRef q)
  show ?thesis
  proof (cases "q = []")
    case True
    with FolderRef ok show ?thesis
      by (simp add: getParentFolder_def upd_node_def)
  next
    case False
    define p k where "p = butlast q" and "k = last q"
    with False have q: "q = p @ [k]" by simp
    from node FolderRef q obtain c where c: "get_folder t (p @ [k]) = Some c" "self c = i"
      by (auto simp: get_node_def)
    then obtain G where G: "get_folder t p = Some G" "k < length (mFolders G)"
      "c = mFolders G ! k"
      unfolding get_folder_snoc_iff by blast
    obtain s fs subs its where GF: "G = Folder s fs subs its" by (cases G)
    let ?g = "in_child k (map_self f)"
    have gG: "?g G = Folder s fs (subs[k := map_self f (subs ! k)]) its"
      using G(2) GF by (simp add: in_child_def)
    have valid: "get_folder (upd_folder ?g p t) p \<noteq> None"
      using G(1) by (simp add: get_folder_upd_same)
    have okG: "counts_ok G" by (rule counts_ok_sub [OF ok G(1)])
    have "fresh_count (?g G) = fresh_count G + d"
      unfolding gG using G(2,3) GF c(2) d by (simp add: sum_list_map_update)
    moreover have "list_all counts_ok (mFolders (?g G))"
      unfolding gG using okG GF G(2) by (auto simp: list_all_length nth_list_update)
    moreover have "self (?g G) = self G" "fstate (?g G) = fstate G"
      unfolding gG using GF by simp_all
    ultimately have "counts_ok (bump d p (upd_folder ?g p t))"
      using bump_edit [OF G(1) ok, of ?g d] by blast
    then show ?thesis
      using FolderRef q recursiveIncrement_bump [OF valid]
      by (simp add: getParentFolder_def upd_node_def upd_folder_snoc)
  qed
qed

lemma selectItem_ok:
  assumes "counts_ok t" "get_node t r \<noteq> None" "\<not> isSelected t r"
  shows "counts_ok (selectItem r t)"
proof -
  from assms(2) obtain i where i: "get_node t r = Some i" by blast
  with assms(3) have "sel_n (i\<lparr>mIsSelected := True\<rparr>) = sel_n i + 1"
    by (simp add: isSelected_def sel_n_def)
  from node_change_ok [OF assms(1) i, of "\<lambda>i. i\<lparr>mIsSelected := True\<rparr>" 1, OF this]
  show ?thesis by (simp add: selectItem_def Let_def)
qed

lemma deselectItem_ok:
  assumes "counts_ok t" "isSelected t r"
  shows "counts_ok (deselectItem r t)"
proof -
  from assms(2) obtain i where i: "get_node t r = Some i" "mIsSelected i"
    by (auto simp: isSelected_def split: option.splits)
  then have "sel_n (i\<lparr>mIsSelected := False\<rparr>) = sel_n i + (- 1)"
    by (simp add: sel_n_def)
  from node_change_ok [OF assms(1) i(1), of "\<lambda>i. i\<lparr>mIsSelected := False\<rparr>" "- 1", OF this]
  show ?thesis by (simp add: deselectItem_def Let_def)
qed

text \<open>The methods keep the shape of the tree, and with it the addresses that denote nodes.\<close>

lemma shape_of_map_fstate [simp]: "shape_of (map_fstate a F) = shape_of F"
  by (cases F) (simp add: map_fstate_def)

lemma shape_of_map_self [simp]: "shape_of (map_self a F) = shape_of F"
  by (cases F) (simp add: map_self_def)

lemma shape_of_map_item [simp]: "shape_of (map_item f j F) = shape_of F"
  by (cases F) (simp add: map_item_def)

lemma shape_of_upd_node [simp]: "shape_of (upd_node f r t) = shape_of t"
  by (cases r) (simp_all add: upd_node_def shape_of_upd)

lemma shape_of_recursiveIncrement [simp]:
  "shape_of (recursiveIncrementNumDescendantsSelected inc p t) = shape_of t"
proof (induction inc p t rule: recursiveIncrementNumDescendantsSelected.induct)
  case (1 inc p t)
  show ?case
  proof (cases "p = []")
    case True
    then show ?thesis
      by (subst recursiveIncrementNumDescendantsSelected.simps) (simp add: shape_of_upd)
  next
    case False
    with "1.IH" [OF refl False] show ?thesis
      by (subst recursiveIncrementNumDescendantsSelected.simps) (simp add: shape_of_upd)
  qed
qed

lemma shape_of_selectItem [simp]: "shape_of (selectItem r t) = shape_of t"
  by (simp add: selectItem_def Let_def split: option.splits)

lemma shape_of_deselectItem [simp]: "shape_of (deselectItem r t) = shape_of t"
  by (simp add: deselectItem_def Let_def split: option.splits)

lemma shape_get_folder:
  "shape_of t = shape_of t' \<Longrightarrow>
     (get_folder t p = None \<longleftrightarrow> get_folder t' p = None) \<and> shape_at t p = shape_at t' p"
proof (induction p arbitrary: t t')
  case Nil
  then show ?case by (simp add: shape_at_def)
next
  case (Cons k p)
  obtain s fs subs its where t: "t = Folder s fs subs its" by (cases t)
  obtain s' fs' subs' its' where t': "t' = Folder s' fs' subs' its'" by (cases t')
  from Cons.prems t t' have m: "map shape_of subs = map shape_of subs'" by simp
  then have len: "length subs = length subs'" by (rule map_eq_imp_length_eq)
  show ?case
  proof (cases "k < length subs")
    case True
    with m len have "shape_of (subs ! k) = shape_of (subs' ! k)" by (metis nth_map)
    from Cons.IH [OF this] True len t t' show ?thesis by (simp add: shape_at_def)
  next
    case False
    with len t t' show ?thesis by (simp add: shape_at_def)
  qed
qed

lemma shape_get_node:
  assumes "shape_of t = shape_of t'"
  shows "get_node t r = None \<longleftrightarrow> get_node t' r = None"
proof (cases r)
  case (FolderRef p)
  with shape_get_folder [OF assms, of p] show ?thesis by (simp add: get_node_def)
next
  case (ItemRef p j)
  from shape_get_folder [OF assms, of p]
  have n: "get_folder t p = None \<longleftrightarrow> get_folder t' p = None" and s: "shape_at t p = shape_at t' p"
    by simp_all
  show ?thesis
  proof (cases "get_folder t p")
    case None
    with n ItemRef show ?thesis by (simp add: get_node_def get_item_def)
  next
    case (Some G)
    with n obtain G' where G': "get_folder t' p = Some G'" by auto
    from s Some G' have "length (mItems G) = length (mItems G')"
      by (cases G; cases G') (simp add: shape_at_def)
    with Some G' ItemRef show ?thesis by (simp add: get_node_def get_item_def)
  qed
qed

lemma shape_at_child:
  assumes "get_folder t p \<noteq> None" "shape_at t p = Shape subs n" "k < length subs"
  shows "get_folder t (p @ [k]) \<noteq> None \<and> shape_at t (p @ [k]) = subs ! k"
proof -
  from assms(1) obtain G where G: "get_folder t p = Some G" by blast
  with assms(2,3) have k: "k < length (mFolders G)" "shape_of (mFolders G ! k) = subs ! k"
    by (cases G; auto simp: shape_at_def)+
  from get_folder_snoc [OF G k(1)] k(2) show ?thesis by (simp add: shape_at_def)
qed

lemma shape_at_item:
  assumes "get_folder t p \<noteq> None" "shape_at t p = Shape subs n" "j < n"
  shows "get_node t (ItemRef p j) \<noteq> None"
proof -
  from assms(1) obtain G where G: "get_folder t p = Some G" by blast
  with assms(2,3) have "j < length (mItems G)" by (cases G) (auto simp: shape_at_def)
  with G show ?thesis by (simp add: get_node_def get_item_def)
qed

lemma fold_invariant:
  assumes "P s" "\<And>x s. x \<in> set xs \<Longrightarrow> P s \<Longrightarrow> P (f x s)"
  shows "P (fold f xs s)"
  using assms by (induction xs arbitrary: s) simp_all

text \<open>What the marking for arrangement and for filtering writes is no selection flag and no
  count.\<close>

lemma sel_of_map_fstate:
  "(\<And>fs. mNumDescendantsSelected (a fs) = mNumDescendantsSelected fs) \<Longrightarrow>
     sel_of (map_fstate a F) = sel_of F"
  by (cases F) (simp add: map_fstate_def)

lemma sel_of_map_self:
  "(\<And>i. mIsSelected (h i) = mIsSelected i) \<Longrightarrow> sel_of (map_self h F) = sel_of F"
  by (cases F) (simp add: map_self_def)

lemma sel_of_map_item:
  "(\<And>i. mIsSelected (h i) = mIsSelected i) \<Longrightarrow> sel_of (map_item h j F) = sel_of F"
  by (cases F) (simp add: map_item_def map_update list_update_same_conv)

lemma sel_of_upd_node:
  "(\<And>i. mIsSelected (h i) = mIsSelected i) \<Longrightarrow> sel_of (upd_node h r t) = sel_of t"
  by (cases r) (simp_all add: upd_node_def sel_of_upd sel_of_map_self sel_of_map_item)

lemma sel_of_upd_fstate:
  "(\<And>fs. mNumDescendantsSelected (a fs) = mNumDescendantsSelected fs) \<Longrightarrow>
     sel_of (upd_folder (map_fstate a) p t) = sel_of t"
  by (simp add: sel_of_upd sel_of_map_fstate)

lemma sel_of_requestArrange [simp]: "sel_of (requestArrange p t) = sel_of t"
proof (induction p t rule: requestArrange.induct)
  case (1 p t)
  have u: "sel_of (upd_folder (map_fstate requestArrange_here) p t) = sel_of t"
    by (simp add: sel_of_upd_fstate requestArrange_here_def)
  show ?case
  proof (cases "p = []")
    case True
    with u show ?thesis by (subst requestArrange.simps) simp
  next
    case False
    with "1.IH" [OF refl False] u show ?thesis by (subst requestArrange.simps) simp
  qed
qed

lemma sel_of_setCompletedFilterGeneration_up [simp]:
  "sel_of (setCompletedFilterGeneration_up g p t) = sel_of t"
proof (induction g p t rule: setCompletedFilterGeneration_up.induct)
  case (1 g p t)
  let ?t' = "upd_folder (map_fstate (setCompletedFilterGeneration g)) p t"
  have u: "sel_of ?t' = sel_of t"
    by (simp add: sel_of_upd_fstate setCompletedFilterGeneration_def)
  show ?case
  proof (cases "p \<noteq> [] \<and> g < getCompletedFilterGeneration ?t' (butlast p)")
    case True
    with "1.IH" [OF refl True] u show ?thesis
      by (subst setCompletedFilterGeneration_up.simps) (simp add: Let_def)
  next
    case False
    with u show ?thesis
      by (subst setCompletedFilterGeneration_up.simps) (auto simp: Let_def)
  qed
qed

lemma sel_of_dirtyFilter [simp]: "sel_of (dirtyFilter r t) = sel_of t"
  by (simp add: dirtyFilter_def Let_def sel_of_upd_node split: option.splits)

lemma sel_of_folder_dirtyFilter [simp]: "sel_of (folder_dirtyFilter p t) = sel_of t"
  by (simp add: folder_dirtyFilter_def sel_of_upd_fstate setCompletedFilterGeneration_def)

lemma sel_of_setOpenArrangeRecursively [simp]:
  "sel_of (setOpenArrangeRecursively b p t) = sel_of t"
  by (auto simp add: setOpenArrangeRecursively_def Let_def sel_of_upd_fstate sel_of_map_fstate)

lemma sel_of_requestArrange_descendants [simp]:
  "sel_of (requestArrange_descendants F) = sel_of F"
  by (induction F) (simp add: requestArrange_here_def)

lemma sel_of_requestArrange_include_descendants [simp]:
  "sel_of (requestArrange_include_descendants p t) = sel_of t"
  by (simp add: requestArrange_include_descendants_def sel_of_upd)

text \<open>The recursive methods keep the counts right.\<close>

lemma get_node_folder: "get_folder t p \<noteq> None \<Longrightarrow> get_node t (FolderRef p) \<noteq> None"
  by (simp add: get_node_def)

lemma item_setSelection_ok:
  assumes "counts_ok t" "get_node t r \<noteq> None"
  shows "counts_ok (fst (item_setSelection sel r t)) \<and>
         shape_of (fst (item_setSelection sel r t)) = shape_of t"
  using assms by (simp add: item_setSelection_def Let_def selectItem_ok deselectItem_ok)

lemma item_changeSelection_ok:
  assumes "counts_ok t" "get_node t r \<noteq> None"
  shows "counts_ok (fst (item_changeSelection sel b r t)) \<and>
         shape_of (fst (item_changeSelection sel b r t)) = shape_of t"
  using assms by (simp add: item_changeSelection_def selectItem_ok deselectItem_ok)

lemma items_setSelection_ok:
  assumes "counts_ok (fst st)" "shape_of (fst st) = sh0"
    "\<And>j. j < n \<Longrightarrow> get_node (fst st) (ItemRef p j) \<noteq> None"
  shows "counts_ok (fst (items_setSelection sel p n st)) \<and>
         shape_of (fst (items_setSelection sel p n st)) = sh0"
  unfolding items_setSelection_def
proof (rule fold_invariant)
  show "counts_ok (fst st) \<and> shape_of (fst st) = sh0" using assms by simp
next
  fix j and s :: "folder \<times> bool"
  assume j: "j \<in> set [0..<n]" and s: "counts_ok (fst s) \<and> shape_of (fst s) = sh0"
  obtain ts cs where sp: "s = (ts, cs)" by (cases s)
  from s sp assms(2) have "shape_of ts = shape_of (fst st)" by simp
  from shape_get_node [OF this, of "ItemRef p j"] assms(3) [of j] j
  have "get_node ts (ItemRef p j) \<noteq> None" by simp
  from item_setSelection_ok [OF _ this, of sel] s sp
  show "counts_ok (fst ((\<lambda>(t, cs). let (t', r) = item_setSelection sel (ItemRef p j) t
                                in (t', cs \<or> r)) s)) \<and>
        shape_of (fst ((\<lambda>(t, cs). let (t', r) = item_setSelection sel (ItemRef p j) t
                                in (t', cs \<or> r)) s)) = sh0"
    by (simp add: split_beta)
qed

lemma folder_setSelection_ok:
  "counts_ok t \<Longrightarrow> shape_of t = sh0 \<Longrightarrow> get_folder t p \<noteq> None \<Longrightarrow> shape_at t p = sh \<Longrightarrow>
     counts_ok (fst (folder_setSelection sel oi p sh t)) \<and>
     shape_of (fst (folder_setSelection sel oi p sh t)) = sh0"
  "counts_ok (fst st) \<Longrightarrow> shape_of (fst st) = sh0 \<Longrightarrow>
     (\<forall>i<length cs. get_folder (fst st) (p @ [k + i]) \<noteq> None \<and>
                     shape_at (fst st) (p @ [k + i]) = cs ! i) \<Longrightarrow>
     counts_ok (fst (folders_setSelection sel oi p k cs st)) \<and>
     shape_of (fst (folders_setSelection sel oi p k cs st)) = sh0"
proof (induction sel oi p sh t and sel oi p k cs st
    rule: folder_setSelection_folders_setSelection.induct)
  case (1 selection openitem p subs n t)
  let ?this = "FolderRef p"
  define t1 where "t1 = (if selection = Some ?this
                then (if \<not> isSelected t ?this then selectItem ?this t else t)
                else (if isSelected t ?this then deselectItem ?this t else t))"
  define st2 where "st2 = folders_setSelection selection openitem p 0 subs (t1, False)"
  define st3 where "st3 = items_setSelection selection p n st2"
  have t1: "counts_ok t1" "shape_of t1 = sh0"
    using "1.prems" by (simp_all add: t1_def selectItem_ok deselectItem_ok get_node_folder)
  have sh1: "shape_of t1 = shape_of t" using t1(2) "1.prems"(2) by simp
  have at1: "get_folder t1 p \<noteq> None" "shape_at t1 p = Shape subs n"
    using shape_get_folder [OF sh1, of p] "1.prems"(3,4) by simp_all
  have kids: "\<forall>i<length subs. get_folder (fst (t1, False)) (p @ [0 + i]) \<noteq> None \<and>
                     shape_at (fst (t1, False)) (p @ [0 + i]) = subs ! i"
    using shape_at_child [OF at1] by simp
  have st2: "counts_ok (fst st2)" "shape_of (fst st2) = sh0"
    using "1.IH" [OF refl refl, folded t1_def] t1 kids
    unfolding st2_def by simp_all
  have sh2: "shape_of (fst st2) = shape_of t" using st2(2) "1.prems"(2) by simp
  have st3: "counts_ok (fst st3) \<and> shape_of (fst st3) = sh0"
    unfolding st3_def
  proof (rule items_setSelection_ok [OF st2])
    fix j assume "j < n"
    with shape_get_node [OF sh2, of "ItemRef p j"] shape_at_item [OF "1.prems"(3,4), of j]
    show "get_node (fst st2) (ItemRef p j) \<noteq> None" by simp
  qed
  have res: "fst (folder_setSelection selection openitem p (Shape subs n) t)
      = (if openitem \<and> snd st3 then setOpenArrangeRecursively True p (fst st3) else fst st3)"
    unfolding t1_def st2_def st3_def
    by (simp add: Let_def split_beta split del: if_split)
  show ?case
  proof (cases "openitem \<and> snd st3")
    case False
    with res st3 show ?thesis by auto
  next
    case True
    have e: "sel_of (setOpenArrangeRecursively True p (fst st3)) = sel_of (fst st3)" by simp
    from sel_of_counts_ok [OF e] sel_of_shape [OF e] st3 res True show ?thesis by simp
  qed
next
  case (2 selection openitem p k st)
  then show ?case by simp
next
  case (3 selection openitem p k c cs st)
  obtain t' r where f: "folder_setSelection selection openitem (p @ [k]) c (fst st) = (t', r)"
    by (cases "folder_setSelection selection openitem (p @ [k]) c (fst st)")
  from "3.prems"(3) have hd: "get_folder (fst st) (p @ [k]) \<noteq> None"
    "shape_at (fst st) (p @ [k]) = c" by force+
  from "3.IH"(1) [OF "3.prems"(1,2) hd] f have t': "counts_ok t'" "shape_of t' = sh0" by simp_all
  have sh: "shape_of t' = shape_of (fst st)" using t'(2) "3.prems"(2) by simp
  have rest: "\<forall>i<length cs. get_folder (fst (t', snd st \<or> r)) (p @ [Suc k + i]) \<noteq> None \<and>
                     shape_at (fst (t', snd st \<or> r)) (p @ [Suc k + i]) = cs ! i"
  proof (intro allI impI)
    fix i assume "i < length cs"
    with "3.prems"(3) have "get_folder (fst st) (p @ [k + Suc i]) \<noteq> None \<and>
        shape_at (fst st) (p @ [k + Suc i]) = (c # cs) ! Suc i" by force
    with shape_get_folder [OF sh, of "p @ [k + Suc i]"]
    show "get_folder (fst (t', snd st \<or> r)) (p @ [Suc k + i]) \<noteq> None \<and>
          shape_at (fst (t', snd st \<or> r)) (p @ [Suc k + i]) = cs ! i" by simp
  qed
  from "3.IH"(2) [OF f [symmetric] refl] t' rest f show ?case by simp
qed

lemma items_changeSelection_ok:
  assumes "counts_ok (fst st)" "shape_of (fst st) = sh0"
    "\<And>j. j < n \<Longrightarrow> get_node (fst st) (ItemRef p j) \<noteq> None"
  shows "counts_ok (fst (items_changeSelection sel b p n st)) \<and>
         shape_of (fst (items_changeSelection sel b p n st)) = sh0"
  unfolding items_changeSelection_def
proof (rule fold_invariant)
  show "counts_ok (fst st) \<and> shape_of (fst st) = sh0" using assms by simp
next
  fix j and s :: "folder \<times> bool"
  assume j: "j \<in> set [0..<n]" and s: "counts_ok (fst s) \<and> shape_of (fst s) = sh0"
  obtain ts cs where sp: "s = (ts, cs)" by (cases s)
  from s sp assms(2) have "shape_of ts = shape_of (fst st)" by simp
  from shape_get_node [OF this, of "ItemRef p j"] assms(3) [of j] j
  have "get_node ts (ItemRef p j) \<noteq> None" by simp
  from item_changeSelection_ok [OF _ this, of sel b] s sp
  show "counts_ok (fst ((\<lambda>(t, rv). let (t', r) = item_changeSelection sel b (ItemRef p j) t
                                in (t', rv \<or> r)) s)) \<and>
        shape_of (fst ((\<lambda>(t, rv). let (t', r) = item_changeSelection sel b (ItemRef p j) t
                                in (t', rv \<or> r)) s)) = sh0"
    by (simp add: split_beta)
qed

lemma folder_changeSelection_ok:
  "counts_ok t \<Longrightarrow> shape_of t = sh0 \<Longrightarrow> get_folder t p \<noteq> None \<Longrightarrow> shape_at t p = sh \<Longrightarrow>
     counts_ok (fst (folder_changeSelection sel b p sh t)) \<and>
     shape_of (fst (folder_changeSelection sel b p sh t)) = sh0"
  "counts_ok (fst st) \<Longrightarrow> shape_of (fst st) = sh0 \<Longrightarrow>
     (\<forall>i<length cs. get_folder (fst st) (p @ [k + i]) \<noteq> None \<and>
                     shape_at (fst st) (p @ [k + i]) = cs ! i) \<Longrightarrow>
     counts_ok (fst (folders_changeSelection sel b p k cs st)) \<and>
     shape_of (fst (folders_changeSelection sel b p k cs st)) = sh0"
proof (induction sel b p sh t and sel b p k cs st
    rule: folder_changeSelection_folders_changeSelection.induct)
  case (1 selection selected p subs n t)
  let ?this = "FolderRef p"
  define st1 where "st1 = (if selection = ?this \<and> isSelected t ?this \<noteq> selected
                 then (if selected then selectItem ?this t else deselectItem ?this t, True)
                 else (t, False))"
  define st2 where "st2 = folders_changeSelection selection selected p 0 subs st1"
  have t1: "counts_ok (fst st1)" "shape_of (fst st1) = sh0"
    using "1.prems" by (auto simp: st1_def selectItem_ok deselectItem_ok get_node_folder)
  have sh1: "shape_of (fst st1) = shape_of t" using t1(2) "1.prems"(2) by simp
  have at1: "get_folder (fst st1) p \<noteq> None" "shape_at (fst st1) p = Shape subs n"
    using shape_get_folder [OF sh1, of p] "1.prems"(3,4) by simp_all
  have kids: "\<forall>i<length subs. get_folder (fst st1) (p @ [0 + i]) \<noteq> None \<and>
                     shape_at (fst st1) (p @ [0 + i]) = subs ! i"
    using shape_at_child [OF at1] by simp
  have st2: "counts_ok (fst st2)" "shape_of (fst st2) = sh0"
    using "1.IH" [OF refl refl, folded st1_def] t1 kids
    unfolding st2_def by simp_all
  have sh2: "shape_of (fst st2) = shape_of t" using st2(2) "1.prems"(2) by simp
  have "counts_ok (fst (items_changeSelection selection selected p n st2)) \<and>
        shape_of (fst (items_changeSelection selection selected p n st2)) = sh0"
  proof (rule items_changeSelection_ok [OF st2])
    fix j assume "j < n"
    with shape_get_node [OF sh2, of "ItemRef p j"] shape_at_item [OF "1.prems"(3,4), of j]
    show "get_node (fst st2) (ItemRef p j) \<noteq> None" by simp
  qed
  moreover have "folder_changeSelection selection selected p (Shape subs n) t
      = items_changeSelection selection selected p n st2"
    unfolding st1_def st2_def by (simp add: Let_def split del: if_split)
  ultimately show ?case by simp
next
  case (2 selection selected p k st)
  then show ?case by simp
next
  case (3 selection selected p k c cs st)
  obtain t' r where f: "folder_changeSelection selection selected (p @ [k]) c (fst st) = (t', r)"
    by (cases "folder_changeSelection selection selected (p @ [k]) c (fst st)")
  from "3.prems"(3) have hd: "get_folder (fst st) (p @ [k]) \<noteq> None"
    "shape_at (fst st) (p @ [k]) = c" by force+
  from "3.IH"(1) [OF "3.prems"(1,2) hd] f have t': "counts_ok t'" "shape_of t' = sh0" by simp_all
  have sh: "shape_of t' = shape_of (fst st)" using t'(2) "3.prems"(2) by simp
  have rest: "\<forall>i<length cs. get_folder (fst (t', snd st \<or> r)) (p @ [Suc k + i]) \<noteq> None \<and>
                     shape_at (fst (t', snd st \<or> r)) (p @ [Suc k + i]) = cs ! i"
  proof (intro allI impI)
    fix i assume "i < length cs"
    with "3.prems"(3) have "get_folder (fst st) (p @ [k + Suc i]) \<noteq> None \<and>
        shape_at (fst st) (p @ [k + Suc i]) = (c # cs) ! Suc i" by force
    with shape_get_folder [OF sh, of "p @ [k + Suc i]"]
    show "get_folder (fst (t', snd st \<or> r)) (p @ [Suc k + i]) \<noteq> None \<and>
          shape_at (fst (t', snd st \<or> r)) (p @ [Suc k + i]) = cs ! i" by simp
  qed
  from "3.IH"(2) [OF f [symmetric] refl] t' rest f show ?case by simp
qed

lemma items_deselect_ok:
  assumes "counts_ok t" "shape_of t = sh0"
  shows "counts_ok (items_deselect p n t) \<and> shape_of (items_deselect p n t) = sh0"
  unfolding items_deselect_def
proof (rule fold_invariant)
  show "counts_ok t \<and> shape_of t = sh0" using assms by simp
next
  fix j s
  assume "counts_ok s \<and> shape_of s = sh0"
  then show "counts_ok (if isSelected s (ItemRef p j) then deselectItem (ItemRef p j) s else s) \<and>
      shape_of (if isSelected s (ItemRef p j) then deselectItem (ItemRef p j) s else s) = sh0"
    by (simp add: deselectItem_ok)
qed

lemma recursiveDeselect_ok:
  "counts_ok t \<Longrightarrow> shape_of t = sh0 \<Longrightarrow>
     counts_ok (recursiveDeselect b p sh t) \<and> shape_of (recursiveDeselect b p sh t) = sh0"
  "counts_ok t \<Longrightarrow> shape_of t = sh0 \<Longrightarrow>
     counts_ok (recursiveDeselect_folders p k cs t) \<and>
     shape_of (recursiveDeselect_folders p k cs t) = sh0"
proof (induction b p sh t and p k cs t rule: recursiveDeselect_recursiveDeselect_folders.induct)
  case (1 deselect_self p subs n t)
  let ?this = "FolderRef p"
  define t1 where "t1 = (if isSelected t ?this \<and> deselect_self then deselectItem ?this t else t)"
  have t1: "counts_ok t1" "shape_of t1 = sh0"
    using "1.prems" by (simp_all add: t1_def deselectItem_ok)
  show ?case
  proof (cases "getNumDescendantsSelected t1 p = 0")
    case True
    with t1 show ?thesis by (simp add: t1_def Let_def)
  next
    case False
    from items_deselect_ok [OF t1, of p n]
    have "counts_ok (items_deselect p n t1)" "shape_of (items_deselect p n t1) = sh0"
      by simp_all
    from "1.IH" [OF refl refl, folded t1_def, OF False this] False
    show ?thesis by (simp add: t1_def Let_def)
  qed
next
  case (2 p k t)
  then show ?case by simp
next
  case (3 p k c cs t)
  from "3.IH"(1) [OF "3.prems"]
  have "counts_ok (recursiveDeselect True (p @ [k]) c t)"
    "shape_of (recursiveDeselect True (p @ [k]) c t) = sh0" by simp_all
  from "3.IH"(2) [OF this] show ?case by simp
qed

lemma sum_list_take_drop:
  fixes h :: "'a \<Rightarrow> int"
  shows "sum_list (map h (take k xs)) + sum_list (map h (drop k xs)) = sum_list (map h xs)"
  using sum_list_map_insert [of h k xs] by (metis append_take_drop_id map_append sum_list_append)

lemma sum_list_take_drop_Suc:
  fixes h :: "'a \<Rightarrow> int"
  shows "k < length xs \<Longrightarrow>
    sum_list (map h (take k xs)) + sum_list (map h (drop (Suc k) xs))
      = sum_list (map h xs) - h (xs ! k)"
  using sum_list_map_erase [of k xs h] by simp

lemma numSelected_fresh: "counts_ok c \<Longrightarrow> numSelected c = sel_n (self c) + fresh_count c"
  by (simp add: numSelected_def sel_n_def counts_ok_iff)

lemma erase_item_commute: "erase_item j (map_fstate a G) = map_fstate a (erase_item j G)"
  by (cases G) (simp add: erase_item_def map_fstate_def)

lemma erase_folder_commute: "erase_folder k (map_fstate a G) = map_fstate a (erase_folder k G)"
  by (cases G) (simp add: erase_folder_def map_fstate_def)

text \<open>An edit of the folder at \<open>p\<close> after the increments, or before them.\<close>

lemma edit_after_increment:
  assumes G: "get_folder t p = Some G" and ok: "counts_ok t"
    and comm: "\<And>a G. g (map_fstate a G) = map_fstate a (g G)"
    and fresh: "fresh_count (g G) = fresh_count G + d"
    and same: "self (g G) = self G" "fstate (g G) = fstate G"
    and subs: "list_all counts_ok (mFolders (g G))"
    and cond: "c \<longleftrightarrow> d \<noteq> 0"
  shows "counts_ok (upd_folder g p
           (if c then recursiveIncrementNumDescendantsSelected d p t else t))"
proof -
  from G have v: "get_folder t p \<noteq> None" by simp
  have e: "bump d p (upd_folder g p t) = upd_folder g p (bump d p t)"
    using bump_commute [of g t p d, OF comm v] by simp
  have "(if c then recursiveIncrementNumDescendantsSelected d p t else t) = bump d p t"
    using cond recursiveIncrement_bump [OF v, of d] by (simp add: bump_zero)
  with bump_edit [of t p G g d, OF G ok fresh same subs] e show ?thesis by simp
qed

lemma edit_before_increment:
  assumes G: "get_folder t p = Some G" and ok: "counts_ok t"
    and fresh: "fresh_count (g G) = fresh_count G + d"
    and same: "self (g G) = self G" "fstate (g G) = fstate G"
    and subs: "list_all counts_ok (mFolders (g G))"
    and cond: "c \<longleftrightarrow> d \<noteq> 0"
  shows "counts_ok (if c then recursiveIncrementNumDescendantsSelected d p (upd_folder g p t)
                    else upd_folder g p t)"
proof -
  have v: "get_folder (upd_folder g p t) p \<noteq> None"
    using G by (simp add: get_folder_upd_same)
  have "(if c then recursiveIncrementNumDescendantsSelected d p (upd_folder g p t)
         else upd_folder g p t) = bump d p (upd_folder g p t)"
    using cond recursiveIncrement_bump [OF v, of d] by (simp add: bump_zero)
  with bump_edit [of t p G g d, OF G ok fresh same subs] show ?thesis by simp
qed

lemma neutral_ok: "sel_of t' = sel_of t \<Longrightarrow> counts_ok t \<Longrightarrow> counts_ok t'"
  using sel_of_counts_ok by blast

lemma extractItem_ok:
  assumes ok: "counts_ok t" and res: "extractItem p item t = Inr (t', u)"
  shows "counts_ok t'"
proof (cases "get_folder t p")
  case None
  with res show ?thesis by (simp add: extractItem_def)
next
  case (Some G)
  obtain s fs subs its where GF: "G = Folder s fs subs its" by (cases G)
  have okG: "counts_ok G" by (rule counts_ok_sub [OF ok Some])
  define t1 where "t1 =
     (case item_index p (length (mItems G)) item of
        Some j \<Rightarrow>
          upd_folder (erase_item j) p
            (if mIsSelected (mItems G ! j)
             then recursiveIncrementNumDescendantsSelected (- 1) p t else t)
      | None \<Rightarrow>
          (case folder_index p (length (mFolders G)) item of
             Some k \<Rightarrow>
               upd_folder (erase_folder k) p
                 (if numSelected (mFolders G ! k) \<noteq> 0
                  then recursiveIncrementNumDescendantsSelected
                         (- numSelected (mFolders G ! k)) p t
                  else t)
           | None \<Rightarrow> t))"
  have t1: "counts_ok t1"
  proof (cases "item_index p (length (mItems G)) item")
    case (Some j)
    then have j: "j < length its" using GF
      by (auto simp: item_index_def split: ref.splits if_splits)
    let ?d = "- sel_n (its ! j)"
    have "counts_ok (upd_folder (erase_item j) p
           (if mIsSelected (its ! j) then recursiveIncrementNumDescendantsSelected ?d p t else t))"
    proof (rule edit_after_increment [OF \<open>get_folder t p = Some G\<close> ok])
      show "erase_item j (map_fstate a G) = map_fstate a (erase_item j G)" for a G
        by (rule erase_item_commute)
      show "fresh_count (erase_item j G) = fresh_count G + ?d"
        using j GF by (simp add: erase_item_def sum_list_take_drop_Suc)
      show "self (erase_item j G) = self G" "fstate (erase_item j G) = fstate G"
        using GF by (simp_all add: erase_item_def)
      show "list_all counts_ok (mFolders (erase_item j G))"
        using okG GF by (simp add: erase_item_def)
      show "mIsSelected (its ! j) \<longleftrightarrow> ?d \<noteq> 0" by (simp add: sel_n_def)
    qed
    moreover have "mIsSelected (its ! j) \<Longrightarrow> ?d = - 1" by (simp add: sel_n_def)
    ultimately show ?thesis using Some GF by (auto simp: t1_def)
  next
    case None
    show ?thesis
    proof (cases "folder_index p (length (mFolders G)) item")
      case nf: None
      with None ok show ?thesis by (simp add: t1_def)
    next
      case (Some k)
      then have k: "k < length subs" using GF
        by (auto simp: folder_index_def split: ref.splits if_splits)
      let ?c = "subs ! k"
      have okc: "counts_ok ?c" using okG GF k by (simp add: list_all_length)
      let ?d = "- numSelected ?c"
      have "counts_ok (upd_folder (erase_folder k) p
           (if numSelected ?c \<noteq> 0 then recursiveIncrementNumDescendantsSelected ?d p t else t))"
      proof (rule edit_after_increment [OF \<open>get_folder t p = Some G\<close> ok])
        show "erase_folder k (map_fstate a G) = map_fstate a (erase_folder k G)" for a G
          by (rule erase_folder_commute)
        show "fresh_count (erase_folder k G) = fresh_count G + ?d"
          using k GF numSelected_fresh [OF okc]
          by (simp add: erase_folder_def sum_list_take_drop_Suc)
        show "self (erase_folder k G) = self G" "fstate (erase_folder k G) = fstate G"
          using GF by (simp_all add: erase_folder_def)
        show "list_all counts_ok (mFolders (erase_folder k G))"
          using okG GF by (auto simp: erase_folder_def list_all_iff dest: in_set_takeD in_set_dropD)
        show "numSelected ?c \<noteq> 0 \<longleftrightarrow> ?d \<noteq> 0" by simp
      qed
      with None Some GF show ?thesis by (auto simp: t1_def split: if_splits)
    qed
  qed
  have "t' = requestArrange p (folder_dirtyFilter p t1)"
    using Some res by (auto simp: extractItem_def t1_def Let_def split: option.splits)
  moreover have "sel_of (requestArrange p (folder_dirtyFilter p t1)) = sel_of t1" by simp
  ultimately show ?thesis using neutral_ok [OF _ t1] by simp
qed

lemma sel_of_setVisible: "sel_of (upd_node (setVisible b) r t) = sel_of t"
  by (rule sel_of_upd_node) (simp add: setVisible_def)

lemma addItem_ok:
  assumes ok: "counts_ok t"
  shows "counts_ok (addItem p pos item t)"
proof (cases "get_folder t p")
  case None
  with ok show ?thesis by (simp add: addItem_def)
next
  case (Some G)
  obtain s fs subs its where GF: "G = Folder s fs subs its" by (cases G)
  have okG: "counts_ok G" by (rule counts_ok_sub [OF ok Some])
  define j where "j = min pos (length (mItems G))"
  define t2 where "t2 = (if mIsSelected item
      then recursiveIncrementNumDescendantsSelected 1 p (upd_folder (insert_item j item) p t)
      else upd_folder (insert_item j item) p t)"
  let ?d = "sel_n item"
  have "counts_ok (if mIsSelected item
      then recursiveIncrementNumDescendantsSelected ?d p (upd_folder (insert_item j item) p t)
      else upd_folder (insert_item j item) p t)"
  proof (rule edit_before_increment [OF Some ok])
    show "fresh_count (insert_item j item G) = fresh_count G + ?d"
      using GF by (simp add: insert_item_def sum_list_take_drop)
    show "self (insert_item j item G) = self G" "fstate (insert_item j item G) = fstate G"
      using GF by (simp_all add: insert_item_def)
    show "list_all counts_ok (mFolders (insert_item j item G))"
      using okG GF by (simp add: insert_item_def)
    show "mIsSelected item \<longleftrightarrow> ?d \<noteq> 0" by (simp add: sel_n_def)
  qed
  moreover have "mIsSelected item \<Longrightarrow> ?d = 1" by (simp add: sel_n_def)
  ultimately have t2: "counts_ok t2" by (auto simp: t2_def)
  have "addItem p pos item t
      = requestArrange p (dirtyFilter (ItemRef p j) (upd_node (setVisible False) (ItemRef p j) t2))"
    using Some by (simp add: addItem_def t2_def j_def Let_def)
  moreover have "sel_of (requestArrange p (dirtyFilter (ItemRef p j)
      (upd_node (setVisible False) (ItemRef p j) t2))) = sel_of t2"
    by (simp add: sel_of_setVisible)
  ultimately show ?thesis using neutral_ok [OF _ t2] by simp
qed

lemma insert_folder_counts:
  assumes ok: "counts_ok t" and G: "get_folder t p = Some G" and okc: "counts_ok c"
  shows "counts_ok (if numSelected c \<noteq> 0
      then recursiveIncrementNumDescendantsSelected (numSelected c) p
             (upd_folder (insert_folder k c) p t)
      else upd_folder (insert_folder k c) p t)"
proof (rule edit_before_increment [OF G ok])
  obtain s fs subs its where GF: "G = Folder s fs subs its" by (cases G)
  have okG: "counts_ok G" by (rule counts_ok_sub [OF ok G])
  show "fresh_count (insert_folder k c G) = fresh_count G + numSelected c"
    using GF numSelected_fresh [OF okc] by (simp add: insert_folder_def sum_list_take_drop)
  show "self (insert_folder k c G) = self G" "fstate (insert_folder k c G) = fstate G"
    using GF by (simp_all add: insert_folder_def)
  show "list_all counts_ok (mFolders (insert_folder k c G))"
    using okG GF okc
    by (auto simp: insert_folder_def list_all_iff dest: in_set_takeD in_set_dropD)
  show "numSelected c \<noteq> 0 \<longleftrightarrow> numSelected c \<noteq> 0" by simp
qed

lemma addFolder_ok:
  assumes ok: "counts_ok t" and okc: "counts_ok c"
  shows "counts_ok (addFolder p pos c t)"
proof (cases "get_folder t p")
  case None
  with ok show ?thesis by (simp add: addFolder_def)
next
  case (Some G)
  define k where "k = min pos (length (mFolders G))"
  define t2 where "t2 = (if numSelected c \<noteq> 0
      then recursiveIncrementNumDescendantsSelected (numSelected c) p
             (upd_folder (insert_folder k c) p t)
      else upd_folder (insert_folder k c) p t)"
  have t2: "counts_ok t2" unfolding t2_def by (rule insert_folder_counts [OF ok Some okc])
  have "addFolder p pos c t
      = requestArrange_include_descendants (p @ [k])
          (folder_dirtyFilter (p @ [k]) (upd_node (setVisible False) (FolderRef (p @ [k])) t2))"
    using Some by (simp add: addFolder_def t2_def k_def Let_def)
  moreover have "sel_of (requestArrange_include_descendants (p @ [k])
          (folder_dirtyFilter (p @ [k]) (upd_node (setVisible False) (FolderRef (p @ [k])) t2)))
      = sel_of t2"
    by (simp add: sel_of_setVisible)
  ultimately show ?thesis using neutral_ok [OF _ t2] by simp
qed

lemma view_addFolder_ok:
  assumes ok: "counts_ok t" and okc: "counts_ok c" and res: "view_addFolder lib c t = Inr t'"
  shows "counts_ok t'"
proof -
  from res obtain l where l: "mListener (self c) = Some l"
    by (auto simp: view_addFolder_def split: option.splits)
  define k where "k = (if getUUID l = lib then length (mFolders t) else 0)"
  define t2 where "t2 = (if numSelected c \<noteq> 0
      then recursiveIncrementNumDescendantsSelected (numSelected c) []
             (upd_folder (insert_folder k c) [] t)
      else upd_folder (insert_folder k c) [] t)"
  have G: "get_folder t [] = Some t" by simp
  have t2: "counts_ok t2" unfolding t2_def by (rule insert_folder_counts [OF ok G okc])
  have "t' = requestArrange [k]
          (folder_dirtyFilter [k] (upd_node (setVisible False) (FolderRef [k]) t2))"
    using res l by (auto simp: view_addFolder_def t2_def k_def Let_def)
  moreover have "sel_of (requestArrange [k]
          (folder_dirtyFilter [k] (upd_node (setVisible False) (FolderRef [k]) t2)))
      = sel_of t2"
    by (simp add: sel_of_setVisible)
  ultimately show ?thesis using neutral_ok [OF _ t2] by simp
qed

lemma extractItem_without_listener:
  "get_folder t p = Some F \<Longrightarrow> get_node t item = Some i \<Longrightarrow> mListener i = None \<Longrightarrow>
   extractItem p item t = Inl NullPointerRead"
  by (simp add: extractItem_def Let_def)

lemma view_addFolder_without_listener:
  "mListener (self c) = None \<Longrightarrow> view_addFolder lib c t = Inl NullPointerRead"
  by (simp add: view_addFolder_def)

lemma apply_op_ok:
  assumes "counts_ok t" "admissible op t" "apply_op op t = Inr t'"
  shows "counts_ok t'"
proof (cases op)
  case (SelectItem r)
  with assms selectItem_ok [of t r] show ?thesis by auto
next
  case (DeselectItem r)
  with assms deselectItem_ok [of t r] show ?thesis by auto
next
  case (SetSelection p sel oi)
  with assms folder_setSelection_ok(1) [OF assms(1) refl _ refl, of p sel oi]
  show ?thesis by auto
next
  case (ChangeSelection p sel b)
  with assms folder_changeSelection_ok(1) [OF assms(1) refl _ refl, of p sel b]
  show ?thesis by auto
next
  case (RecursiveDeselect p b)
  with assms(3) recursiveDeselect_ok(1) [OF assms(1) refl, of b p] show ?thesis by auto
next
  case (ExtractItem p item)
  with assms(3) obtain u where "extractItem p item t = Inr (t', u)"
    by (auto split: sum.splits)
  with assms(1) show ?thesis by (rule extractItem_ok)
next
  case (AddItem p pos item)
  with assms addItem_ok [of t p pos item] show ?thesis by auto
next
  case (AddFolder p pos c)
  with assms addFolder_ok [of t c p pos] show ?thesis by auto
next
  case (ViewAddFolder lib c)
  with assms have "counts_ok c" "view_addFolder lib c t = Inr t'" by simp_all
  with assms(1) show ?thesis by (rule view_addFolder_ok)
qed

text \<open>
  Claim C6.  After any sequence of admissible selection mutations (\<open>selectItem\<close>,
  \<open>deselectItem\<close>, \<open>setSelection\<close>, \<open>changeSelection\<close>, \<open>recursiveDeselect\<close>, \<open>extractItem\<close>,
  \<open>addItem\<close>, \<open>addFolder\<close>) that runs to its end, on a tree whose counts are right, every
  folder's \<open>mNumDescendantsSelected\<close>, which these methods only increment and decrement up
  the chain of parents, equals the fresh recursive count of the selected nodes below the
  folder.
\<close>

theorem selected_descendants_count:
  assumes "counts_ok t" "run_ops ops t = Some (Inr t')"
  shows "counts_ok t'"
  using assms
proof (induction ops arbitrary: t)
  case Nil
  then show ?case by simp
next
  case (Cons op ops)
  from Cons.prems(2) obtain t1 where a: "admissible op t" and o: "apply_op op t = Inr t1"
    and r: "run_ops ops t1 = Some (Inr t')"
    by (auto split: if_splits sum.splits)
  from Cons.IH [OF apply_op_ok [OF Cons.prems(1) a o] r] show ?case .
qed

lemmas ex_sel_defs = ex_sel_def ex_listener_def new_item_def new_folder_state_def shape_at_def
  items_changeSelection_def item_changeSelection_def isSelected_def get_node_def get_item_def
  selectItem_def deselectItem_def upd_node_def getParentFolder_def map_item_def map_self_def
  map_fstate_def add_selected_def recursiveIncrementNumDescendantsSelected.simps
  extractItem_def item_index_def folder_index_def numSelected_def erase_folder_def
  erase_item_def folder_dirtyFilter_def dirtyFilter_def setCompletedFilterGeneration_up.simps
  setCompletedFilterGeneration_def requestArrange.simps requestArrange_here_def
  getCompletedFilterGeneration_def Let_def upt_rec

lemma ex_ops_result:
  "map_option (map_sum id sel_of) (run_ops ex_ops ex_sel) = Some (Inr (SelTree False 1 [] [True]))"
  by (simp add: ex_ops_def ex_sel_defs)

theorem selected_descendants_count_witness:
  "counts_ok ex_sel \<and>
   (\<exists>t'. run_ops ex_ops ex_sel = Some (Inr t') \<and> sel_of t' = SelTree False 1 [] [True] \<and>
         counts_ok t')"
proof -
  have 1: "counts_ok ex_sel"
    by (simp add: ex_sel_def new_item_def new_folder_state_def sel_n_def)
  from ex_ops_result obtain t' where t': "run_ops ex_ops ex_sel = Some (Inr t')"
    "sel_of t' = SelTree False 1 [] [True]"
    by (cases "run_ops ex_ops ex_sel") (auto simp: map_sum_def split: sum.splits)
  from selected_descendants_count [OF 1 t'(1)] 1 t' show ?thesis by blast
qed
section \<open>The sanitized selection\<close>

lemma unsel_upd:
  assumes "\<And>G. unsel (f G) = unsel G"
  shows "unsel (upd_folder f p t) = unsel t"
proof (induction p arbitrary: t)
  case Nil
  show ?case by (simp add: assms)
next
  case (Cons k p)
  show ?case by (cases t) (simp add: Cons.IH map_update list_update_same_conv)
qed

lemma unsel_map_fstate:
  "(\<And>fs. a fs\<lparr>mNumDescendantsSelected := 0\<rparr> = fs\<lparr>mNumDescendantsSelected := 0\<rparr>) \<Longrightarrow>
     unsel (map_fstate a F) = unsel F"
  by (cases F) (simp add: map_fstate_def)

lemma unsel_map_self: "(\<And>i. clr (h i) = clr i) \<Longrightarrow> unsel (map_self h F) = unsel F"
  by (cases F) (simp add: map_self_def)

lemma unsel_map_item: "(\<And>i. clr (h i) = clr i) \<Longrightarrow> unsel (map_item h j F) = unsel F"
  by (cases F) (simp add: map_item_def map_update list_update_same_conv)

lemma unsel_upd_node: "(\<And>i. clr (h i) = clr i) \<Longrightarrow> unsel (upd_node h r t) = unsel t"
  by (cases r) (simp_all add: upd_node_def unsel_upd unsel_map_self unsel_map_item)

lemma unsel_recursiveIncrement [simp]:
  "unsel (recursiveIncrementNumDescendantsSelected inc p t) = unsel t"
proof (induction inc p t rule: recursiveIncrementNumDescendantsSelected.induct)
  case (1 inc p t)
  have u: "unsel (upd_folder (map_fstate (add_selected inc)) p t) = unsel t"
    by (simp add: unsel_upd unsel_map_fstate add_selected_def)
  show ?case
  proof (cases "p = []")
    case True
    with u show ?thesis
      by (subst recursiveIncrementNumDescendantsSelected.simps) simp
  next
    case False
    with "1.IH" [OF refl False] u show ?thesis
      by (subst recursiveIncrementNumDescendantsSelected.simps) simp
  qed
qed

lemma unsel_selectItem [simp]: "unsel (selectItem r t) = unsel t"
  by (simp add: selectItem_def Let_def unsel_upd_node clr_def split: option.splits)

lemma unsel_deselectItem [simp]: "unsel (deselectItem r t) = unsel t"
  by (simp add: deselectItem_def Let_def unsel_upd_node clr_def split: option.splits)

lemma unsel_setIsCurSelection [simp]: "unsel (setIsCurSelection b r t) = unsel t"
  by (simp add: setIsCurSelection_def unsel_upd_node clr_def)

lemma unsel_item_changeSelection [simp]:
  "unsel (fst (item_changeSelection sel b r t)) = unsel t"
  by (simp add: item_changeSelection_def)

lemma unsel_item_setSelection [simp]:
  "unsel (fst (item_setSelection sel r t)) = unsel t"
  by (simp add: item_setSelection_def Let_def)

lemma unsel_items_changeSelection [simp]:
  "unsel (fst (items_changeSelection sel b p n st)) = unsel (fst st)"
  unfolding items_changeSelection_def
  by (rule fold_invariant [where P = "\<lambda>s. unsel (fst s) = unsel (fst st)"])
     (simp_all add: split_beta)

lemma unsel_items_setSelection [simp]:
  "unsel (fst (items_setSelection sel p n st)) = unsel (fst st)"
  unfolding items_setSelection_def
  by (rule fold_invariant [where P = "\<lambda>s. unsel (fst s) = unsel (fst st)"])
     (simp_all add: split_beta)

lemma unsel_items_deselect [simp]: "unsel (items_deselect p n t) = unsel t"
  unfolding items_deselect_def
  by (rule fold_invariant [where P = "\<lambda>s. unsel s = unsel t"]) simp_all

lemma unsel_folder_changeSelection:
  "unsel (fst (folder_changeSelection sel b p sh t)) = unsel t"
  "unsel (fst (folders_changeSelection sel b p k cs st)) = unsel (fst st)"
proof (induction sel b p sh t and sel b p k cs st
    rule: folder_changeSelection_folders_changeSelection.induct)
  case (1 selection selected p subs n t)
  from "1.IH" [OF refl refl] show ?case by (simp add: Let_def)
next
  case (2 selection selected p k st)
  show ?case by simp
next
  case (3 selection selected p k c cs st)
  obtain t' r where f: "folder_changeSelection selection selected (p @ [k]) c (fst st) = (t', r)"
    by (cases "folder_changeSelection selection selected (p @ [k]) c (fst st)")
  from "3.IH"(1) f have "unsel t' = unsel (fst st)" by simp
  with "3.IH"(2) [OF f [symmetric] refl] f show ?case by simp
qed

lemma unsel_folder_setSelection:
  "\<not> oi \<Longrightarrow> unsel (fst (folder_setSelection sel oi p sh t)) = unsel t"
  "\<not> oi \<Longrightarrow> unsel (fst (folders_setSelection sel oi p k cs st)) = unsel (fst st)"
proof (induction sel oi p sh t and sel oi p k cs st
    rule: folder_setSelection_folders_setSelection.induct)
  case (1 selection openitem p subs n t)
  from "1.IH" [OF refl refl "1.prems"] "1.prems" show ?case by (simp add: Let_def split_beta)
next
  case (2 selection openitem p k st)
  show ?case by simp
next
  case (3 selection openitem p k c cs st)
  obtain t' r where f: "folder_setSelection selection openitem (p @ [k]) c (fst st) = (t', r)"
    by (cases "folder_setSelection selection openitem (p @ [k]) c (fst st)")
  from "3.IH"(1) [OF "3.prems"] f have "unsel t' = unsel (fst st)" by simp
  with "3.IH"(2) [OF f [symmetric] refl "3.prems"] f show ?case by simp
qed

lemma unsel_recursiveDeselect:
  "unsel (recursiveDeselect b p sh t) = unsel t"
  "unsel (recursiveDeselect_folders p k cs t) = unsel t"
proof (induction b p sh t and p k cs t rule: recursiveDeselect_recursiveDeselect_folders.induct)
  case (1 deselect_self p subs n t)
  show ?case
  proof (cases "getNumDescendantsSelected
      (if isSelected t (FolderRef p) \<and> deselect_self then deselectItem (FolderRef p) t else t) p = 0")
    case True
    then show ?thesis by (simp add: Let_def)
  next
    case False
    from "1.IH" [OF refl refl False] False show ?thesis by (simp add: Let_def)
  qed
next
  case (2 p k t)
  show ?case by simp
next
  case (3 p k c cs t)
  then show ?case by simp
qed

text \<open>The open state and the potential visibility of a node do not read the selection.\<close>

lemma get_folder_unsel: "get_folder (unsel t) p = map_option unsel (get_folder t p)"
proof (induction p arbitrary: t)
  case Nil
  show ?case by simp
next
  case (Cons k p)
  show ?case by (cases t) (simp add: Cons.IH)
qed

lemma isOpen_unsel: "isOpen (unsel t) r = isOpen t r"
proof (cases r)
  case (FolderRef p)
  show ?thesis
  proof (cases "get_folder t p")
    case None
    with FolderRef show ?thesis by (simp add: isOpen_def get_folder_unsel)
  next
    case (Some F)
    with FolderRef show ?thesis by (cases F) (simp add: isOpen_def get_folder_unsel)
  qed
next
  case (ItemRef p j)
  then show ?thesis by (simp add: isOpen_def)
qed

lemma item_potentiallyVisible_clr:
  "item_potentiallyVisible flt (clr i) = item_potentiallyVisible flt i"
  by (simp add: item_potentiallyVisible_def getFiltered_def clr_def)

lemma folder_potentiallyVisible_unsel:
  "folder_potentiallyVisible flt (unsel F) = folder_potentiallyVisible flt F"
  by (cases F)
     (simp add: folder_potentiallyVisible_def item_potentiallyVisible_clr hasFilteredDescendants_def)

lemma potentiallyVisible_unsel:
  "potentiallyVisible (v\<lparr>root := unsel (root v)\<rparr>) r = potentiallyVisible v r"
proof (cases r)
  case (FolderRef p)
  then show ?thesis
    by (cases "get_folder (root v) p")
       (simp_all add: potentiallyVisible_def get_folder_unsel folder_potentiallyVisible_unsel)
next
  case (ItemRef p j)
  show ?thesis
  proof (cases "get_folder (root v) p")
    case None
    with ItemRef show ?thesis by (simp add: potentiallyVisible_def get_item_def get_folder_unsel)
  next
    case (Some F)
    with ItemRef show ?thesis
      by (cases F)
         (simp add: potentiallyVisible_def get_item_def get_folder_unsel item_potentiallyVisible_clr)
  qed
qed

lemma same_frame_refl [simp]: "same_frame v v"
  by (simp add: same_frame_def)

lemma same_frame_trans: "same_frame v v' \<Longrightarrow> same_frame v' v'' \<Longrightarrow> same_frame v v''"
  by (simp add: same_frame_def)

lemma set_back_cur_frame [simp]: "same_frame v (set_back_cur b v)"
  by (simp add: same_frame_def set_back_cur_def)

lemma set_back_cur_list [simp]: "mSelectedItems (set_back_cur b v) = mSelectedItems v"
  by (simp add: set_back_cur_def)

lemma removeFromSelectionList_frame [simp]: "same_frame v (removeFromSelectionList item v)"
  by (simp add: same_frame_def removeFromSelectionList_def set_back_cur_def Let_def)

lemma removeFromSelectionList_list [simp]:
  "mSelectedItems (removeFromSelectionList item v) = filter (\<lambda>r. r \<noteq> item) (mSelectedItems v)"
  by (simp add: removeFromSelectionList_def Let_def)

lemma addToSelectionList_frame [simp]: "same_frame v (addToSelectionList item v)"
proof -
  have "same_frame v (if isSelected (root v) item then removeFromSelectionList item v else v)"
    by simp
  then show ?thesis
    by (simp add: same_frame_def addToSelectionList_def set_back_cur_def Let_def)
qed

lemma addToSelectionList_list:
  "mSelectedItems (addToSelectionList item v) =
     (if isSelected (root v) item then filter (\<lambda>r. r \<noteq> item) (mSelectedItems v)
      else mSelectedItems v) @ [item]"
  by (simp add: addToSelectionList_def Let_def)

lemma clearSelection_frame [simp]: "same_frame v (clearSelection v)"
  by (simp add: same_frame_def clearSelection_def unsel_recursiveDeselect)

lemma clearSelection_list [simp]: "mSelectedItems (clearSelection v) = []"
  by (simp add: clearSelection_def)

lemma same_frame_root:
  "same_frame v w \<Longrightarrow> unsel t = unsel (root w) \<Longrightarrow> same_frame v (w\<lparr>root := t\<rparr>)"
  by (simp add: same_frame_def)

lemma same_frame_steps:
  "same_frame v w \<Longrightarrow> same_frame v (clearSelection w)"
  "same_frame v w \<Longrightarrow> same_frame v (addToSelectionList s w)"
  "same_frame v w \<Longrightarrow> same_frame v (removeFromSelectionList s w)"
  by (blast intro: same_frame_trans clearSelection_frame addToSelectionList_frame
      removeFromSelectionList_frame)+

lemma view_changeSelection_frame [simp]:
  "same_frame v (fst (view_changeSelection sel b v))"
proof (cases sel)
  case None
  then show ?thesis by (simp add: view_changeSelection_def)
next
  case (Some s)
  show ?thesis
  proof (cases "s = Root")
    case True
    with Some show ?thesis by (simp add: view_changeSelection_def)
  next
    case False
    with Some show ?thesis
      unfolding view_changeSelection_def Let_def split_beta
      by (auto intro!: same_frame_root same_frame_steps simp: unsel_folder_changeSelection)
  qed
qed

lemma view_changeSelection_list:
  "mSelectedItems (fst (view_changeSelection (Some s) False v)) =
     (if s = Root then mSelectedItems v
      else if \<not> mAllowMultiSelect v then []
      else filter (\<lambda>r. r \<noteq> s) (mSelectedItems v))"
proof -
  have "filter (\<lambda>r. r \<noteq> s) xs = xs" if "s \<notin> set xs" for xs :: "ref list"
    using that by (induction xs) auto
  then show ?thesis
    by (auto simp: view_changeSelection_def Let_def split_beta)
qed

lemma view_setSelection_frame:
  "same_frame v (fst (view_setSelection sel False fc v))"
proof (cases "sel = Some Root")
  case True
  then show ?thesis by (simp add: view_setSelection_def)
next
  case False
  then show ?thesis
    unfolding view_setSelection_def Let_def split_beta
    by (cases sel)
       (auto intro!: same_frame_root same_frame_steps simp: unsel_folder_setSelection)
qed

lemma view_setSelection_list:
  assumes "mSelectedItems v = []"
  shows "mSelectedItems (fst (view_setSelection (Some n) False fc v)) =
     (if n = Root then [] else [n])"
  using assms
  by (simp add: view_setSelection_def Let_def split_beta addToSelectionList_list clearSelection_def)

text \<open>What two views with the same frame agree on.\<close>

lemma same_frame_isOpen: "same_frame v v' \<Longrightarrow> isOpen (root v') r = isOpen (root v) r"
  by (metis isOpen_unsel same_frame_def)

lemma potentiallyVisible_cong:
  "root v = root v' \<Longrightarrow> mFilter v = mFilter v' \<Longrightarrow> potentiallyVisible v r = potentiallyVisible v' r"
  by (cases r) (simp_all add: potentiallyVisible_def split: option.splits)

lemma same_frame_potentiallyVisible:
  assumes "same_frame v v'"
  shows "potentiallyVisible v' r = potentiallyVisible v r"
proof -
  have "potentiallyVisible (v'\<lparr>root := unsel (root v')\<rparr>) r
      = potentiallyVisible (v\<lparr>root := unsel (root v)\<rparr>) r"
    using assms by (intro potentiallyVisible_cong) (simp_all add: same_frame_def)
  then show ?thesis by (simp add: potentiallyVisible_unsel)
qed

lemma same_frame_chain_ok: "same_frame v v' \<Longrightarrow> chain_ok v' r = chain_ok v r"
  by (simp add: chain_ok_def same_frame_isOpen same_frame_potentiallyVisible)

lemma same_frame_fallback_selection:
  "same_frame v v' \<Longrightarrow> fallback_selection v' r = fallback_selection v r"
  by (simp add: fallback_selection_def same_frame_isOpen same_frame_potentiallyVisible Let_def
      cong: if_cong)

lemma same_frame_getItemByID: "same_frame v v' \<Longrightarrow> getItemByID v' u = getItemByID v u"
  by (simp add: getItemByID_def same_frame_def)

lemma same_frame_show_all: "same_frame v v' \<Longrightarrow> show_all v' = show_all v"
  by (simp add: show_all_def same_frame_def)



lemma fallback_fold:
  "fold (\<lambda>q new_selection.
             if P q
             then (let n1 = (if new_selection = None then Some (FolderRef q) else new_selection)
                   in if \<not> Opn q then Some (FolderRef q) else n1)
             else new_selection) qs acc
   = (let pv = filter P qs; closed = filter (\<lambda>q. \<not> Opn q) pv
      in if closed \<noteq> [] then Some (FolderRef (last closed))
         else if acc \<noteq> None then acc
         else if pv \<noteq> [] then Some (FolderRef (hd pv))
         else None)"
proof (induction qs arbitrary: acc)
  case Nil
  show ?case by simp
next
  case (Cons q qs)
  show ?case by (auto simp add: Cons.IH Let_def filter_empty_conv)
qed

lemma fallback_selection_spec: "fallback_selection v r = fallback_spec v r"
  unfolding fallback_selection_def fallback_spec_def
  by (subst fallback_fold) (simp add: Let_def)

lemma removal_fold:
  "same_frame v (fold (\<lambda>item v. fst (view_changeSelection (Some item) False v)) xs v) \<and>
   (\<forall>r \<in> set (mSelectedItems
        (fold (\<lambda>item v. fst (view_changeSelection (Some item) False v)) xs v)).
      r \<in> set (mSelectedItems v) \<and> (r \<notin> set xs \<or> r = Root))"
proof (induction xs arbitrary: v)
  case Nil
  show ?case by simp
next
  case (Cons x xs)
  let ?v1 = "fst (view_changeSelection (Some x) False v)"
  have f: "same_frame v ?v1" by simp
  have l: "\<forall>r \<in> set (mSelectedItems ?v1). r \<in> set (mSelectedItems v) \<and> (r \<noteq> x \<or> r = Root)"
    by (auto simp: view_changeSelection_list)
  from Cons.IH [of ?v1] have f2: "same_frame ?v1 (fold (\<lambda>item v. fst (view_changeSelection (Some item) False v)) xs ?v1)"
    and l2: "\<forall>r \<in> set (mSelectedItems
        (fold (\<lambda>item v. fst (view_changeSelection (Some item) False v)) xs ?v1)).
      r \<in> set (mSelectedItems ?v1) \<and> (r \<notin> set xs \<or> r = Root)" by blast+
  from same_frame_trans [OF f f2] l l2 show ?case by auto
qed

lemma ancestors_Root: "ancestors Root = []"
  by (subst ancestors.simps) (simp add: getParentFolder_def)

lemma sanitize_remove_kept:
  "same_frame v (sanitize_remove v) \<and>
   (\<forall>r \<in> set (mSelectedItems (sanitize_remove v)).
      r \<in> set (mSelectedItems v) \<and> (r \<notin> set (items_to_remove v) \<or> r = Root))"
  unfolding sanitize_remove_def by (rule removal_fold)



lemma sanitizeSelection_list:
  "mSelectedItems (sanitizeSelection rid v) =
     (if mSelectedItems (sanitize_remove v) \<noteq> [] then mSelectedItems (sanitize_remove v)
      else (case (case getCurSelectedItem v of
                    Some original \<Rightarrow> fallback_spec v original
                  | None \<Rightarrow> getItemByID v rid) of
              Some n \<Rightarrow> if n = Root then [] else [n]
            | None \<Rightarrow> []))"
proof (cases "mSelectedItems (sanitize_remove v) = []")
  case False
  then show ?thesis by (simp add: sanitizeSelection_def Let_def)
next
  case True
  from sanitize_remove_kept [of v] have f: "same_frame v (sanitize_remove v)" by simp
  let ?n = "case getCurSelectedItem v of
              Some original \<Rightarrow> fallback_selection (sanitize_remove v) original
            | None \<Rightarrow> getItemByID (sanitize_remove v) rid"
  have n: "?n = (case getCurSelectedItem v of
                    Some original \<Rightarrow> fallback_spec v original
                  | None \<Rightarrow> getItemByID v rid)"
    using same_frame_fallback_selection [OF f] same_frame_getItemByID [OF f]
    by (simp add: fallback_selection_spec split: option.splits)
  have res: "sanitizeSelection rid v =
      (case ?n of Some n \<Rightarrow> fst (view_setSelection (Some n) False False (sanitize_remove v))
       | None \<Rightarrow> sanitize_remove v)"
    using True by (simp add: sanitizeSelection_def Let_def)
  show ?thesis
  proof (cases ?n)
    case None
    from None have "sanitizeSelection rid v = sanitize_remove v" unfolding res by simp
    moreover from None n have "(case getCurSelectedItem v of
                    Some original \<Rightarrow> fallback_spec v original
                  | None \<Rightarrow> getItemByID v rid) = None" by simp
    ultimately show ?thesis using True by simp
  next
    case (Some m)
    from Some have "sanitizeSelection rid v
        = fst (view_setSelection (Some m) False False (sanitize_remove v))"
      unfolding res by simp
    moreover from Some n have "(case getCurSelectedItem v of
                    Some original \<Rightarrow> fallback_spec v original
                  | None \<Rightarrow> getItemByID v rid) = Some m" by simp
    ultimately show ?thesis using True view_setSelection_list [OF True, of m False] by simp
  qed
qed

lemma sanitizeSelection_frame: "same_frame v (sanitizeSelection rid v)"
proof -
  from sanitize_remove_kept [of v] have f: "same_frame v (sanitize_remove v)" by simp
  have "same_frame (sanitize_remove v) (sanitizeSelection rid v)"
    by (auto simp: sanitizeSelection_def Let_def view_setSelection_frame split: option.splits)
  with f show ?thesis by (rule same_frame_trans)
qed



lemma ancestors_suffix: "ancestors r = xs @ q # ys \<Longrightarrow> ancestors (FolderRef q) = ys"
proof (induction xs arbitrary: r)
  case Nil
  then show ?case by (subst (asm) ancestors.simps) (auto split: option.splits)
next
  case (Cons x xs)
  from Cons.prems have "ancestors (FolderRef x) = xs @ q # ys"
    by (subst (asm) ancestors.simps) (auto split: option.splits)
  then show ?case by (rule Cons.IH)
qed








text \<open>The examples.\<close>

lemma ancestors_ItemRef: "ancestors (ItemRef p j) = p # ancestors (FolderRef p)"
  by (subst ancestors.simps) (simp add: getParentFolder_def)

lemma ancestors_FolderRef_snoc: "ancestors (FolderRef (p @ [k])) = p # ancestors (FolderRef p)"
  by (subst ancestors.simps) (simp add: getParentFolder_def)

lemma ancestors_ex: "ancestors (ItemRef [0, 0] 0) = [[0, 0], [0], []]"
  using ancestors_FolderRef_snoc [of "[0]" 0] ancestors_FolderRef_snoc [of "[]" 0]
  by (simp add: ancestors_ItemRef ancestors_Root)






lemmas ex_filtered_defs = ex_filtered_view_def new_view_def new_filter_def
  new_item_def new_folder_state_def ex_selected_def potentiallyVisible_def
  folder_potentiallyVisible_def item_potentiallyVisible_def getFiltered_def
  hasFilteredDescendants_def isOpen_def get_item_def

lemma ex_filtered_remove: "items_to_remove ex_filtered_view = [ItemRef [0, 0] 0]"
  by (simp add: items_to_remove_def sanitize_visible_def getParentFolder_def ancestors_ex
      ex_filtered_defs)

lemma ex_filtered_kept: "mSelectedItems (sanitize_remove ex_filtered_view) = []"
  by (simp add: sanitize_remove_def ex_filtered_remove view_changeSelection_list)
     (simp add: ex_filtered_view_def new_view_def)

lemma ex_filtered_fallback:
  "fallback_spec ex_filtered_view (ItemRef [0, 0] 0) = Some (FolderRef [0, 0])"
  by (simp add: fallback_spec_def ancestors_ex ex_filtered_defs)

text \<open>
  The condition on the ancestors of the previous selection is needed.  In \<open>ex_filtered_view\<close>
  the folder \<open>A\<close> is filtered out and the folder \<open>B\<close> inside it is potentially visible: the
  loop of lines 815-833 skips \<open>A\<close>, takes \<open>B\<close> and does not look at what lies above \<open>B\<close>.
\<close>

lemma sanitize_fallback_filtered_ancestor:
  "\<not> potentiallyVisible ex_filtered_view (FolderRef [0]) \<and>
   \<not> upward_visible ex_filtered_view (ItemRef [0, 0] 0) \<and>
   mSelectedItems (sanitizeSelection 0 ex_filtered_view) = [FolderRef [0, 0]] \<and>
   \<not> show_all (sanitizeSelection 0 ex_filtered_view) \<and>
   \<not> chain_ok (sanitizeSelection 0 ex_filtered_view) (FolderRef [0, 0])"
proof -
  have c: "getCurSelectedItem ex_filtered_view = Some (ItemRef [0, 0] 0)"
    by (simp add: getCurSelectedItem_def ex_filtered_view_def)
  have a: "ancestors (FolderRef [0, 0]) = [[0], []]"
    using ancestors_suffix [of "ItemRef [0, 0] 0" "[]" "[0, 0]" "[[0], []]"]
    by (simp add: ancestors_ex)
  have 1: "\<not> potentiallyVisible ex_filtered_view (FolderRef [0])"
    by (simp add: ex_filtered_defs)
  have 2: "\<not> upward_visible ex_filtered_view (ItemRef [0, 0] 0)"
    by (simp add: upward_visible_def ancestors_ex ex_filtered_defs)
  have 3: "mSelectedItems (sanitizeSelection 0 ex_filtered_view) = [FolderRef [0, 0]]"
    by (simp add: sanitizeSelection_list ex_filtered_kept c ex_filtered_fallback)
  have 4: "\<not> show_all ex_filtered_view"
    by (simp add: show_all_def ex_filtered_defs)
  have 5: "\<not> chain_ok ex_filtered_view (FolderRef [0, 0])"
    using 1 by (simp add: chain_ok_def a)
  from 1 2 3 4 5 same_frame_show_all [OF sanitizeSelection_frame [of ex_filtered_view 0]]
    same_frame_chain_ok [OF sanitizeSelection_frame [of ex_filtered_view 0], of "FolderRef [0, 0]"]
  show ?thesis by simp
qed




section \<open>Removal of a selection that holds a node that is not removable\<close>

lemma check_removable_blocked:
  assumes "find (\<lambda>r. isRemovable t r \<noteq> Some True) rs = Some b" "get_node t b \<noteq> None"
  shows "check_removable t items rs = Inr (Blocked b)"
  using assms(1)
proof (induction rs arbitrary: items)
  case Nil
  then show ?case by simp
next
  case (Cons r rs)
  show ?case
  proof (cases "isRemovable t r = Some True")
    case True
    with Cons.prems have "find (\<lambda>r. isRemovable t r \<noteq> Some True) rs = Some b" by simp
    from Cons.IH [OF this] True show ?thesis by simp
  next
    case False
    with Cons.prems have b: "r = b" by simp
    from assms(2) obtain x where "isRemovable t b = Some x"
      by (cases b)
         (auto simp: isRemovable_def get_node_def split: option.splits)
    with False b show ?thesis by auto
  qed
qed

text \<open>
  With the view disabled, \<open>removeSelectedItems\<close> returns at once: the selected item \<open>locked\<close>
  is not removable, and nothing is written to the log.
\<close>

theorem remove_aborts_counterexample:
  "first_blocker (ex_remove_view\<lparr>viewEnabled := False\<rparr>) = Some (ItemRef [] 1) \<and>
   removeSelectedItems (\<lambda>l. True) True (ex_remove_view\<lparr>viewEnabled := False\<rparr>)
     = Some (Inr (ex_remove_view\<lparr>viewEnabled := False\<rparr>)) \<and>
   infoLog (ex_remove_view\<lparr>viewEnabled := False\<rparr>) = []"
  by (simp add: first_blocker_def removeSelectedItems_def ex_remove_view_def new_view_def
      isRemovable_def get_item_def item_isRemovable_def new_item_def)

text \<open>
  Claim C9, amended.  When the view is visible and enabled and a selected node is not
  removable, \<open>removeSelectedItems\<close> returns without deleting anything: the tree, the selection
  list and the record of the calls to the listeners are as before, only the pending rename
  is reset, and the log receives ``Cannot delete'' with the name of the first selected node
  that is not removable.  When the view is invisible or disabled the method does nothing.
\<close>

theorem remove_aborts:
  "(getVisible (root v) Root \<and> viewEnabled v \<and> first_blocker v = Some b \<and>
    get_node (root v) b = Some i \<longrightarrow>
      removeSelectedItems removeItem hasFocus v =
        Some (Inr (v\<lparr>mRenameItem := None,
                      infoLog := infoLog v @ [''Cannot delete '' @ mName i]\<rparr>))) \<and>
   (\<not> (getVisible (root v) Root \<and> viewEnabled v) \<longrightarrow>
      removeSelectedItems removeItem hasFocus v = Some (Inr v))"
proof (intro conjI impI)
  assume a: "getVisible (root v) Root \<and> viewEnabled v \<and> first_blocker v = Some b \<and>
    get_node (root v) b = Some i"
  then have f: "find (\<lambda>r. isRemovable (root v) r \<noteq> Some True) (mSelectedItems v) = Some b"
    and n: "get_node (root v) b \<noteq> None" by (simp_all add: first_blocker_def)
  from f have ne: "mSelectedItems v \<noteq> []" by auto
  from check_removable_blocked [OF f n, of "[]"] a ne
  show "removeSelectedItems removeItem hasFocus v =
        Some (Inr (v\<lparr>mRenameItem := None,
                      infoLog := infoLog v @ [''Cannot delete '' @ mName i]\<rparr>))"
    by (simp add: removeSelectedItems_def Let_def)
next
  assume "\<not> (getVisible (root v) Root \<and> viewEnabled v)"
  then show "removeSelectedItems removeItem hasFocus v = Some (Inr v)"
    unfolding removeSelectedItems_def by (simp only: if_False)
qed

theorem remove_aborts_witness:
  "getVisible (root ex_remove_view) Root \<and> viewEnabled ex_remove_view \<and>
   first_blocker ex_remove_view = Some (ItemRef [] 1) \<and>
   removeSelectedItems (\<lambda>l. True) True ex_remove_view =
     Some (Inr (ex_remove_view\<lparr>mRenameItem := None, infoLog := [''Cannot delete locked'']\<rparr>)) \<and>
   \<not> (getVisible (root (ex_remove_view\<lparr>viewEnabled := False\<rparr>)) Root \<and>
       viewEnabled (ex_remove_view\<lparr>viewEnabled := False\<rparr>)) \<and>
   removeSelectedItems (\<lambda>l. True) True (ex_remove_view\<lparr>viewEnabled := False\<rparr>) =
     Some (Inr (ex_remove_view\<lparr>viewEnabled := False\<rparr>))"
proof -
  let ?i = "(new_item ''locked'' (Some \<lparr>getUUID = 2, isItemRemovable = False\<rparr>) 20)
               \<lparr>mIsSelected := True, mIsCurSelection := True\<rparr>"
  have 1: "getVisible (root ex_remove_view) Root"
    by (simp add: getVisible_def get_node_def ex_remove_view_def new_item_def)
  have 2: "viewEnabled ex_remove_view" by (simp add: ex_remove_view_def new_view_def)
  have 3: "first_blocker ex_remove_view = Some (ItemRef [] 1)"
    by (simp add: first_blocker_def ex_remove_view_def new_view_def
      isRemovable_def get_item_def item_isRemovable_def new_item_def)
  have 4: "get_node (root ex_remove_view) (ItemRef [] 1) = Some ?i"
    by (simp add: get_node_def get_item_def ex_remove_view_def)
  have 5: "infoLog ex_remove_view = []" by (simp add: ex_remove_view_def new_view_def)
  have 6: "mName ?i = ''locked''" by (simp add: new_item_def)
  have 7: "\<not> (getVisible (root (ex_remove_view\<lparr>viewEnabled := False\<rparr>)) Root \<and>
       viewEnabled (ex_remove_view\<lparr>viewEnabled := False\<rparr>))" by simp
  from remove_aborts [of ex_remove_view "ItemRef [] 1" ?i "\<lambda>l. True" True]
    remove_aborts [of "ex_remove_view\<lparr>viewEnabled := False\<rparr>" "ItemRef [] 1" ?i "\<lambda>l. True" True]
    1 2 3 4 5 6 7
  show ?thesis by simp
qed

end
